(* ===== verification/Chrono_Prelude.thy ===== *)
theory Chrono_Prelude
  imports
    "HOL-Library.Word"
    "HOL-Library.List_Lexorder"
    "HOL-Library.Monad_Syntax"
    "HOL-Library.Multiset"
begin

unbundle bit_operations_syntax

section \<open>Machine integers, byte strings and shared automation\<close>

text \<open>
  The vocabulary that every component theory uses.

  Rust's fixed-width integers are words of the same width: \<open>+\<close> wraps, as it does in the
  release profile of the workspace, \<open><\<close> and \<open>\<le>\<close> compare the unsigned values, \<open>unat\<close>
  is the cast \<open>as usize\<close> and \<open>word_of_nat\<close> the truncating cast from \<open>usize\<close>.
  A \<open>Vec<u8>\<close> is a list of bytes. A \<open>BTreeSet<NodeId>\<close> is a set of 32-bit words (always
  finite) and a \<open>BTreeMap\<close> is a map; both are iterated in ascending key order, through
  \<open>sorted_list_of_set\<close>.

  The little-endian conversions \<open>to_le_bytes\<close> and \<open>from_le_bytes\<close> of the standard library
  are defined here with the two round trips.
\<close>

type_synonym u8 = "8 word"
type_synonym u32 = "32 word"
type_synonym u64 = "64 word"
type_synonym bytes = "u8 list"

text \<open>Facts that decide how far a decoder advances, and facts that compose encodings.\<close>

named_theorems parse_rules \<open>composition rules for parsers over encoded prefixes\<close>
named_theorems parse_then \<open>reading one encoded field and going on\<close>
named_theorems encode_simps \<open>encoders as plain byte strings\<close>
named_theorems wrap_simps \<open>word arithmetic that does not wrap\<close>

subsection \<open>Words\<close>

lemma unat_plus_one [wrap_simps]:
  fixes x :: "'a::len word"
  assumes "unat x + 1 < 2 ^ LENGTH('a)"
  shows "unat (x + 1) = unat x + 1"
  using assms by (simp add: unat_word_ariths)

lemma unat_plus_nat [wrap_simps]:
  fixes x :: "'a::len word"
  assumes "unat x + n < 2 ^ LENGTH('a)"
  shows "unat (x + word_of_nat n) = unat x + n"
  using assms by (simp add: unat_word_ariths unat_of_nat)

lemma unat_bound: "unat (x :: 'a::len word) < 2 ^ LENGTH('a)"
  by (rule unsigned_less)

lemma unat_minus_one_less:
  fixes x y :: "'a::len word"
  assumes "y < x"
  shows "unat (x - 1) < unat x"
proof -
  have "x \<noteq> 0" using assms by auto
  then show ?thesis by (simp add: unat_minus_one unat_gt_0)
qed

lemma word_less_plus_one:
  fixes x :: "'a::len word"
  assumes "x \<noteq> - 1"
  shows "x < x + 1"
proof -
  have "unat x \<noteq> unat (- 1 :: 'a word)" using assms by (metis word_unat_eq_iff)
  moreover have "unat x \<le> unat (- 1 :: 'a word)" by (simp add: word_le_nat_alt [symmetric])
  moreover have "unat (- 1 :: 'a word) = 2 ^ LENGTH('a) - 1" by (simp add: unsigned_minus_1_eq_mask mask_eq_exp_minus_1)
  ultimately have "unat x + 1 < 2 ^ LENGTH('a)" by linarith
  then show ?thesis by (simp add: word_less_nat_alt unat_plus_one)
qed

lemma xor_left_cancel:
  fixes c x y :: "'a::len word"
  shows "c XOR x = c XOR y \<longleftrightarrow> x = y"
proof
  assume "c XOR x = c XOR y"
  then have "c XOR (c XOR x) = c XOR (c XOR y)" by simp
  then show "x = y" by (simp add: xor.assoc [symmetric])
qed simp

lemma xor_right_cancel:
  fixes c x y :: "'a::len word"
  shows "x XOR c = y XOR c \<longleftrightarrow> x = y"
  by (simp add: xor.commute [of _ c] xor_left_cancel)

lemma ucast_u8_u32_inject:
  assumes "(ucast b :: u32) = ucast b'"
  shows "(b :: u8) = b'"
proof (rule bit_word_eqI)
  fix k assume "k < LENGTH(8)"
  then show "bit b k = bit b' k"
    using arg_cong [OF assms, of "\<lambda>z. bit z k"] by (simp add: bit_simps)
qed

lemma finite_word_set [simp, intro]: "finite (S :: 'a::len word set)"
  by simp

lemma set_sorted_word_set [simp]: "set (sorted_list_of_set (S :: 'a::len word set)) = S"
  by simp

subsection \<open>Little-endian bytes\<close>

primrec le_bytes :: "nat \<Rightarrow> 'a::len word \<Rightarrow> bytes" where
  "le_bytes 0 w = []"
| "le_bytes (Suc n) w = ucast w # le_bytes n (drop_bit 8 w)"

primrec from_le_bytes :: "bytes \<Rightarrow> 'a::len word" where
  "from_le_bytes [] = 0"
| "from_le_bytes (b # bs) = ucast b OR push_bit 8 (from_le_bytes bs)"

lemma length_le_bytes [simp]: "length (le_bytes n w) = n"
  by (induction n arbitrary: w) simp_all

lemma le_bytes_eq_Nil [simp]: "le_bytes n w = [] \<longleftrightarrow> n = 0"
  by (cases n) simp_all

lemma bit_from_le_bytes:
  "bit (from_le_bytes bs :: 'a::len word) k \<longleftrightarrow>
     k < LENGTH('a) \<and> k div 8 < length bs \<and> bit (bs ! (k div 8)) (k mod 8)"
proof (induction bs arbitrary: k)
  case Nil
  then show ?case by simp
next
  case (Cons b bs)
  show ?case
  proof (cases "k < 8")
    case True
    then show ?thesis by (auto simp: bit_simps)
  next
    case False
    then obtain j where k: "k = j + 8" by (metis add.commute le_Suc_ex not_less)
    have "bit (from_le_bytes (b # bs) :: 'a word) k \<longleftrightarrow>
        k < LENGTH('a) \<and> bit (from_le_bytes bs :: 'a word) j"
      using False k by (auto simp: bit_simps dest: bit_imp_le_length)
    also have "\<dots> \<longleftrightarrow> k < LENGTH('a) \<and> j div 8 < length bs \<and> bit (bs ! (j div 8)) (j mod 8)"
      using Cons.IH [of j] k by auto
    finally show ?thesis using k by (simp add: div_add_self2)
  qed
qed

lemma nth_le_bytes:
  assumes "i < n"
  shows "le_bytes n w ! i = ucast (drop_bit (8 * i) w)"
  using assms
proof (induction n arbitrary: w i)
  case 0
  then show ?case by simp
next
  case (Suc n)
  then show ?case
    by (cases i) (simp_all add: drop_bit_drop_bit algebra_simps)
qed

lemma from_le_bytes_le_bytes:
  fixes w :: "'a::len word"
  assumes "LENGTH('a) = 8 * n"
  shows "from_le_bytes (le_bytes n w) = w"
proof (rule bit_word_eqI)
  fix k assume k: "k < LENGTH('a)"
  with assms have "k div 8 < n" by simp
  moreover have "8 * (k div 8) + k mod 8 = k" by simp
  ultimately show "bit (from_le_bytes (le_bytes n w) :: 'a word) k = bit w k"
    using k by (simp add: bit_from_le_bytes nth_le_bytes bit_simps)
qed

lemma le_bytes_from_le_bytes:
  assumes "LENGTH('a::len) = 8 * n" and "length bs = n"
  shows "le_bytes n (from_le_bytes bs :: 'a word) = bs"
proof (rule nth_equalityI)
  show "length (le_bytes n (from_le_bytes bs :: 'a word)) = length bs" using assms by simp
next
  fix i assume "i < length (le_bytes n (from_le_bytes bs :: 'a word))"
  then have i: "i < n" by simp
  show "le_bytes n (from_le_bytes bs :: 'a word) ! i = bs ! i"
  proof (rule bit_word_eqI)
    fix k assume "k < LENGTH(8)"
    then have k: "k < 8" by simp
    have "8 * i + k < 8 * n" using i k by linarith
    moreover have "(8 * i + k) div 8 = i" and "(8 * i + k) mod 8 = k" using k by auto
    ultimately show "bit (le_bytes n (from_le_bytes bs :: 'a word) ! i) k = bit (bs ! i) k"
      using i k assms
      by (simp add: nth_le_bytes bit_simps bit_from_le_bytes add.commute)
  qed
qed

end
