(* ===== verification/Codec.thy ===== *)
theory Codec
  imports Chrono_Prelude
begin

section \<open>The hand-rolled binary encoding (chronolog/src/codec.rs)\<close>

text \<open>
  \<open>Writer\<close> is an append-only buffer: each method is a function from the buffer to the
  extended buffer. \<open>Reader\<close> is a cursor over a byte slice, and every read is a decoder:
  a function from the cursor to an error or a value with the advanced cursor. After an
  error the source always leaves the decoding function, so the cursor is not returned.

  The interface between the primitive codecs and the message types is the locale
  \<open>wire_codec\<close>: an encoder that only appends, a decoder that stays inside its buffer,
  whose success does not depend on what follows, and that inverts the encoder.
\<close>

datatype decode_error =
    Truncated
  | BadTag u8
  | BadLength u64
  | BadChecksum u32 u32
  | Invalid string

type_synonym writer = bytes

record reader =
  rbuf :: bytes
  rpos :: nat

type_synonym 'a decoder = "reader \<Rightarrow> decode_error + ('a \<times> reader)"

definition MAX_FRAME :: nat where
  "MAX_FRAME = 64 * 1024 * 1024"

subsection \<open>Writing\<close>

definition w_new :: writer where
  "w_new = []"

definition w_u8 :: "u8 \<Rightarrow> writer \<Rightarrow> writer" where
  "w_u8 v w = w @ [v]"

definition w_u32 :: "u32 \<Rightarrow> writer \<Rightarrow> writer" where
  "w_u32 v w = w @ le_bytes 4 v"

definition w_u64 :: "u64 \<Rightarrow> writer \<Rightarrow> writer" where
  "w_u64 v w = w @ le_bytes 8 v"

definition w_bool :: "bool \<Rightarrow> writer \<Rightarrow> writer" where
  "w_bool v w = w_u8 (if v then 1 else 0) w"

definition w_bytes :: "bytes \<Rightarrow> writer \<Rightarrow> writer" where
  "w_bytes v w = w_u32 (word_of_nat (length v)) w @ v"

text \<open>A string is kept as its UTF-8 bytes.\<close>

definition w_str :: "bytes \<Rightarrow> writer \<Rightarrow> writer" where
  "w_str v w = w_bytes v w"

definition w_seq :: "('a \<Rightarrow> writer \<Rightarrow> writer) \<Rightarrow> 'a list \<Rightarrow> writer \<Rightarrow> writer" where
  "w_seq f items w = fold f items (w_u32 (word_of_nat (length items)) w)"

definition w_opt :: "('a \<Rightarrow> writer \<Rightarrow> writer) \<Rightarrow> 'a option \<Rightarrow> writer \<Rightarrow> writer" where
  "w_opt f v w = (case v of None \<Rightarrow> w_u8 0 w | Some x \<Rightarrow> f x (w_u8 1 w))"

subsection \<open>Reading\<close>

definition r_new :: "bytes \<Rightarrow> reader" where
  "r_new buf = \<lparr>rbuf = buf, rpos = 0\<rparr>"

definition remaining :: "reader \<Rightarrow> nat" where
  "remaining r = length (rbuf r) - rpos r"

definition is_done :: "reader \<Rightarrow> bool" where
  "is_done r \<longleftrightarrow> length (rbuf r) \<le> rpos r"

text \<open>The \<open>?\<close> operator and the plain result.\<close>

definition r_return :: "'a \<Rightarrow> 'a decoder" where
  "r_return x r = Inr (x, r)"

definition r_fail :: "decode_error \<Rightarrow> 'a decoder" where
  "r_fail e r = Inl e"

definition r_bind :: "'a decoder \<Rightarrow> ('a \<Rightarrow> 'b decoder) \<Rightarrow> 'b decoder" where
  "r_bind d f r = (case d r of Inl e \<Rightarrow> Inl e | Inr (x, r') \<Rightarrow> f x r')"

definition r_take :: "nat \<Rightarrow> bytes decoder" where
  "r_take n r =
     (if remaining r < n then Inl Truncated
      else Inr (take n (drop (rpos r) (rbuf r)), r\<lparr>rpos := rpos r + n\<rparr>))"

definition r_u8 :: "u8 decoder" where
  "r_u8 = r_bind (r_take 1) (\<lambda>b. r_return (b ! 0))"

definition r_u32 :: "u32 decoder" where
  "r_u32 = r_bind (r_take 4) (\<lambda>b. r_return (from_le_bytes b))"

definition r_u64 :: "u64 decoder" where
  "r_u64 = r_bind (r_take 8) (\<lambda>b. r_return (from_le_bytes b))"

definition r_bool :: "bool decoder" where
  "r_bool = r_bind r_u8 (\<lambda>n.
     if n = 0 then r_return False
     else if n = 1 then r_return True
     else r_fail (BadTag n))"

definition r_guard :: "nat \<Rightarrow> 'a decoder \<Rightarrow> 'a decoder" where
  "r_guard n d r = (if remaining r < n then Inl (BadLength (word_of_nat n)) else d r)"

definition r_bytes :: "bytes decoder" where
  "r_bytes = r_bind r_u32 (\<lambda>n. r_guard (unat n) (r_take (unat n)))"

text \<open>Well-formed UTF-8, as \<open>String::from_utf8\<close> decides it.\<close>

definition utf8_cont :: "u8 \<Rightarrow> bool" where
  "utf8_cont b \<longleftrightarrow> 0x80 \<le> b \<and> b \<le> 0xBF"

fun utf8_ok :: "bytes \<Rightarrow> bool" where
  "utf8_ok [] = True"
| "utf8_ok (b # bs) =
     (if b < 0x80 then utf8_ok bs
      else if 0xC2 \<le> b \<and> b \<le> 0xDF then
        (case bs of c # cs \<Rightarrow> utf8_cont c \<and> utf8_ok cs | _ \<Rightarrow> False)
      else if 0xE0 \<le> b \<and> b \<le> 0xEF then
        (case bs of c # d # cs \<Rightarrow>
           utf8_cont c \<and> utf8_cont d \<and> (b = 0xE0 \<longrightarrow> 0xA0 \<le> c) \<and> (b = 0xED \<longrightarrow> c \<le> 0x9F) \<and>
           utf8_ok cs
         | _ \<Rightarrow> False)
      else if 0xF0 \<le> b \<and> b \<le> 0xF4 then
        (case bs of c # d # e # cs \<Rightarrow>
           utf8_cont c \<and> utf8_cont d \<and> utf8_cont e \<and> (b = 0xF0 \<longrightarrow> 0x90 \<le> c) \<and>
           (b = 0xF4 \<longrightarrow> c \<le> 0x8F) \<and> utf8_ok cs
         | _ \<Rightarrow> False)
      else False)"

definition r_str :: "bytes decoder" where
  "r_str = r_bind r_bytes (\<lambda>b. if utf8_ok b then r_return b else r_fail (Invalid ''not utf-8''))"

primrec r_repeat :: "nat \<Rightarrow> 'a decoder \<Rightarrow> 'a list decoder" where
  "r_repeat 0 f = r_return []"
| "r_repeat (Suc n) f = r_bind f (\<lambda>x. r_bind (r_repeat n f) (\<lambda>xs. r_return (x # xs)))"

definition r_seq :: "'a decoder \<Rightarrow> 'a list decoder" where
  "r_seq f = r_bind r_u32 (\<lambda>n. r_guard (unat n) (r_repeat (unat n) f))"

definition r_opt :: "'a decoder \<Rightarrow> 'a option decoder" where
  "r_opt f = r_bind r_u8 (\<lambda>n.
     if n = 0 then r_return None
     else if n = 1 then r_bind f (\<lambda>x. r_return (Some x))
     else r_fail (BadTag n))"

definition r_rest :: "reader \<Rightarrow> bytes \<times> reader" where
  "r_rest r = (drop (rpos r) (rbuf r), r\<lparr>rpos := length (rbuf r)\<rparr>)"

text \<open>Running a decoder over a whole buffer and forgetting the cursor.\<close>

definition decode_all :: "'a decoder \<Rightarrow> bytes \<Rightarrow> decode_error + 'a" where
  "decode_all d buf = map_sum id fst (d (r_new buf))"

subsection \<open>Encoders append\<close>

text \<open>What an encoder adds does not depend on the buffer so far.\<close>

lemma w_u8_eq [encode_simps]: "w_u8 v w = w @ [v]"
  by (simp add: w_u8_def)

lemma w_u32_eq [encode_simps]: "w_u32 v w = w @ le_bytes 4 v"
  by (simp add: w_u32_def)

lemma w_u64_eq [encode_simps]: "w_u64 v w = w @ le_bytes 8 v"
  by (simp add: w_u64_def)

lemma w_bool_eq [encode_simps]: "w_bool v w = w @ [if v then 1 else 0]"
  by (simp add: w_bool_def w_u8_def)

lemma w_bytes_eq [encode_simps]: "w_bytes v w = w @ le_bytes 4 (word_of_nat (length v) :: u32) @ v"
  by (simp add: w_bytes_def w_u32_def)

lemma fold_appending:
  assumes "\<And>x w. f x w = w @ g x"
  shows "fold f xs w = w @ concat (map g xs)"
  by (induction xs arbitrary: w) (simp_all add: assms)

lemma w_seq_eq:
  assumes "\<And>x w. f x w = w @ g x"
  shows "w_seq f xs w = w @ le_bytes 4 (word_of_nat (length xs) :: u32) @ concat (map g xs)"
  by (simp add: w_seq_def fold_appending [OF assms] w_u32_def)

lemma w_opt_eq:
  assumes "\<And>x w. f x w = w @ g x"
  shows "w_opt f v w = w @ (case v of None \<Rightarrow> [0] | Some x \<Rightarrow> 1 # g x)"
  by (simp add: w_opt_def w_u8_def assms split: option.split)

subsection \<open>Decoders stay inside the buffer\<close>

text \<open>
  A decoder is safe when, from a cursor inside the buffer, a success leaves the buffer
  alone, moves the cursor forward without leaving the buffer, and is the same success
  whatever bytes are appended to the buffer.
\<close>

definition safe_decoder :: "'a decoder \<Rightarrow> bool" where
  "safe_decoder d \<longleftrightarrow>
     (\<forall>buf pos x r'. pos \<le> length buf \<longrightarrow> d \<lparr>rbuf = buf, rpos = pos\<rparr> = Inr (x, r') \<longrightarrow>
        rbuf r' = buf \<and> pos \<le> rpos r' \<and> rpos r' \<le> length buf \<and>
        (\<forall>ext. d \<lparr>rbuf = buf @ ext, rpos = pos\<rparr> = Inr (x, \<lparr>rbuf = buf @ ext, rpos = rpos r'\<rparr>)))"

lemma safe_decoderD:
  assumes "safe_decoder d" and "pos \<le> length buf"
    and "d \<lparr>rbuf = buf, rpos = pos\<rparr> = Inr (x, r')"
  shows "r' = \<lparr>rbuf = buf, rpos = rpos r'\<rparr>" and "pos \<le> rpos r'" and "rpos r' \<le> length buf"
    and "d \<lparr>rbuf = buf @ ext, rpos = pos\<rparr> = Inr (x, \<lparr>rbuf = buf @ ext, rpos = rpos r'\<rparr>)"
proof -
  have A: "rbuf r' = buf \<and> pos \<le> rpos r' \<and> rpos r' \<le> length buf \<and>
      (\<forall>ext. d \<lparr>rbuf = buf @ ext, rpos = pos\<rparr> = Inr (x, \<lparr>rbuf = buf @ ext, rpos = rpos r'\<rparr>))"
    using assms unfolding safe_decoder_def by blast
  then show "r' = \<lparr>rbuf = buf, rpos = rpos r'\<rparr>" by (cases r') simp
  from A show "pos \<le> rpos r'" and "rpos r' \<le> length buf"
    and "d \<lparr>rbuf = buf @ ext, rpos = pos\<rparr> = Inr (x, \<lparr>rbuf = buf @ ext, rpos = rpos r'\<rparr>)"
    by simp_all
qed

lemma safe_return [parse_rules]: "safe_decoder (r_return x)"
  by (simp add: safe_decoder_def r_return_def)

lemma safe_fail [parse_rules]: "safe_decoder (r_fail e)"
  by (simp add: safe_decoder_def r_fail_def)

lemma safe_bind [parse_rules]:
  assumes d: "safe_decoder d" and f: "\<And>x. safe_decoder (f x)"
  shows "safe_decoder (r_bind d f)"
  unfolding safe_decoder_def
proof (intro allI impI)
  fix buf pos y r''
  assume pos: "pos \<le> length buf" and run: "r_bind d f \<lparr>rbuf = buf, rpos = pos\<rparr> = Inr (y, r'')"
  from run obtain x r' where dx: "d \<lparr>rbuf = buf, rpos = pos\<rparr> = Inr (x, r')" and fx: "f x r' = Inr (y, r'')"
    by (auto simp: r_bind_def split: sum.splits)
  note D = safe_decoderD [OF d pos dx]
  from fx D(1) have fx': "f x \<lparr>rbuf = buf, rpos = rpos r'\<rparr> = Inr (y, r'')" by simp
  note F = safe_decoderD [OF f D(3) fx']
  show "rbuf r'' = buf \<and> pos \<le> rpos r'' \<and> rpos r'' \<le> length buf \<and>
      (\<forall>ext. r_bind d f \<lparr>rbuf = buf @ ext, rpos = pos\<rparr> =
         Inr (y, \<lparr>rbuf = buf @ ext, rpos = rpos r''\<rparr>))"
  proof (intro conjI allI)
    show "rbuf r'' = buf" using F(1) by (metis reader.select_convs(1))
    show "pos \<le> rpos r''" using D(2) F(2) by simp
    show "rpos r'' \<le> length buf" by (rule F(3))
    fix ext show "r_bind d f \<lparr>rbuf = buf @ ext, rpos = pos\<rparr> =
        Inr (y, \<lparr>rbuf = buf @ ext, rpos = rpos r''\<rparr>)"
      using D(4) [of ext] F(4) [of ext] by (simp add: r_bind_def)
  qed
qed

lemma safe_take [parse_rules]: "safe_decoder (r_take n)"
  by (auto simp: safe_decoder_def r_take_def remaining_def split: if_splits)

lemma safe_guard [parse_rules]: "safe_decoder d \<Longrightarrow> safe_decoder (r_guard n d)"
  unfolding safe_decoder_def r_guard_def remaining_def
  by (intro allI impI) (simp split: if_splits, linarith)

lemma safe_if [parse_rules]:
  "safe_decoder d \<Longrightarrow> safe_decoder d' \<Longrightarrow> safe_decoder (if b then d else d')"
  by simp

lemma safe_repeat [parse_rules]: "safe_decoder d \<Longrightarrow> safe_decoder (r_repeat n d)"
  by (induction n) (simp_all add: safe_return safe_bind)

lemma safe_u8 [parse_rules]: "safe_decoder r_u8"
  unfolding r_u8_def by (intro parse_rules)

lemma safe_u32 [parse_rules]: "safe_decoder r_u32"
  unfolding r_u32_def by (intro parse_rules)

lemma safe_u64 [parse_rules]: "safe_decoder r_u64"
  unfolding r_u64_def by (intro parse_rules)

lemma safe_bool [parse_rules]: "safe_decoder r_bool"
  unfolding r_bool_def by (intro parse_rules)

lemma safe_bytes [parse_rules]: "safe_decoder r_bytes"
  unfolding r_bytes_def by (intro parse_rules)

lemma safe_str [parse_rules]: "safe_decoder r_str"
  unfolding r_str_def by (intro parse_rules)

lemma safe_seq [parse_rules]: "safe_decoder d \<Longrightarrow> safe_decoder (r_seq d)"
  unfolding r_seq_def by (intro parse_rules)

lemma safe_opt [parse_rules]: "safe_decoder d \<Longrightarrow> safe_decoder (r_opt d)"
  unfolding r_opt_def by (intro parse_rules)

subsection \<open>Decoders invert encoders\<close>

text \<open>
  \<open>parses d bs x\<close>: wherever the bytes \<open>bs\<close> stand in a buffer, the decoder \<open>d\<close> reads
  \<open>x\<close> from them and stops right after them.
\<close>

definition parses :: "'a decoder \<Rightarrow> bytes \<Rightarrow> 'a \<Rightarrow> bool" where
  "parses d bs x \<longleftrightarrow>
     (\<forall>pre post. d \<lparr>rbuf = pre @ bs @ post, rpos = length pre\<rparr> =
        Inr (x, \<lparr>rbuf = pre @ bs @ post, rpos = length pre + length bs\<rparr>))"

lemma parsesD:
  "parses d bs x \<Longrightarrow> d \<lparr>rbuf = pre @ bs @ post, rpos = length pre\<rparr> =
     Inr (x, \<lparr>rbuf = pre @ bs @ post, rpos = length pre + length bs\<rparr>)"
  by (simp add: parses_def)

lemma parses_decode_all:
  assumes "parses d bs x"
  shows "decode_all d (bs @ post) = Inr x" and "decode_all d bs = Inr x"
  using parsesD [OF assms, of "[]" post] parsesD [OF assms, of "[]" "[]"]
  by (simp_all add: decode_all_def r_new_def)

lemma parses_return [parse_rules]: "parses (r_return x) [] x"
  by (simp add: parses_def r_return_def)

lemma parses_bind:
  assumes "parses d bs x" and "parses (f x) cs y"
  shows "parses (r_bind d f) (bs @ cs) y"
  unfolding parses_def
proof (intro allI)
  fix pre post
  have "d \<lparr>rbuf = pre @ bs @ (cs @ post), rpos = length pre\<rparr> =
      Inr (x, \<lparr>rbuf = pre @ bs @ (cs @ post), rpos = length pre + length bs\<rparr>)"
    by (rule parsesD [OF assms(1)])
  moreover have "f x \<lparr>rbuf = (pre @ bs) @ cs @ post, rpos = length (pre @ bs)\<rparr> =
      Inr (y, \<lparr>rbuf = (pre @ bs) @ cs @ post, rpos = length (pre @ bs) + length cs\<rparr>)"
    by (rule parsesD [OF assms(2)])
  ultimately show "r_bind d f \<lparr>rbuf = pre @ (bs @ cs) @ post, rpos = length pre\<rparr> =
      Inr (y, \<lparr>rbuf = pre @ (bs @ cs) @ post, rpos = length pre + length (bs @ cs)\<rparr>)"
    by (simp add: r_bind_def add.assoc)
qed

lemma parses_bind_Nil:
  "parses d bs x \<Longrightarrow> parses (f x) [] y \<Longrightarrow> parses (r_bind d f) bs y"
  using parses_bind [of d bs x f "[]" y] by simp

lemma parses_take: "length bs = n \<Longrightarrow> parses (r_take n) bs bs"
  by (auto simp: parses_def r_take_def remaining_def)

lemma parses_guard:
  assumes "n \<le> length bs" and "parses d bs x"
  shows "parses (r_guard n d) bs x"
  using assms by (auto simp: parses_def r_guard_def remaining_def)

lemma parses_u8: "parses r_u8 [v] v"
  unfolding r_u8_def by (rule parses_bind_Nil [OF parses_take]) (simp_all add: parses_return)

lemma parses_u32: "parses r_u32 (le_bytes 4 v) v"
  unfolding r_u32_def
  by (rule parses_bind_Nil [OF parses_take]) (simp_all add: from_le_bytes_le_bytes parses_return)

lemma parses_u64: "parses r_u64 (le_bytes 8 v) v"
  unfolding r_u64_def
  by (rule parses_bind_Nil [OF parses_take]) (simp_all add: from_le_bytes_le_bytes parses_return)

lemma parses_u8_then: "parses (f v) cs y \<Longrightarrow> parses (r_bind r_u8 f) (v # cs) y"
  using parses_bind [OF parses_u8, of f v cs y] by simp

lemma parses_bool: "parses r_bool [if v then 1 else 0] v"
  unfolding r_bool_def by (rule parses_u8_then) (simp add: parses_return)

lemma parses_bytes:
  assumes "length v < 2 ^ 32"
  shows "parses r_bytes (le_bytes 4 (word_of_nat (length v) :: u32) @ v) v"
proof -
  have n: "unat (word_of_nat (length v) :: u32) = length v"
    using assms by (simp add: unat_of_nat)
  show ?thesis unfolding r_bytes_def
    by (rule parses_bind [OF parses_u32]) (simp add: n parses_guard parses_take)
qed

lemma parses_repeat:
  assumes "\<And>x. x \<in> set xs \<Longrightarrow> parses d (g x) x"
  shows "parses (r_repeat (length xs) d) (concat (map g xs)) xs"
  using assms
proof (induction xs)
  case Nil
  then show ?case by (simp add: parses_return)
next
  case (Cons x xs)
  have tail: "parses (r_bind (r_repeat (length xs) d) (\<lambda>ys. r_return (x # ys))) (concat (map g xs)) (x # xs)"
    by (rule parses_bind_Nil [OF Cons.IH]) (simp_all add: Cons.prems parses_return)
  have head: "parses d (g x) x" using Cons.prems by simp
  show ?case
    using parses_bind [where f = "\<lambda>z. r_bind (r_repeat (length xs) d) (\<lambda>ys. r_return (z # ys))",
        OF head tail] by simp
qed

lemma length_concat_nonempty:
  "(\<And>x. x \<in> set xs \<Longrightarrow> g x \<noteq> []) \<Longrightarrow> length xs \<le> length (concat (map g xs))"
proof (induction xs)
  case Nil
  then show ?case by simp
next
  case (Cons x xs)
  have "Suc 0 \<le> length (g x)" using Cons.prems by (simp add: Suc_leI)
  moreover have "length xs \<le> length (concat (map g xs))" using Cons by simp
  ultimately have "Suc 0 + length xs \<le> length (g x) + length (concat (map g xs))" by (rule add_le_mono)
  then show ?case by simp
qed

lemma parses_seq:
  assumes len: "length xs < 2 ^ 32"
    and elem: "\<And>x. x \<in> set xs \<Longrightarrow> parses d (g x) x"
    and nonempty: "\<And>x. x \<in> set xs \<Longrightarrow> g x \<noteq> []"
  shows "parses (r_seq d) (le_bytes 4 (word_of_nat (length xs) :: u32) @ concat (map g xs)) xs"
proof -
  have n: "unat (word_of_nat (length xs) :: u32) = length xs"
    using len by (simp add: unat_of_nat)
  show ?thesis unfolding r_seq_def
    by (rule parses_bind [OF parses_u32])
      (simp add: n parses_guard length_concat_nonempty nonempty parses_repeat elem)
qed

lemma parses_opt:
  assumes "\<And>x. v = Some x \<Longrightarrow> parses d (g x) x"
  shows "parses (r_opt d) (case v of None \<Rightarrow> [0] | Some x \<Rightarrow> 1 # g x) v"
proof (cases v)
  case None
  then show ?thesis unfolding r_opt_def by (simp add: parses_u8_then parses_return)
next
  case (Some x)
  have "parses (r_bind d (\<lambda>x. r_return (Some x))) (g x) (Some x)"
    by (rule parses_bind_Nil [OF assms [OF Some]]) (rule parses_return)
  then show ?thesis unfolding r_opt_def using Some by (simp add: parses_u8_then)
qed

text \<open>
  The same facts as rewrite rules for decoders written as chains of reads: each rule
  consumes the encoding of one field. With \<open>encode_simps\<close> they prove the round trip of a
  record by rewriting.
\<close>

lemma parses_return_iff [parse_then]: "parses (r_return x) [] y \<longleftrightarrow> x = y"
  by (auto simp: parses_def r_return_def)

lemma parses_then [parse_then]:
  "parses (f8 v8) cs y \<Longrightarrow> parses (r_bind r_u8 f8) (v8 # cs) y"
  "parses (f32 v32) cs y \<Longrightarrow> parses (r_bind r_u32 f32) (le_bytes 4 v32 @ cs) y"
  "parses (f64 v64) cs y \<Longrightarrow> parses (r_bind r_u64 f64) (le_bytes 8 v64 @ cs) y"
  "parses (fb b) cs y \<Longrightarrow> parses (r_bind r_bool fb) ((if b then 1 else 0) # cs) y"
  "length v < 2 ^ 32 \<Longrightarrow> parses (f v) cs y \<Longrightarrow>
     parses (r_bind r_bytes f) (le_bytes 4 (word_of_nat (length v) :: u32) @ v @ cs) y"
  using parses_bind [OF parses_u8, of f8 v8 cs y] parses_bind [OF parses_u32, of f32 v32 cs y]
    parses_bind [OF parses_u64, of f64 v64 cs y] parses_bind [OF parses_bool, of fb b cs y]
    parses_bind [OF parses_bytes, of v f cs y]
  by simp_all

lemma parses_bool_then [parse_then]:
  "parses (fb True) cs y \<Longrightarrow> parses (r_bind r_bool fb) (1 # cs) y"
  "parses (fb False) cs y \<Longrightarrow> parses (r_bind r_bool fb) (0 # cs) y"
  using parses_then(4) [of fb True cs y] parses_then(4) [of fb False cs y] by simp_all

lemma r_bind_assoc [parse_then]: "r_bind (r_bind d f) g = r_bind d (\<lambda>x. r_bind (f x) g)"
  by (rule ext) (simp add: r_bind_def split: sum.split prod.split)

lemma r_bind_return [parse_then]: "r_bind (r_return x) f = f x"
  by (rule ext) (simp add: r_bind_def r_return_def)

lemma parses_last [parse_then]:
  "parses (f32 v32) [] y \<Longrightarrow> parses (r_bind r_u32 f32) (le_bytes 4 v32) y"
  "parses (f64 v64) [] y \<Longrightarrow> parses (r_bind r_u64 f64) (le_bytes 8 v64) y"
  "length v < 2 ^ 32 \<Longrightarrow> parses (f v) [] y \<Longrightarrow>
     parses (r_bind r_bytes f) (le_bytes 4 (word_of_nat (length v) :: u32) @ v) y"
  by (blast intro: parses_bind_Nil parses_u32 parses_u64 parses_bytes)+

subsection \<open>The codec interface\<close>

text \<open>
  What a client of a codec relies on. From the laws: encodings are injective and
  prefix-free, no strict prefix of an encoding decodes, and the sequence and option
  combinators are codecs again.
\<close>

locale wire_codec =
  fixes enc :: "'a \<Rightarrow> writer \<Rightarrow> writer"
    and dec :: "'a decoder"
    and ok :: "'a \<Rightarrow> bool"
  assumes enc_append: "enc x w = w @ enc x []"
    and enc_nonempty: "enc x [] \<noteq> []"
    and dec_enc: "ok x \<Longrightarrow> parses dec (enc x []) x"
    and dec_safe: "safe_decoder dec"
begin

lemma decode_encode:
  "ok x \<Longrightarrow> decode_all dec (enc x []) = Inr x"
  by (rule parses_decode_all(2) [OF dec_enc])

lemma prefix_free:
  assumes "ok x" and "ok y" and "enc x [] @ s = enc y [] @ t"
  shows "x = y \<and> s = t"
proof -
  have "dec \<lparr>rbuf = enc x [] @ s, rpos = 0\<rparr> = Inr (x, \<lparr>rbuf = enc x [] @ s, rpos = length (enc x [])\<rparr>)"
    using parsesD [OF dec_enc [OF assms(1)], of "[]" s] by simp
  moreover have "dec \<lparr>rbuf = enc y [] @ t, rpos = 0\<rparr> =
      Inr (y, \<lparr>rbuf = enc y [] @ t, rpos = length (enc y [])\<rparr>)"
    using parsesD [OF dec_enc [OF assms(2)], of "[]" t] by simp
  ultimately have "x = y" and "length (enc x []) = length (enc y [])"
    using assms(3) by auto
  with assms(3) show ?thesis by simp
qed

lemma strict_prefix_fails:
  assumes "ok x" and "enc x [] = p @ q" and "q \<noteq> []"
  shows "\<exists>e. decode_all dec p = Inl e"
proof (rule ccontr)
  assume "\<nexists>e. decode_all dec p = Inl e"
  then obtain y r where run: "dec \<lparr>rbuf = p, rpos = 0\<rparr> = Inr (y, r)"
    by (cases "dec (r_new p)") (auto simp: decode_all_def r_new_def)
  from safe_decoderD(3) [OF dec_safe _ run] safe_decoderD(4) [OF dec_safe _ run, of q]
  have "rpos r \<le> length p" and "dec \<lparr>rbuf = p @ q, rpos = 0\<rparr> = Inr (y, \<lparr>rbuf = p @ q, rpos = rpos r\<rparr>)"
    by simp_all
  moreover have "dec \<lparr>rbuf = p @ q, rpos = 0\<rparr> = Inr (x, \<lparr>rbuf = p @ q, rpos = length (p @ q)\<rparr>)"
    using parsesD [OF dec_enc [OF assms(1)], of "[]" "[]"] assms(2) by simp
  ultimately have "rpos r \<le> length p" and "length p + length q = rpos r" by simp_all
  then show False using assms(3) by (cases q) simp_all
qed

lemmas seq_eq = w_seq_eq [of enc "\<lambda>x. enc x []", OF enc_append]
lemmas opt_eq = w_opt_eq [of enc "\<lambda>x. enc x []", OF enc_append]

lemma seq_parses:
  assumes "length xs < 2 ^ 32" and "\<forall>x \<in> set xs. ok x"
  shows "parses (r_seq dec) (w_seq enc xs []) xs"
  unfolding seq_eq append_Nil
  by (rule parses_seq) (use assms dec_enc enc_nonempty in auto)

lemma opt_parses:
  assumes "\<And>x. v = Some x \<Longrightarrow> ok x"
  shows "parses (r_opt dec) (w_opt enc v []) v"
  unfolding opt_eq append_Nil
  by (rule parses_opt) (use assms dec_enc in auto)

end

interpretation u8_codec: wire_codec w_u8 r_u8 "\<lambda>_. True"
  by unfold_locales (simp_all add: encode_simps parses_u8 parse_rules)

interpretation u32_codec: wire_codec w_u32 r_u32 "\<lambda>_. True"
  by unfold_locales (simp_all add: encode_simps parses_u32 parse_rules)

interpretation u64_codec: wire_codec w_u64 r_u64 "\<lambda>_. True"
  by unfold_locales (simp_all add: encode_simps parses_u64 parse_rules)

interpretation bool_codec: wire_codec w_bool r_bool "\<lambda>_. True"
  by unfold_locales (simp_all only: encode_simps append_Nil parses_bool parse_rules, simp_all)

interpretation bytes_codec: wire_codec w_bytes r_bytes "\<lambda>v. length v < 2 ^ 32"
  by unfold_locales (simp_all add: encode_simps parses_bytes parse_rules)

end
