(* ===== verification/Raft_Types.thy ===== *)
theory Raft_Types
  imports Codec
begin

section \<open>The types Raft persists and replicates (chronolog/src/types.rs)\<close>

text \<open>
  Log entries, cluster configurations with joint consensus, hard state and snapshots,
  with their wire format. A \<open>Config\<close> decides quorums; the interface its clients use is
  the locale \<open>quorum_system\<close>: quorums are upward closed and any two of them meet.
\<close>

type_synonym node_id = u32
type_synonym raft_term = u64
type_synonym index = u64

datatype config_change =
    EnterJoint "node_id set" "node_id set"
  | LeaveJoint

datatype entry_kind =
    Normal bytes
  | Config config_change
  | Noop

record entry =
  e_term :: raft_term
  e_index :: index
  e_kind :: entry_kind

record config =
  voters :: "node_id set"
  outgoing :: "node_id set"
  learners :: "node_id set"

record hard_state =
  hs_term :: raft_term
  hs_vote :: "node_id option"
  hs_commit :: index

record snapshot =
  sn_last_index :: index
  sn_last_term :: raft_term
  sn_config :: config
  sn_data :: bytes

definition default_config :: config where
  "default_config = \<lparr>voters = {}, outgoing = {}, learners = {}\<rparr>"

definition default_hard_state :: hard_state where
  "default_hard_state = \<lparr>hs_term = 0, hs_vote = None, hs_commit = 0\<rparr>"

subsection \<open>Configurations and quorums\<close>

definition simple_config :: "node_id list \<Rightarrow> config" where
  "simple_config vs = \<lparr>voters = set vs, outgoing = {}, learners = {}\<rparr>"

definition is_joint :: "config \<Rightarrow> bool" where
  "is_joint c \<longleftrightarrow> outgoing c \<noteq> {}"

definition all_nodes :: "config \<Rightarrow> node_id set" where
  "all_nodes c = voters c \<union> outgoing c \<union> learners c"

definition is_voter :: "config \<Rightarrow> node_id \<Rightarrow> bool" where
  "is_voter c n \<longleftrightarrow> n \<in> voters c \<or> n \<in> outgoing c"

definition majority :: "node_id set \<Rightarrow> node_id set \<Rightarrow> bool" where
  "majority grp votes \<longleftrightarrow>
     (if grp = {} then True else card {n \<in> grp. n \<in> votes} * 2 > card grp)"

definition has_quorum :: "config \<Rightarrow> node_id set \<Rightarrow> bool" where
  "has_quorum c votes \<longleftrightarrow>
     (if voters c = {} \<and> outgoing c = {} then False
      else majority (voters c) votes \<and> (\<not> is_joint c \<or> majority (outgoing c) votes))"

definition quorum_of :: "node_id set \<Rightarrow> (node_id \<Rightarrow> index) \<Rightarrow> index option" where
  "quorum_of grp matched =
     (if grp = {} then None
      else Some (rev (sort (map matched (sorted_list_of_set grp))) ! (card grp div 2)))"

definition quorum_index :: "config \<Rightarrow> (node_id \<Rightarrow> index) \<Rightarrow> index" where
  "quorum_index c matched =
     (case (quorum_of (voters c) matched, quorum_of (outgoing c) matched) of
        (Some a, Some b) \<Rightarrow> min a b
      | (Some a, None) \<Rightarrow> a
      | (None, Some b) \<Rightarrow> b
      | (None, None) \<Rightarrow> 0)"

subsection \<open>Encoding\<close>

definition set_encode :: "node_id set \<Rightarrow> writer \<Rightarrow> writer" where
  "set_encode s w = w_seq w_u32 (sorted_list_of_set s) w"

definition set_decode :: "node_id set decoder" where
  "set_decode = r_bind (r_seq r_u32) (\<lambda>v. r_return (set v))"

definition config_encode :: "config \<Rightarrow> writer \<Rightarrow> writer" where
  "config_encode c w = set_encode (learners c) (set_encode (outgoing c) (set_encode (voters c) w))"

definition config_decode :: "config decoder" where
  "config_decode =
     r_bind set_decode (\<lambda>vs. r_bind set_decode (\<lambda>os. r_bind set_decode (\<lambda>ls.
       r_return \<lparr>voters = vs, outgoing = os, learners = ls\<rparr>)))"

definition change_encode :: "config_change \<Rightarrow> writer \<Rightarrow> writer" where
  "change_encode c w =
     (case c of
        EnterJoint incoming ls \<Rightarrow> set_encode ls (set_encode incoming (w_u8 0 w))
      | LeaveJoint \<Rightarrow> w_u8 1 w)"

definition change_decode :: "config_change decoder" where
  "change_decode = r_bind r_u8 (\<lambda>t.
     if t = 0 then r_bind set_decode (\<lambda>incoming. r_bind set_decode (\<lambda>ls.
       r_return (EnterJoint incoming ls)))
     else if t = 1 then r_return LeaveJoint
     else r_fail (BadTag t))"

definition entry_encode :: "entry \<Rightarrow> writer \<Rightarrow> writer" where
  "entry_encode e w =
     (let w = w_u64 (e_index e) (w_u64 (e_term e) w) in
      case e_kind e of
        Normal d \<Rightarrow> w_bytes d (w_u8 0 w)
      | Config c \<Rightarrow> change_encode c (w_u8 1 w)
      | Noop \<Rightarrow> w_u8 2 w)"

definition kind_decode :: "entry_kind decoder" where
  "kind_decode = r_bind r_u8 (\<lambda>t.
     if t = 0 then r_bind r_bytes (\<lambda>d. r_return (Normal d))
     else if t = 1 then r_bind change_decode (\<lambda>c. r_return (Config c))
     else if t = 2 then r_return Noop
     else r_fail (BadTag t))"

definition entry_decode :: "entry decoder" where
  "entry_decode =
     r_bind r_u64 (\<lambda>t. r_bind r_u64 (\<lambda>i. r_bind kind_decode (\<lambda>k.
       r_return \<lparr>e_term = t, e_index = i, e_kind = k\<rparr>)))"

definition entry_to_bytes :: "entry \<Rightarrow> bytes" where
  "entry_to_bytes e = entry_encode e w_new"

definition snapshot_encode :: "snapshot \<Rightarrow> writer \<Rightarrow> writer" where
  "snapshot_encode s w =
     w_bytes (sn_data s) (config_encode (sn_config s)
       (w_u64 (sn_last_term s) (w_u64 (sn_last_index s) w)))"

definition snapshot_decode :: "snapshot decoder" where
  "snapshot_decode =
     r_bind r_u64 (\<lambda>i. r_bind r_u64 (\<lambda>t. r_bind config_decode (\<lambda>c. r_bind r_bytes (\<lambda>d.
       r_return \<lparr>sn_last_index = i, sn_last_term = t, sn_config = c, sn_data = d\<rparr>))))"

subsection \<open>Round trips\<close>

text \<open>
  What fits the format: the lengths are cast to 32 bits when written, so a payload has
  fewer than \<open>2\<^sup>3\<^sup>2\<close> bytes and a node set is not the full set of 32-bit identifiers.
\<close>

definition set_ok :: "node_id set \<Rightarrow> bool" where
  "set_ok s \<longleftrightarrow> card s < 2 ^ 32"

definition config_ok :: "config \<Rightarrow> bool" where
  "config_ok c \<longleftrightarrow> set_ok (voters c) \<and> set_ok (outgoing c) \<and> set_ok (learners c)"

definition change_ok :: "config_change \<Rightarrow> bool" where
  "change_ok c = (case c of EnterJoint i l \<Rightarrow> set_ok i \<and> set_ok l | LeaveJoint \<Rightarrow> True)"

definition entry_ok :: "entry \<Rightarrow> bool" where
  "entry_ok e =
     (case e_kind e of Normal d \<Rightarrow> length d < 2 ^ 32 | Config c \<Rightarrow> change_ok c | Noop \<Rightarrow> True)"

definition snapshot_ok :: "snapshot \<Rightarrow> bool" where
  "snapshot_ok s \<longleftrightarrow> config_ok (sn_config s) \<and> length (sn_data s) < 2 ^ 32"

text \<open>The encoding of a node set as one chunk.\<close>

definition set_bytes :: "node_id set \<Rightarrow> bytes" where
  "set_bytes s = set_encode s []"

lemma set_encode_eq [encode_simps]: "set_encode s w = w @ set_bytes s"
  unfolding set_bytes_def set_encode_def by (subst (1 2) u32_codec.seq_eq) simp

lemma set_bytes_nonempty [simp]: "set_bytes s \<noteq> []"
  unfolding set_bytes_def set_encode_def by (subst u32_codec.seq_eq) simp

lemma safe_set [parse_rules]: "safe_decoder set_decode"
  unfolding set_decode_def by (intro parse_rules)

lemma parses_set: "set_ok s \<Longrightarrow> parses set_decode (set_bytes s) s"
  unfolding set_decode_def set_bytes_def set_encode_def set_ok_def
  by (rule parses_bind_Nil [OF u32_codec.seq_parses]) (simp_all add: parses_return)

lemma parses_set_then [parse_then]:
  "set_ok s \<Longrightarrow> parses (f s) cs y \<Longrightarrow> parses (r_bind set_decode f) (set_bytes s @ cs) y"
  "set_ok s \<Longrightarrow> parses (f s) [] y \<Longrightarrow> parses (r_bind set_decode f) (set_bytes s) y"
  by (auto intro: parses_bind parses_bind_Nil parses_set)

interpretation set_codec: wire_codec set_encode set_decode set_ok
  by unfold_locales (simp_all add: encode_simps parses_set safe_set)

text \<open>Configurations, membership changes, entries and snapshots are codecs.\<close>

lemma safe_config [parse_rules]: "safe_decoder config_decode"
  unfolding config_decode_def by (intro parse_rules)

lemma safe_change [parse_rules]: "safe_decoder change_decode"
  unfolding change_decode_def by (intro parse_rules)

lemma safe_entry [parse_rules]: "safe_decoder entry_decode"
  unfolding entry_decode_def kind_decode_def by (intro parse_rules)

lemma safe_snapshot [parse_rules]: "safe_decoder snapshot_decode"
  unfolding snapshot_decode_def by (intro parse_rules)

interpretation config_codec: wire_codec config_encode config_decode config_ok
  by unfold_locales
    (simp_all add: config_encode_def encode_simps safe_config,
      simp add: config_decode_def config_ok_def parse_then)

lemma parses_change: "change_ok c \<Longrightarrow> parses change_decode (change_encode c []) c"
  by (cases c) (simp_all add: change_encode_def encode_simps change_decode_def change_ok_def parse_then)

interpretation change_codec: wire_codec change_encode change_decode change_ok
proof unfold_locales
  fix x w
  show "change_encode x w = w @ change_encode x []" and "change_encode x [] \<noteq> []"
    by (simp_all add: change_encode_def encode_simps split: config_change.split)
qed (simp_all add: safe_change parses_change)

lemma kind_parses:
  assumes "entry_ok e"
  shows "parses kind_decode
    (case e_kind e of Normal d \<Rightarrow> w_bytes d [0] | Config c \<Rightarrow> 1 # change_encode c [] | Noop \<Rightarrow> [2])
    (e_kind e)"
proof (cases "e_kind e")
  case (Normal d)
  with assms show ?thesis by (simp add: kind_decode_def entry_ok_def encode_simps parse_then)
next
  case (Config c)
  with assms have "parses change_decode (change_encode c []) c"
    by (simp add: entry_ok_def parses_change)
  then have "parses (r_bind change_decode (\<lambda>c. r_return (Config c))) (change_encode c []) (Config c)"
    by (rule parses_bind_Nil) (rule parses_return)
  with Config show ?thesis by (simp add: kind_decode_def parse_then)
next
  case Noop
  then show ?thesis by (simp add: kind_decode_def parse_then)
qed

lemma entry_encode_eq [encode_simps]: "entry_encode e w = w @ entry_to_bytes e"
  unfolding entry_to_bytes_def entry_encode_def w_new_def
  by (simp add: encode_simps change_encode_def Let_def split: entry_kind.split config_change.split)

lemma entry_to_bytes_eq:
  "entry_to_bytes e = le_bytes 8 (e_term e) @ le_bytes 8 (e_index e) @
    (case e_kind e of Normal d \<Rightarrow> w_bytes d [0] | Config c \<Rightarrow> 1 # change_encode c [] | Noop \<Rightarrow> [2])"
  unfolding entry_to_bytes_def entry_encode_def w_new_def
  by (simp add: encode_simps change_encode_def Let_def split: entry_kind.split config_change.split)

lemma parses_entry:
  assumes "entry_ok e"
  shows "parses entry_decode (entry_to_bytes e) e"
proof -
  have "parses (r_bind kind_decode (\<lambda>k. r_return \<lparr>e_term = e_term e, e_index = e_index e, e_kind = k\<rparr>))
      (case e_kind e of Normal d \<Rightarrow> w_bytes d [0] | Config c \<Rightarrow> 1 # change_encode c [] | Noop \<Rightarrow> [2]) e"
    by (rule parses_bind_Nil [OF kind_parses [OF assms]]) (simp add: parse_then)
  then show ?thesis unfolding entry_to_bytes_eq entry_decode_def by (simp add: parse_then)
qed

lemma entry_to_bytes_nonempty [simp]: "entry_to_bytes e \<noteq> []"
  by (simp add: entry_to_bytes_eq)

interpretation entry_codec: wire_codec entry_encode entry_decode entry_ok
  by unfold_locales (simp_all add: encode_simps parses_entry safe_entry)

lemma entry_seq_eq [encode_simps]:
  "w_seq entry_encode es w =
     w @ le_bytes 4 (word_of_nat (length es) :: u32) @ concat (map entry_to_bytes es)"
  by (rule w_seq_eq) (rule entry_encode_eq)

interpretation snapshot_codec: wire_codec snapshot_encode snapshot_decode snapshot_ok
  by unfold_locales
    (simp_all add: snapshot_encode_def config_encode_def encode_simps safe_snapshot,
      simp add: snapshot_decode_def config_decode_def snapshot_ok_def config_ok_def parse_then)

subsection \<open>Quorums meet\<close>

text \<open>
  What elections and commitment rely on. The client lemma is the counting argument of
  Election Safety: if each voter backs at most one candidate, at most one candidate has a
  quorum behind it.
\<close>

locale quorum_system =
  fixes quorum :: "'n set \<Rightarrow> bool"
  assumes quorums_meet: "quorum A \<Longrightarrow> quorum B \<Longrightarrow> A \<inter> B \<noteq> {}"
    and quorum_mono: "quorum A \<Longrightarrow> A \<subseteq> B \<Longrightarrow> quorum B"
begin

lemma quorum_nonempty: "quorum A \<Longrightarrow> A \<noteq> {}"
  using quorums_meet by blast

lemma unique_choice:
  assumes "quorum A" and "quorum B"
    and "\<And>n. n \<in> A \<Longrightarrow> chose n a" and "\<And>n. n \<in> B \<Longrightarrow> chose n b"
    and "\<And>n c d. chose n c \<Longrightarrow> chose n d \<Longrightarrow> c = d"
  shows "a = b"
  using quorums_meet [OF assms(1,2)] assms(3-5) by blast

lemma quorum_blocks_complement: "quorum A \<Longrightarrow> \<not> quorum (- A)"
  using quorums_meet [of A "- A"] by auto

end

lemma majority_meets:
  assumes "grp \<noteq> {}" and "majority grp A" and "majority grp B"
  shows "grp \<inter> A \<inter> B \<noteq> {}"
proof
  assume "grp \<inter> A \<inter> B = {}"
  then have "card (grp \<inter> A) + card (grp \<inter> B) = card ((grp \<inter> A) \<union> (grp \<inter> B))"
    by (intro card_Un_disjoint [symmetric]) auto
  also have "\<dots> \<le> card grp" by (rule card_mono) auto
  finally have "card (grp \<inter> A) * 2 \<le> card grp \<or> card (grp \<inter> B) * 2 \<le> card grp" by linarith
  with assms show False by (auto simp: majority_def Int_def)
qed

lemma majority_mono:
  assumes "majority grp A" and "A \<subseteq> B"
  shows "majority grp B"
proof -
  have "card {n \<in> grp. n \<in> A} \<le> card {n \<in> grp. n \<in> B}"
    by (rule card_mono) (use assms(2) in auto)
  with assms(1) show ?thesis unfolding majority_def by (simp split: if_splits)
qed

lemma has_quorum_group:
  assumes "has_quorum c A"
  obtains "voters c \<noteq> {}" | "voters c = {}" "outgoing c \<noteq> {}"
  using assms by (auto simp: has_quorum_def split: if_splits)

lemma has_quorum_meet:
  assumes "has_quorum c A" and "has_quorum c B"
  shows "A \<inter> B \<noteq> {}"
  using assms(1)
proof (cases rule: has_quorum_group)
  case 1
  with assms majority_meets [of "voters c" A B] show ?thesis
    by (auto simp: has_quorum_def split: if_splits)
next
  case 2
  with assms majority_meets [of "outgoing c" A B] show ?thesis
    by (auto simp: has_quorum_def is_joint_def split: if_splits)
qed

lemma has_quorum_mono: "has_quorum c A \<Longrightarrow> A \<subseteq> B \<Longrightarrow> has_quorum c B"
  unfolding has_quorum_def by (auto intro: majority_mono split: if_splits)

interpretation cfg_quorum: quorum_system "has_quorum c" for c
  by unfold_locales (use has_quorum_meet has_quorum_mono in blast)+

lemma has_quorum_voters_only: "has_quorum c A \<longleftrightarrow> has_quorum c (A \<inter> (voters c \<union> outgoing c))"
proof -
  have "{n \<in> voters c. n \<in> A} = {n \<in> voters c. n \<in> A \<inter> (voters c \<union> outgoing c)}"
    and "{n \<in> outgoing c. n \<in> A} = {n \<in> outgoing c. n \<in> A \<inter> (voters c \<union> outgoing c)}"
    by auto
  then show ?thesis unfolding has_quorum_def majority_def by simp
qed

text \<open>
  C3: any two quorums of a configuration, simple or joint, share a voter. Learners are
  never what makes them meet.
\<close>

theorem quorum_intersection:
  assumes "has_quorum c A" and "has_quorum c B"
  shows "\<exists>n. is_voter c n \<and> n \<in> A \<and> n \<in> B"
proof -
  let ?V = "voters c \<union> outgoing c"
  have "has_quorum c (A \<inter> ?V)" and "has_quorum c (B \<inter> ?V)"
    using assms has_quorum_voters_only by blast+
  then have "(A \<inter> ?V) \<inter> (B \<inter> ?V) \<noteq> {}" by (rule cfg_quorum.quorums_meet)
  then show ?thesis by (auto simp: is_voter_def)
qed

theorem quorum_intersection_witness:
  "has_quorum \<lparr>voters = {2,3,4}, outgoing = {0,1,2}, learners = {9}\<rparr> {0,1,3,4} \<and>
   has_quorum \<lparr>voters = {2,3,4}, outgoing = {0,1,2}, learners = {9}\<rparr> {0,2,3} \<and>
   (\<exists>n. is_voter \<lparr>voters = {2,3,4}, outgoing = {0,1,2}, learners = {9}\<rparr> n \<and>
      n \<in> {0,1,3,4} \<and> n \<in> {0,2,3})"
proof -
  let ?c = "\<lparr>voters = {2,3,4}, outgoing = {0,1,2}, learners = {9}\<rparr> :: config"
  have a: "has_quorum ?c {0,1,3,4}" by code_simp
  have b: "has_quorum ?c {0,2,3}" by code_simp
  show ?thesis using a b quorum_intersection [OF a b] by simp
qed

subsection \<open>The quorum index\<close>

lemma sorted_desc_nth:
  assumes "sorted (rev ys)" and "m < length ys"
  shows "v \<le> ys ! m \<longleftrightarrow> m < length (filter (\<lambda>x. v \<le> x) (ys :: 'a::linorder list))"
  using assms
proof (induction ys arbitrary: m)
  case Nil
  then show ?case by simp
next
  case (Cons y ys)
  have desc: "sorted (rev ys)" and top: "\<forall>x \<in> set ys. x \<le> y"
    using Cons.prems(1) by (auto simp: sorted_append)
  show ?case
  proof (cases "v \<le> y")
    case True
    then show ?thesis using Cons.IH [OF desc, of "m - 1"] Cons.prems(2) by (cases m) simp_all
  next
    case False
    then have none: "filter (\<lambda>x. v \<le> x) (y # ys) = []"
      using top by (auto simp: filter_empty_conv)
    have "(y # ys) ! m \<in> set (y # ys)" using Cons.prems(2) by (rule nth_mem)
    then have "\<not> v \<le> (y # ys) ! m" using top False by auto
    then show ?thesis unfolding none by simp
  qed
qed

lemma length_filter_sort: "length (filter P (rev (sort xs))) = length (filter P xs)"
  by (metis mset_filter mset_rev mset_sort size_mset)

lemma quorum_of_iff:
  assumes "grp \<noteq> {}"
  shows "v \<le> the (quorum_of grp matched) \<longleftrightarrow> majority grp {n. v \<le> matched n}"
proof -
  let ?ns = "sorted_list_of_set grp" and ?m = "card grp div 2"
  let ?ys = "rev (sort (map matched ?ns))"
  have "0 < card grp" using assms by (simp add: card_gt_0_iff)
  then have m: "?m < length ?ys" by simp
  have "v \<le> the (quorum_of grp matched) \<longleftrightarrow> v \<le> ?ys ! ?m"
    using assms by (simp add: quorum_of_def)
  also have "\<dots> \<longleftrightarrow> ?m < length (filter (\<lambda>x. v \<le> x) ?ys)"
    by (rule sorted_desc_nth [OF _ m]) simp
  also have "length (filter (\<lambda>x. v \<le> x) ?ys) = length (filter (\<lambda>n. v \<le> matched n) ?ns)"
    by (simp add: length_filter_sort filter_map o_def)
  also have "\<dots> = card (set (filter (\<lambda>n. v \<le> matched n) ?ns))"
    by (rule distinct_card [symmetric]) simp
  also have "set (filter (\<lambda>n. v \<le> matched n) ?ns) = {n \<in> grp. n \<in> {n. v \<le> matched n}}"
    by auto
  also have "?m < card {n \<in> grp. n \<in> {n. v \<le> matched n}} \<longleftrightarrow>
      card grp < card {n \<in> grp. n \<in> {n. v \<le> matched n}} * 2"
    by linarith
  finally show ?thesis using assms by (simp add: majority_def)
qed

text \<open>
  C12: the quorum index is exactly the highest index replicated on a quorum: an index is
  at or below it if and only if the nodes that match at least that index are a quorum. In
  joint consensus both halves have to hold it.
\<close>

theorem quorum_index_correct:
  assumes "voters c \<noteq> {} \<or> outgoing c \<noteq> {}"
  shows "v \<le> quorum_index c matched \<longleftrightarrow> has_quorum c {n. v \<le> matched n}"
proof -
  let ?Q = "{n. v \<le> matched n}"
  have V: "voters c \<noteq> {} \<Longrightarrow> \<exists>a. quorum_of (voters c) matched = Some a \<and> (v \<le> a \<longleftrightarrow> majority (voters c) ?Q)"
    using quorum_of_iff [of "voters c" v matched] by (auto simp: quorum_of_def)
  have O: "outgoing c \<noteq> {} \<Longrightarrow> \<exists>a. quorum_of (outgoing c) matched = Some a \<and> (v \<le> a \<longleftrightarrow> majority (outgoing c) ?Q)"
    using quorum_of_iff [of "outgoing c" v matched] by (auto simp: quorum_of_def)
  have N: "quorum_of {} matched = None" "majority {} ?Q"
    by (simp_all add: quorum_of_def majority_def)
  consider "voters c \<noteq> {}" "outgoing c \<noteq> {}" | "voters c \<noteq> {}" "outgoing c = {}"
    | "voters c = {}" "outgoing c \<noteq> {}" using assms by blast
  then show ?thesis
    using V O N by cases (auto simp: quorum_index_def has_quorum_def is_joint_def)
qed

theorem quorum_index_correct_witness:
  "voters (simple_config [0,1,2]) = {0,1,2} \<and>
   (8 \<le> quorum_index (simple_config [0,1,2]) (\<lambda>n. if n = 0 then 10 else if n = 1 then 8 else 3)
    \<longleftrightarrow> has_quorum (simple_config [0,1,2]) {n. 8 \<le> (if n = 0 then 10 else if n = 1 then 8 else (3 :: index))})"
proof -
  have h: "voters (simple_config [0,1,2]) \<noteq> {} \<or> outgoing (simple_config [0,1,2]) \<noteq> {}"
    by (simp add: simple_config_def)
  have v: "voters (simple_config [0,1,2]) = {0,1,2}" by (simp add: simple_config_def)
  show ?thesis by (rule conjI [OF v quorum_index_correct [OF h]])
qed

end
