(* ===== verification/Raft_Log.thy ===== *)
theory Raft_Log
  imports Raft_Types
begin

section \<open>The in-memory log (chronolog/src/log.rs)\<close>

text \<open>
  The suffix of the log after the last snapshot, with the 1-based contiguous indices of the
  source. The invariant \<open>log_wf\<close> is the one the source states on the field \<open>entries\<close>
  (\<open>entries[i].index == snapshot_index + 1 + i\<close>), together with a bound that keeps the
  64-bit index arithmetic from wrapping. Vector accesses that panic out of range are
  written with \<open>!\<close>; the lemma \<open>slot_in_range\<close> shows that they are in range.
\<close>

record raft_log =
  l_snapshot_index :: index
  l_snapshot_term :: raft_term
  l_snapshot_config :: config
  l_entries :: "entry list"

definition log_new :: raft_log where
  "log_new = \<lparr>l_snapshot_index = 0, l_snapshot_term = 0, l_snapshot_config = default_config, l_entries = []\<rparr>"

definition log_bootstrap :: "config \<Rightarrow> raft_log" where
  "log_bootstrap c = \<lparr>l_snapshot_index = 0, l_snapshot_term = 0, l_snapshot_config = c, l_entries = []\<rparr>"

definition log_restore :: "snapshot option \<Rightarrow> entry list \<Rightarrow> raft_log" where
  "log_restore snap es =
     (case snap of
        None \<Rightarrow> log_new
      | Some s \<Rightarrow> log_new\<lparr>l_snapshot_index := sn_last_index s, l_snapshot_term := sn_last_term s,
                         l_snapshot_config := sn_config s\<rparr>)\<lparr>l_entries := es\<rparr>"

definition first_index :: "raft_log \<Rightarrow> index" where
  "first_index l = l_snapshot_index l + 1"

definition last_index :: "raft_log \<Rightarrow> index" where
  "last_index l = (if l_entries l = [] then l_snapshot_index l else e_index (last (l_entries l)))"

definition last_term :: "raft_log \<Rightarrow> raft_term" where
  "last_term l = (if l_entries l = [] then l_snapshot_term l else e_term (last (l_entries l)))"

definition slot :: "raft_log \<Rightarrow> index \<Rightarrow> nat option" where
  "slot l i =
     (if i \<le> l_snapshot_index l \<or> i > last_index l then None
      else Some (unat (i - l_snapshot_index l - 1)))"

definition log_get :: "raft_log \<Rightarrow> index \<Rightarrow> entry option" where
  "log_get l i = map_option (\<lambda>k. l_entries l ! k) (slot l i)"

definition term_at :: "raft_log \<Rightarrow> index \<Rightarrow> raft_term option" where
  "term_at l i =
     (if i = 0 then Some 0
      else if i = l_snapshot_index l then Some (l_snapshot_term l)
      else map_option e_term (log_get l i))"

definition log_slice :: "raft_log \<Rightarrow> index \<Rightarrow> index \<Rightarrow> entry list" where
  "log_slice l from to =
     (case slot l (max from (first_index l)) of
        None \<Rightarrow> []
      | Some lo \<Rightarrow>
          (case if to > last_index l then Some (length (l_entries l)) else slot l to of
             None \<Rightarrow> []
           | Some hi \<Rightarrow> if lo \<ge> hi then [] else take (hi - lo) (drop lo (l_entries l))))"

definition entries_from :: "raft_log \<Rightarrow> index \<Rightarrow> entry list" where
  "entries_from l from = log_slice l from (last_index l + 1)"

definition is_up_to_date :: "raft_log \<Rightarrow> raft_term \<Rightarrow> index \<Rightarrow> bool" where
  "is_up_to_date l t i \<longleftrightarrow> t > last_term l \<or> (t = last_term l \<and> i \<ge> last_index l)"

definition log_append :: "raft_log \<Rightarrow> entry list \<Rightarrow> raft_log" where
  "log_append l es = l\<lparr>l_entries := l_entries l @ es\<rparr>"

definition truncate_from :: "raft_log \<Rightarrow> index \<Rightarrow> raft_log" where
  "truncate_from l from =
     (case slot l from of
        Some i \<Rightarrow> l\<lparr>l_entries := take i (l_entries l)\<rparr>
      | None \<Rightarrow> if from \<le> l_snapshot_index l then l\<lparr>l_entries := []\<rparr> else l)"

primrec merge_loop :: "raft_log \<Rightarrow> entry list \<Rightarrow> raft_log" where
  "merge_loop l [] = l"
| "merge_loop l (e # es) =
     (case term_at l (e_index e) of
        Some t \<Rightarrow> if t = e_term e then merge_loop l es
                  else log_append (truncate_from l (e_index e)) (e # es)
      | None \<Rightarrow> log_append l (e # es))"

definition log_merge :: "raft_log \<Rightarrow> index \<Rightarrow> entry list \<Rightarrow> index \<times> raft_log" where
  "log_merge l prev es =
     (if es = [] then (prev, l) else (e_index (last es), merge_loop l es))"

definition compact_through :: "raft_log \<Rightarrow> index \<Rightarrow> raft_term \<Rightarrow> config \<Rightarrow> raft_log" where
  "compact_through l through t c =
     (if through \<le> l_snapshot_index l then l
      else let keep_from = min through (last_index l);
               drop_count = unat (keep_from - l_snapshot_index l)
           in \<lparr>l_snapshot_index = keep_from, l_snapshot_term = t, l_snapshot_config = c,
               l_entries = drop (min drop_count (length (l_entries l))) (l_entries l)\<rparr>)"

definition install_snapshot :: "raft_log \<Rightarrow> snapshot \<Rightarrow> raft_log" where
  "install_snapshot l s =
     (if term_at l (sn_last_index s) = Some (sn_last_term s)
      then compact_through l (sn_last_index s) (sn_last_term s) (sn_config s)
      else \<lparr>l_snapshot_index = sn_last_index s, l_snapshot_term = sn_last_term s,
            l_snapshot_config = sn_config s, l_entries = []\<rparr>)"

definition apply_change :: "config \<Rightarrow> config_change \<Rightarrow> config" where
  "apply_change c ch =
     (case ch of
        EnterJoint incoming ls \<Rightarrow> \<lparr>voters = incoming, outgoing = voters c, learners = ls\<rparr>
      | LeaveJoint \<Rightarrow> c\<lparr>outgoing := {}\<rparr>)"

definition replay :: "config \<Rightarrow> entry \<Rightarrow> config" where
  "replay c e = (case e_kind e of Config ch \<Rightarrow> apply_change c ch | _ \<Rightarrow> c)"

definition log_config :: "raft_log \<Rightarrow> config" where
  "log_config l = foldl replay (l_snapshot_config l) (l_entries l)"

function find_conflict_loop :: "raft_log \<Rightarrow> raft_term \<Rightarrow> index \<Rightarrow> index" where
  "find_conflict_loop l t i =
     (if i > l_snapshot_index l then
        (case term_at l i of
           Some t' \<Rightarrow> if t' \<le> t then i else find_conflict_loop l t (i - 1)
         | None \<Rightarrow> i)
      else i)"
  by pat_completeness auto

termination
  by (relation "measure (\<lambda>(l, t, i). unat i)")
    (auto intro: unat_minus_one_less)

declare find_conflict_loop.simps [simp del]

definition find_conflict_by_term :: "raft_log \<Rightarrow> index \<Rightarrow> raft_term \<Rightarrow> index" where
  "find_conflict_by_term l i t = find_conflict_loop l t (min i (last_index l))"

subsection \<open>The invariant\<close>

primrec contiguous :: "index \<Rightarrow> entry list \<Rightarrow> bool" where
  "contiguous b [] \<longleftrightarrow> True"
| "contiguous b (e # es) \<longleftrightarrow> e_index e = b + 1 \<and> contiguous (b + 1) es"

definition fits :: "index \<Rightarrow> nat \<Rightarrow> bool" where
  "fits b n \<longleftrightarrow> unat b + n + 1 < 2 ^ 64"

definition log_wf :: "raft_log \<Rightarrow> bool" where
  "log_wf l \<longleftrightarrow> contiguous (l_snapshot_index l) (l_entries l) \<and>
     fits (l_snapshot_index l) (length (l_entries l))"

lemma fits_Suc: "fits b (Suc n) \<Longrightarrow> unat (b + 1) = unat b + 1 \<and> fits (b + 1) n"
  by (simp add: fits_def unat_plus_one)

lemma fits_mono: "fits b n \<Longrightarrow> m \<le> n \<Longrightarrow> fits b m"
  by (simp add: fits_def)

lemma contiguous_append:
  "contiguous b (xs @ ys) \<longleftrightarrow> contiguous b xs \<and> contiguous (b + word_of_nat (length xs)) ys"
  by (induction xs arbitrary: b) (simp_all add: ac_simps)

lemma contiguous_nth:
  "contiguous b es \<Longrightarrow> k < length es \<Longrightarrow> e_index (es ! k) = b + 1 + word_of_nat k"
proof (induction es arbitrary: b k)
  case (Cons e es)
  show ?case
  proof (cases k)
    case (Suc j)
    then have "e_index (es ! j) = b + 1 + 1 + word_of_nat j" using Cons.IH [of "b + 1" j] Cons.prems by simp
    with Suc show ?thesis by simp
  qed (use Cons.prems in simp)
qed simp

lemma contiguous_take: "contiguous b es \<Longrightarrow> contiguous b (take n es)"
  by (metis append_take_drop_id contiguous_append)

lemma contiguous_drop: "contiguous b es \<Longrightarrow> n \<le> length es \<Longrightarrow> contiguous (b + word_of_nat n) (drop n es)"
  by (metis append_take_drop_id contiguous_append length_take min.absorb2)

lemma contiguous_indices:
  assumes "contiguous b es" and "fits b (length es)" and "e \<in> set es"
  shows "unat b < unat (e_index e)" and "unat (e_index e) \<le> unat b + length es"
proof -
  obtain k where k: "k < length es" "e = es ! k" using assms(3) by (auto simp: in_set_conv_nth)
  have "e_index e = b + word_of_nat (Suc k)" using contiguous_nth [OF assms(1) k(1)] k(2) by simp
  then have "unat (e_index e) = unat b + Suc k"
    using assms(2) k(1) unat_plus_nat [of b "Suc k"] by (simp add: fits_def)
  then show "unat b < unat (e_index e)" and "unat (e_index e) \<le> unat b + length es"
    using k(1) by simp_all
qed

lemma contiguous_filter_less:
  assumes "contiguous b es" and "fits b (length es)"
  shows "filter (\<lambda>e. e_index e < f) es = take (unat f - unat b - 1) es"
  using assms
proof (induction es arbitrary: b)
  case (Cons e es)
  have b: "unat (b + 1) = unat b + 1" "fits (b + 1) (length es)" using Cons.prems fits_Suc by auto
  have e: "e_index e = b + 1" and es: "contiguous (b + 1) es" using Cons.prems by auto
  have IH: "filter (\<lambda>e. e_index e < f) es = take (unat f - unat b - 2) es"
    using Cons.IH [OF es b(2)] b(1) by simp
  show ?case
  proof (cases "e_index e < f")
    case True
    then have "unat f - unat b - 1 = Suc (unat f - unat b - 2)"
      using e b(1) by (simp add: word_less_nat_alt)
    then show ?thesis using True IH by simp
  next
    case False
    then have "unat f - unat b - 1 = 0" using e b(1) by (simp add: word_less_nat_alt)
    then show ?thesis using False IH by simp
  qed
qed simp

lemma contiguous_filter_ge:
  assumes "contiguous b es" and "fits b (length es)"
  shows "filter (\<lambda>e. f \<le> e_index e) es = drop (unat f - unat b - 1) es"
  using assms
proof (induction es arbitrary: b)
  case (Cons e es)
  have b: "unat (b + 1) = unat b + 1" "fits (b + 1) (length es)" using Cons.prems fits_Suc by auto
  have e: "e_index e = b + 1" and es: "contiguous (b + 1) es" using Cons.prems by auto
  have IH: "filter (\<lambda>e. f \<le> e_index e) es = drop (unat f - unat b - 2) es"
    using Cons.IH [OF es b(2)] b(1) by simp
  show ?case
  proof (cases "f \<le> e_index e")
    case True
    then have "unat f - unat b - 1 = 0" "unat f - unat b - 2 = 0"
      using e b(1) by (simp_all add: word_le_nat_alt)
    then show ?thesis using True IH by simp
  next
    case False
    then have "unat f - unat b - 1 = Suc (unat f - unat b - 2)"
      using e b(1) by (simp add: word_le_nat_alt)
    then show ?thesis using False IH by simp
  qed
qed simp

lemma contiguous_filter_le:
  assumes "contiguous b es" and "fits b (length es)"
  shows "filter (\<lambda>e. e_index e \<le> f) es = take (unat f - unat b) es"
  using assms
proof (induction es arbitrary: b)
  case (Cons e es)
  have b: "unat (b + 1) = unat b + 1" "fits (b + 1) (length es)" using Cons.prems fits_Suc by auto
  have e: "e_index e = b + 1" and es: "contiguous (b + 1) es" using Cons.prems by auto
  have IH: "filter (\<lambda>e. e_index e \<le> f) es = take (unat f - unat b - 1) es"
    using Cons.IH [OF es b(2)] b(1) by simp
  show ?case
    using IH e b(1) by (cases "unat f - unat b") (auto simp: word_le_nat_alt)
qed simp

lemma last_index_eq:
  assumes "log_wf l"
  shows "last_index l = l_snapshot_index l + word_of_nat (length (l_entries l))"
    and "unat (last_index l) = unat (l_snapshot_index l) + length (l_entries l)"
proof -
  let ?n = "length (l_entries l)"
  show 1: "last_index l = l_snapshot_index l + word_of_nat ?n"
  proof (cases "l_entries l = []")
    case False
    then obtain k where k: "?n = Suc k" by (cases ?n) auto
    have "e_index (last (l_entries l)) = l_snapshot_index l + 1 + word_of_nat k"
      using assms False k contiguous_nth [of "l_snapshot_index l" "l_entries l" k]
      by (simp add: log_wf_def last_conv_nth)
    with False k show ?thesis by (simp add: last_index_def ac_simps)
  qed (simp add: last_index_def)
  show "unat (last_index l) = unat (l_snapshot_index l) + ?n"
    using assms unfolding 1 by (intro unat_plus_nat) (simp add: log_wf_def fits_def)
qed

lemma slot_eq:
  assumes "log_wf l"
  shows "slot l i =
    (if unat (l_snapshot_index l) < unat i \<and> unat i \<le> unat (l_snapshot_index l) + length (l_entries l)
     then Some (unat i - unat (l_snapshot_index l) - 1) else None)"
proof (cases "l_snapshot_index l < i \<and> i \<le> last_index l")
  case True
  then have lt: "unat (l_snapshot_index l) < unat i" by (simp add: word_less_nat_alt)
  then have d: "unat (i - l_snapshot_index l) = unat i - unat (l_snapshot_index l)"
    by (simp add: unat_sub_if' )
  then have "i - l_snapshot_index l \<noteq> 0" using lt by auto
  then have "unat (i - l_snapshot_index l - 1) = unat i - unat (l_snapshot_index l) - 1"
    using d by (simp add: unat_minus_one)
  with True lt show ?thesis
    using last_index_eq(2) [OF assms] by (auto simp: slot_def word_le_nat_alt word_less_nat_alt)
next
  case False
  then show ?thesis
    using last_index_eq(2) [OF assms] by (auto simp: slot_def word_le_nat_alt word_less_nat_alt)
qed

lemma slot_in_range: "log_wf l \<Longrightarrow> slot l i = Some k \<Longrightarrow> k < length (l_entries l)"
  by (auto simp: slot_eq split: if_splits)

lemma log_get_eq:
  assumes "log_wf l"
  shows "log_get l i =
    (if unat (l_snapshot_index l) < unat i \<and> unat i \<le> unat (l_snapshot_index l) + length (l_entries l)
     then Some (l_entries l ! (unat i - unat (l_snapshot_index l) - 1)) else None)"
  using assms by (simp add: log_get_def slot_eq)

lemma log_get_index: "log_wf l \<Longrightarrow> log_get l i = Some e \<Longrightarrow> e_index e = i"
proof -
  assume wf: "log_wf l" and e: "log_get l i = Some e"
  let ?s = "l_snapshot_index l" and ?k = "unat i - unat (l_snapshot_index l) - 1"
  have r: "unat ?s < unat i" "unat i \<le> unat ?s + length (l_entries l)" "e = l_entries l ! ?k"
    using e wf by (auto simp: log_get_eq split: if_splits)
  have "e_index e = ?s + 1 + word_of_nat ?k"
    using r wf contiguous_nth [of ?s "l_entries l" ?k] by (simp add: log_wf_def)
  also have "\<dots> = word_of_nat (unat ?s) + word_of_nat (Suc ?k)" by simp
  also have "\<dots> = word_of_nat (unat ?s + Suc ?k)" by (simp only: of_nat_add)
  also have "unat ?s + Suc ?k = unat i" using r(1) by linarith
  finally show ?thesis by simp
qed

text \<open>
  A slice is what its comment promises for every pair of bounds, including inverted,
  empty and out-of-range ones: the entries whose index lies in the half-open interval.
\<close>

theorem log_slice_filter:
  assumes "log_wf l"
  shows "log_slice l from to = filter (\<lambda>e. from \<le> e_index e \<and> e_index e < to) (l_entries l)"
proof -
  let ?s = "unat (l_snapshot_index l)" and ?es = "l_entries l"
  have c: "contiguous (l_snapshot_index l) ?es" and f: "fits (l_snapshot_index l) (length ?es)"
    using assms by (auto simp: log_wf_def)
  have first: "unat (first_index l) = ?s + 1"
    using f by (simp add: first_index_def fits_def unat_plus_one)
  have last: "unat (last_index l) = ?s + length ?es" by (rule last_index_eq(2) [OF assms])
  let ?lo = "unat from - ?s - 1" and ?hi = "unat to - ?s - 1"
  have "filter (\<lambda>e. from \<le> e_index e \<and> e_index e < to) ?es =
      filter (\<lambda>e. e_index e < to) (filter (\<lambda>e. from \<le> e_index e) ?es)"
    by (auto intro: filter_cong)
  also have "\<dots> = filter (\<lambda>e. from \<le> e_index e) (filter (\<lambda>e. e_index e < to) ?es)"
    by (auto intro: filter_cong)
  also have "\<dots> = filter (\<lambda>e. from \<le> e_index e) (take ?hi ?es)"
    by (simp only: contiguous_filter_less [OF c f])
  also have "\<dots> = drop ?lo (take ?hi ?es)"
    by (rule contiguous_filter_ge [OF contiguous_take [OF c]]) (rule fits_mono [OF f], simp)
  also have "\<dots> = take (?hi - ?lo) (drop ?lo ?es)" by (rule drop_take)
  finally have R: "filter (\<lambda>e. from \<le> e_index e \<and> e_index e < to) ?es = take (?hi - ?lo) (drop ?lo ?es)" .
  have m: "unat (max from (first_index l)) = max (unat from) (?s + 1)"
    using first by (simp add: max_def word_le_nat_alt)
  then have lo: "slot l (max from (first_index l)) = (if unat from \<le> ?s + length ?es \<and> ?es \<noteq> [] then Some ?lo else None)"
    using assms by (cases ?es) (auto simp: slot_eq max_def)
  show ?thesis
    unfolding R log_slice_def lo using assms last
    by (auto simp: slot_eq word_less_nat_alt split: if_splits)
qed

theorem log_slice_filter_witness:
  "log_wf (log_append log_new [\<lparr>e_term = 1, e_index = 1, e_kind = Noop\<rparr>, \<lparr>e_term = 1, e_index = 2, e_kind = Noop\<rparr>]) \<and>
   log_slice (log_append log_new [\<lparr>e_term = 1, e_index = 1, e_kind = Noop\<rparr>, \<lparr>e_term = 1, e_index = 2, e_kind = Noop\<rparr>]) 2 99
     = [\<lparr>e_term = 1, e_index = 2, e_kind = Noop\<rparr>]"
proof -
  let ?l = "log_append log_new [\<lparr>e_term = 1, e_index = 1, e_kind = Noop\<rparr>, \<lparr>e_term = 1, e_index = 2, e_kind = Noop\<rparr>]"
  have wf: "log_wf ?l" by (simp add: log_wf_def fits_def log_append_def log_new_def)
  show ?thesis using wf log_slice_filter [OF wf, of 2 99]
    by (simp add: log_append_def log_new_def word_le_nat_alt word_less_nat_alt)
qed

lemma truncate_from_entries:
  assumes "log_wf l"
  shows "truncate_from l f = l\<lparr>l_entries := take (unat f - unat (l_snapshot_index l) - 1) (l_entries l)\<rparr>"
  using assms by (auto simp: truncate_from_def slot_eq word_le_nat_alt split: if_splits)

lemma truncate_from_wf: "log_wf l \<Longrightarrow> log_wf (truncate_from l f)"
  by (auto simp: truncate_from_entries log_wf_def contiguous_take elim: fits_mono)

lemma log_append_wf:
  assumes "log_wf l" and "contiguous (last_index l) es" and "fits (last_index l) (length es)"
  shows "log_wf (log_append l es)"
  using assms last_index_eq [OF assms(1)]
  by (simp add: log_wf_def log_append_def contiguous_append fits_def)

subsection \<open>Merging\<close>

text \<open>The matching prefix of the incoming entries: those the log already holds with their term.\<close>

definition matching :: "raft_log \<Rightarrow> entry list \<Rightarrow> nat" where
  "matching l es = length (takeWhile (\<lambda>e. term_at l (e_index e) = Some (e_term e)) es)"

lemma matching_le: "matching l es \<le> length es"
  unfolding matching_def by (rule length_takeWhile_le)

lemma matching_Cons:
  "matching l (e # es) = (if term_at l (e_index e) = Some (e_term e) then Suc (matching l es) else 0)"
  by (simp add: matching_def)

lemma term_at_above:
  assumes "log_wf l" and "unat (l_snapshot_index l) < unat i"
  shows "term_at l i = map_option e_term (log_get l i)"
  using assms by (auto simp: term_at_def)

text \<open>
  The loop in closed form: nothing changes when every entry matches, otherwise the log is
  cut just before the first entry that does not match and the rest is appended there.
\<close>

lemma merge_loop_eq:
  assumes "log_wf l" and "contiguous p es" and "fits p (length es)"
    and "unat (l_snapshot_index l) \<le> unat p"
    and "unat p \<le> unat (l_snapshot_index l) + length (l_entries l)"
  shows "unat p + matching l es \<le> unat (l_snapshot_index l) + length (l_entries l) \<and>
    merge_loop l es =
      (if matching l es = length es then l
       else l\<lparr>l_entries := take (unat p + matching l es - unat (l_snapshot_index l)) (l_entries l) @
                          drop (matching l es) es\<rparr>)"
  using assms(2-5)
proof (induction es arbitrary: p)
  case Nil
  then show ?case by (simp add: matching_def)
next
  case (Cons e es)
  let ?s = "unat (l_snapshot_index l)" and ?n = "length (l_entries l)"
  have e: "e_index e = p + 1" and es: "contiguous (p + 1) es"
    and p: "unat (p + 1) = unat p + 1" "fits (p + 1) (length es)"
    using Cons.prems fits_Suc by auto
  have t: "term_at l (e_index e) = map_option e_term (log_get l (e_index e))"
    by (rule term_at_above [OF assms(1)]) (use e p Cons.prems in simp)
  show ?case
  proof (cases "unat p < ?s + ?n")
    case True
    then obtain x where x: "term_at l (e_index e) = Some x"
      using t e p Cons.prems(3) assms(1) by (auto simp: log_get_eq)
    show ?thesis
    proof (cases "x = e_term e")
      case True
      then show ?thesis
        using Cons.IH [OF es p(2)] x p Cons.prems(3) \<open>unat p < ?s + ?n\<close> by (simp add: matching_Cons)
    next
      case False
      then show ?thesis
        using x e p Cons.prems(4)
        by (simp add: matching_Cons truncate_from_entries [OF assms(1)] log_append_def)
    qed
  next
    case False
    then have "unat p = ?s + ?n" using Cons.prems(4) by simp
    moreover from this have "term_at l (e_index e) = None"
      using t e p assms(1) by (simp add: log_get_eq)
    ultimately show ?thesis by (simp add: matching_Cons log_append_def)
  qed
qed

lemma word_add_offset:
  assumes "unat s \<le> n"
  shows "s + word_of_nat (n - unat s) = word_of_nat n"
proof -
  have "s + word_of_nat (n - unat s) = word_of_nat (unat s) + word_of_nat (n - unat s)" by simp
  also have "\<dots> = word_of_nat (unat s + (n - unat s))" by (simp only: of_nat_add)
  finally show ?thesis using assms by simp
qed

text \<open>What an \<open>AppendEntries\<close> that passed the consistency check guarantees of a merge.\<close>

definition merge_pre :: "raft_log \<Rightarrow> index \<Rightarrow> entry list \<Rightarrow> bool" where
  "merge_pre l p es \<longleftrightarrow> log_wf l \<and> contiguous p es \<and> fits p (length es) \<and>
     l_snapshot_index l \<le> p \<and> p \<le> last_index l"

lemma merge_preD:
  assumes "merge_pre l p es"
  shows "log_wf l" "contiguous p es" "fits p (length es)" "unat (l_snapshot_index l) \<le> unat p"
    "unat p \<le> unat (l_snapshot_index l) + length (l_entries l)"
  using assms last_index_eq(2) [of l] by (auto simp: merge_pre_def word_le_nat_alt)

lemma merge_loop_cut:
  assumes "merge_pre l p es"
  obtains "matching l es = length es" "merge_loop l es = l"
  | k where "k < length es" "k = matching l es"
      "unat p + k \<le> unat (l_snapshot_index l) + length (l_entries l)"
      "merge_loop l es = l\<lparr>l_entries :=
         take (unat p + k - unat (l_snapshot_index l)) (l_entries l) @ drop k es\<rparr>"
  using merge_loop_eq [OF merge_preD [OF assms]] matching_le [of l es]
  by (cases "matching l es = length es") auto

lemma merge_loop_wf:
  assumes "merge_pre l p es"
  shows "log_wf (merge_loop l es)"
  using assms
proof (cases rule: merge_loop_cut)
  case 1
  then show ?thesis using merge_preD(1) [OF assms] by simp
next
  case (2 k)
  note pre = merge_preD [OF assms]
  let ?s = "l_snapshot_index l" and ?m = "unat p + k - unat (l_snapshot_index l)"
  have "?s + word_of_nat ?m = p + word_of_nat k"
    using pre(4) word_add_offset [of ?s "unat p + k"] by simp
  moreover have "contiguous (p + word_of_nat k) (drop k es)"
    using pre(2) 2(1) by (intro contiguous_drop) auto
  moreover have "length (take ?m (l_entries l)) = ?m" using 2(3) by simp
  ultimately have "contiguous ?s (take ?m (l_entries l) @ drop k es)"
    using pre(1) 2(3) by (auto simp: contiguous_append contiguous_take log_wf_def)
  moreover have "unat ?s + length (take ?m (l_entries l) @ drop k es) = unat p + length es"
    using 2 pre(4) by simp
  ultimately show ?thesis using pre(3) 2(4) by (simp add: log_wf_def fits_def)
qed

lemma merge_loop_snapshot [simp]:
  "l_snapshot_index (merge_loop l es) = l_snapshot_index l"
  "l_snapshot_term (merge_loop l es) = l_snapshot_term l"
  "l_snapshot_config (merge_loop l es) = l_snapshot_config l"
  by (induction es)
    (auto simp: log_append_def truncate_from_def split: option.split)

text \<open>Everything up to the first entry that does not match stays as it was.\<close>

lemma merge_loop_below:
  assumes "merge_pre l p es" and "unat i \<le> unat p + matching l es"
  shows "log_get (merge_loop l es) i = log_get l i"
  using assms(1)
proof (cases rule: merge_loop_cut)
  case (2 k)
  note wf = merge_loop_wf [OF assms(1)] and pre = merge_preD [OF assms(1)]
  let ?s = "unat (l_snapshot_index l)"
  show ?thesis
    using assms(2) 2 pre(4) log_get_eq [OF wf, of i] log_get_eq [OF pre(1), of i]
    by (auto simp: nth_append)
qed simp

lemma merge_loop_new:
  assumes "merge_pre l p es" and "j < length es" and "matching l es \<le> j"
  shows "log_get (merge_loop l es) (e_index (es ! j)) = Some (es ! j)"
  using assms(1)
proof (cases rule: merge_loop_cut)
  case (2 k)
  note wf = merge_loop_wf [OF assms(1)] and pre = merge_preD [OF assms(1)]
  let ?s = "unat (l_snapshot_index l)" and ?i = "unat (e_index (es ! j))"
  let ?new = "take (unat p + k - ?s) (l_entries l) @ drop k es"
  have "e_index (es ! j) = p + word_of_nat (Suc j)" using contiguous_nth [OF pre(2) assms(2)] by simp
  then have i: "?i = unat p + Suc j"
    using pre(3) assms(2) unat_plus_nat [of p "Suc j"] by (simp add: fits_def)
  have len: "length (take (unat p + k - ?s) (l_entries l)) = unat p + k - ?s" using 2(3) by simp
  have "?i - ?s - 1 = (unat p + k - ?s) + (j - k)" using i pre(4) assms(3) 2(2) by simp
  then have "?new ! (?i - ?s - 1) = drop k es ! (j - k)"
    using nth_append_length_plus [of "take (unat p + k - ?s) (l_entries l)" "drop k es" "j - k"]
    by (simp only: len)
  also have "\<dots> = es ! j" using assms(3) 2(1,2) by simp
  finally have "?new ! (?i - ?s - 1) = es ! j" .
  moreover have "?s < ?i" and "?i \<le> ?s + length ?new" using i len pre(4) assms(2) 2(1,2) by auto
  ultimately show ?thesis
    using log_get_eq [OF wf, of "e_index (es ! j)"] by (simp add: 2(4))
qed (use assms in simp)

lemma merge_loop_terms:
  assumes "merge_pre l p es" and "e \<in> set es"
  shows "term_at (merge_loop l es) (e_index e) = Some (e_term e)"
proof -
  note wf = merge_loop_wf [OF assms(1)] and pre = merge_preD [OF assms(1)]
  obtain j where j: "j < length es" "e = es ! j" using assms(2) by (auto simp: in_set_conv_nth)
  have above: "unat (l_snapshot_index l) < unat (e_index e)"
    using contiguous_indices(1) [OF pre(2,3) assms(2)] pre(4) by simp
  have "e_index e = p + word_of_nat (Suc j)" using contiguous_nth [OF pre(2) j(1)] j(2) by simp
  then have i: "unat (e_index e) = unat p + Suc j"
    using pre(3) j(1) unat_plus_nat [of p "Suc j"] by (simp add: fits_def)
  show ?thesis
  proof (cases "matching l es \<le> j")
    case True
    then show ?thesis
      using merge_loop_new [OF assms(1) j(1)] j(2) term_at_above [OF wf] above by simp
  next
    case False
    then have "j < length (takeWhile (\<lambda>e. term_at l (e_index e) = Some (e_term e)) es)"
      by (simp add: matching_def)
    then have "term_at l (e_index e) = Some (e_term e)"
      using j(2) nth_mem set_takeWhileD takeWhile_nth by fastforce
    moreover have "log_get (merge_loop l es) (e_index e) = log_get l (e_index e)"
      using False i by (intro merge_loop_below [OF assms(1)]) simp
    ultimately show ?thesis using term_at_above [OF wf] term_at_above [OF pre(1)] above by simp
  qed
qed

lemma merge_last:
  assumes "merge_pre l p es"
  shows "fst (log_merge l p es) = p + word_of_nat (length es)"
proof (cases es rule: rev_cases)
  case (snoc ys y)
  then show ?thesis using merge_preD(2) [OF assms] by (simp add: log_merge_def contiguous_append)
qed (simp add: log_merge_def)

lemma snd_log_merge [simp]: "snd (log_merge l p es) = merge_loop l es"
  by (simp add: log_merge_def)

lemma merge_last_le:
  assumes "merge_pre l p es"
  shows "fst (log_merge l p es) \<le> last_index (merge_loop l es)"
proof (cases es rule: rev_cases)
  case Nil
  then show ?thesis using assms by (simp add: log_merge_def merge_pre_def)
next
  case (snoc ys y)
  note wf = merge_loop_wf [OF assms] and pre = merge_preD [OF assms]
  have y: "y \<in> set es" using snoc by simp
  have above: "unat (l_snapshot_index (merge_loop l es)) < unat (e_index y)"
    using contiguous_indices(1) [OF pre(2,3) y] pre(4) by simp
  from merge_loop_terms [OF assms y] have "log_get (merge_loop l es) (e_index y) \<noteq> None"
    using term_at_above [OF wf above] by auto
  then have "unat (e_index y) \<le> unat (last_index (merge_loop l es))"
    using log_get_eq [OF wf] last_index_eq(2) [OF wf] by (auto split: if_splits)
  then show ?thesis using snoc by (simp add: log_merge_def word_le_nat_alt)
qed

text \<open>The first of the incoming entries that the log does not already hold.\<close>

definition first_new :: "raft_log \<Rightarrow> entry list \<Rightarrow> entry option" where
  "first_new l es = List.find (\<lambda>e. term_at l (e_index e) \<noteq> Some (e_term e)) es"

lemma takeWhile_full: "length (takeWhile P xs) = length xs \<longleftrightarrow> (\<forall>x\<in>set xs. P x)"
  by (induction xs) auto

lemma find_takeWhile:
  "length (takeWhile P xs) < length xs \<Longrightarrow> List.find (\<lambda>x. \<not> P x) xs = Some (xs ! length (takeWhile P xs))"
  by (induction xs) auto

lemma first_new_None: "first_new l es = None \<longleftrightarrow> matching l es = length es"
  by (auto simp: first_new_def find_None_iff matching_def takeWhile_full)

lemma first_new_Some:
  assumes "first_new l es = Some e"
  shows "matching l es < length es" and "e = es ! matching l es"
proof -
  show less: "matching l es < length es"
    using assms first_new_None [of l es] matching_le [of l es] by (cases "matching l es = length es") auto
  from find_takeWhile [OF less [unfolded matching_def]] assms
  show "e = es ! matching l es" by (simp add: first_new_def matching_def)
qed

lemma merge_index:
  assumes "merge_pre l p es" and "j < length es"
  shows "unat (e_index (es ! j)) = unat p + Suc j"
proof -
  note pre = merge_preD [OF assms(1)]
  have "e_index (es ! j) = p + word_of_nat (Suc j)" using contiguous_nth [OF pre(2) assms(2)] by simp
  then show ?thesis using pre(3) assms(2) unat_plus_nat [of p "Suc j"] by (simp add: fits_def)
qed

lemma merge_loop_end:
  assumes "merge_pre l p es" and "matching l es < length es" and "unat p + length es < unat i"
  shows "log_get (merge_loop l es) i = None"
  using assms(1)
proof (cases rule: merge_loop_cut)
  case (2 k)
  note wf = merge_loop_wf [OF assms(1)] and pre = merge_preD [OF assms(1)]
  have "length (l_entries (merge_loop l es)) = unat p + length es - unat (l_snapshot_index l)"
    using 2 pre(4) by simp
  then show ?thesis using assms(3) pre(4) log_get_eq [OF wf, of i] by simp
qed (use assms in simp)

lemma merge_find:
  assumes "merge_pre l p es"
  shows "j < length es \<Longrightarrow> List.find (\<lambda>x. e_index x = e_index (es ! j)) es = Some (es ! j)"
    and "unat p + length es < unat i \<Longrightarrow> List.find (\<lambda>x. e_index x = i) es = None"
proof -
  show "List.find (\<lambda>x. e_index x = i) es = None" if "unat p + length es < unat i"
    using that merge_index [OF assms] by (fastforce simp: find_None_iff in_set_conv_nth)
  assume j: "j < length es"
  have "e_index (es ! k) \<noteq> e_index (es ! j)" if "k < j" for k
    using merge_index [OF assms, of k] merge_index [OF assms j] that j by (metis add_left_imp_eq less_irrefl less_trans nat.inject)
  with j show "List.find (\<lambda>x. e_index x = e_index (es ! j)) es = Some (es ! j)"
    by (auto simp: find_Some_iff)
qed

lemma merge_loop_get:
  assumes "merge_pre l p es" and "first_new l es = Some e"
  shows "log_get (merge_loop l es) i = (if i < e_index e then log_get l i else List.find (\<lambda>x. e_index x = i) es)"
proof -
  let ?k = "matching l es"
  note k = first_new_Some [OF assms(2)]
  have e: "unat (e_index e) = unat p + Suc ?k" using merge_index [OF assms(1) k(1)] k(2) by simp
  consider "unat i \<le> unat p + ?k" | "unat p + length es < unat i"
    | (sent) "unat p + ?k < unat i" "unat i \<le> unat p + length es" by linarith
  then show ?thesis
  proof cases
    case sent
    define j where "j = unat i - unat p - 1"
    have j: "j < length es" "?k \<le> j" "unat i = unat p + Suc j" using sent by (auto simp: j_def)
    then have "e_index (es ! j) = i" using merge_index [OF assms(1) j(1)] by (simp add: word_unat_eq_iff)
    then show ?thesis
      using merge_loop_new [OF assms(1) j(1,2)] merge_find(1) [OF assms(1) j(1)] sent(1) e by (simp add: word_less_nat_alt)
  qed (use e merge_loop_below [OF assms(1), of i] merge_loop_end [OF assms(1) k(1), of i] merge_find(2) [OF assms(1), of i] k(1)
    in \<open>auto simp: word_less_nat_alt\<close>)
qed

text \<open>
  C4: what a merge does, at every index. If every entry sent is already held, with its term,
  the log is left exactly as it is. Otherwise everything below the first entry that is not
  held is kept, and from that index on the log holds exactly the entries sent, whole, and
  nothing beyond the last of them. The log stays well-formed, and the index reported is the
  last one the message covers, which is held.
\<close>

theorem merge_correct:
  assumes "merge_pre l p es"
  shows "(case first_new l es of
      None \<Rightarrow> snd (log_merge l p es) = l
    | Some e \<Rightarrow> \<forall>i. log_get (snd (log_merge l p es)) i =
        (if i < e_index e then log_get l i else List.find (\<lambda>x. e_index x = i) es)) \<and>
    log_wf (snd (log_merge l p es)) \<and>
    fst (log_merge l p es) = p + word_of_nat (length es) \<and>
    fst (log_merge l p es) \<le> last_index (snd (log_merge l p es))"
  using merge_loop_wf [OF assms] merge_last [OF assms] merge_last_le [OF assms] merge_loop_get [OF assms]
    merge_loop_eq [OF merge_preD [OF assms]]
  by (auto simp: first_new_None split: option.split)

abbreviation noop_at :: "raft_term \<Rightarrow> index \<Rightarrow> entry" where
  "noop_at t i \<equiv> \<lparr>e_term = t, e_index = i, e_kind = Noop\<rparr>"

text \<open>The log of the tests: terms 1, 1, 1, 1 at indices 1 to 4.\<close>

definition four_ones :: raft_log where
  "four_ones = log_append log_new [noop_at 1 1, noop_at 1 2, noop_at 1 3, noop_at 1 4]"

lemma four_ones_pre:
  "merge_pre four_ones 1 [noop_at 1 2, noop_at 1 3, noop_at 2 4]"
  "merge_pre four_ones 1 [noop_at 1 2, noop_at 1 3]"
  "merge_pre four_ones 1 [noop_at 1 2, noop_at 2 3]"
  by (simp_all add: merge_pre_def four_ones_def log_append_def log_new_def log_wf_def fits_def
    last_index_def word_le_nat_alt)

theorem merge_correct_witness:
  "merge_pre four_ones 1 [noop_at 1 2, noop_at 2 3] \<and>
   map (log_get (snd (log_merge four_ones 1 [noop_at 1 2, noop_at 2 3]))) [1, 2, 3, 4] =
     [Some (noop_at 1 1), Some (noop_at 1 2), Some (noop_at 2 3), None]"
proof -
  have "first_new four_ones [noop_at 1 2, noop_at 2 3] = Some (noop_at 2 3)" by code_simp
  moreover have "log_get four_ones 1 = Some (noop_at 1 1)" "log_get four_ones 2 = Some (noop_at 1 2)" by code_simp+
  ultimately show ?thesis
    using four_ones_pre(3) merge_correct [OF four_ones_pre(3)] by (simp add: word_less_nat_alt)
qed



subsection \<open>Compaction and snapshots\<close>

lemma compact_through_entries:
  assumes "log_wf l" and "l_snapshot_index l < through"
  shows "compact_through l through t c =
    \<lparr>l_snapshot_index = min through (last_index l), l_snapshot_term = t, l_snapshot_config = c,
     l_entries = drop (unat through - unat (l_snapshot_index l)) (l_entries l)\<rparr>"
proof -
  let ?s = "l_snapshot_index l" and ?k = "min through (last_index l)"
  have last: "unat (last_index l) = unat ?s + length (l_entries l)" by (rule last_index_eq(2) [OF assms(1)])
  have k: "unat ?k = min (unat through) (unat ?s + length (l_entries l))"
    using last by (simp add: min_def word_le_nat_alt)
  moreover have "unat ?s < unat through" using assms(2) by (simp add: word_less_nat_alt)
  ultimately have "unat ?s \<le> unat ?k" by simp
  then have "unat (?k - ?s) = unat ?k - unat ?s" by (simp add: unat_sub_if')
  then have "drop (min (unat (?k - ?s)) (length (l_entries l))) (l_entries l) =
      drop (unat through - unat ?s) (l_entries l)"
    unfolding k by (cases "unat through \<le> unat ?s + length (l_entries l)") auto
  then show ?thesis using assms(2) by (simp add: compact_through_def Let_def)
qed

lemma compact_through_wf:
  assumes "log_wf l"
  shows "log_wf (compact_through l through t c)"
proof (cases "l_snapshot_index l < through")
  case True
  let ?s = "l_snapshot_index l" and ?n = "length (l_entries l)"
  have last: "last_index l = ?s + word_of_nat ?n" "unat (last_index l) = unat ?s + ?n"
    using last_index_eq [OF assms] by auto
  have lt: "unat ?s < unat through" using True by (simp add: word_less_nat_alt)
  show ?thesis
  proof (cases "through \<le> last_index l")
    case True
    then have n: "unat through - unat ?s \<le> ?n" using last(2) by (simp add: word_le_nat_alt)
    have "?s + word_of_nat (unat through - unat ?s) = through" using word_add_offset [of ?s "unat through"] lt by simp
    then show ?thesis
      using assms True \<open>?s < through\<close> lt n contiguous_drop [of ?s "l_entries l" "unat through - unat ?s"]
      by (simp add: compact_through_entries log_wf_def fits_def)
  next
    case False
    then have "drop (unat through - unat ?s) (l_entries l) = []" using last(2) by (simp add: word_le_nat_alt)
    moreover have "min through (last_index l) = last_index l" using False by simp
    ultimately show ?thesis
      using assms True last(2) by (simp add: compact_through_entries log_wf_def fits_def)
  qed
qed (use assms in \<open>simp add: compact_through_def not_less\<close>)

lemma compact_last_index:
  assumes "log_wf l" and "through \<le> last_index l"
  shows "last_index (compact_through l through t c) = last_index l"
proof (cases "l_snapshot_index l < through")
  case True
  let ?l' = "compact_through l through t c"
  have "unat (last_index ?l') = unat (last_index l)"
    using last_index_eq(2) [OF compact_through_wf [OF assms(1)], of through t c]
      last_index_eq(2) [OF assms(1)] assms True
    by (simp add: compact_through_entries word_le_nat_alt word_less_nat_alt)
  then show ?thesis by (simp add: word_unat_eq_iff)
qed (simp add: compact_through_def not_less)

lemma compact_get:
  assumes "log_wf l" and "through \<le> last_index l" and "through < i"
  shows "log_get (compact_through l through t c) i = log_get l i"
proof (cases "l_snapshot_index l < through")
  case True
  then show ?thesis
    using log_get_eq [OF compact_through_wf [OF assms(1)], of through t c i]
      log_get_eq [OF assms(1), of i] last_index_eq(2) [OF assms(1)] assms
    by (auto simp: compact_through_entries word_le_nat_alt word_less_nat_alt)
qed (simp add: compact_through_def not_less)

lemma compact_config:
  assumes "log_wf l" and "l_snapshot_index l < through"
    and "c = foldl replay (l_snapshot_config l) (filter (\<lambda>e. e_index e \<le> through) (l_entries l))"
  shows "log_config (compact_through l through t c) = log_config l"
proof -
  let ?s = "l_snapshot_index l" and ?n = "unat through - unat (l_snapshot_index l)"
  have c: "contiguous ?s (l_entries l)" and f: "fits ?s (length (l_entries l))"
    using assms(1) by (auto simp: log_wf_def)
  have "filter (\<lambda>e. e_index e \<le> through) (l_entries l) = take ?n (l_entries l)"
    by (rule contiguous_filter_le [OF c f])
  then have "log_config (compact_through l through t c) =
      foldl replay (foldl replay (l_snapshot_config l) (take ?n (l_entries l))) (drop ?n (l_entries l))"
    using assms by (simp add: log_config_def compact_through_entries)
  also have "\<dots> = log_config l"
    by (simp only: log_config_def foldl_append [symmetric] append_take_drop_id)
  finally show ?thesis .
qed

text \<open>
  C28: compacting through an index the log holds, with that entry's term, changes nothing a
  reader above the index can see: the last index, the entries and their terms, the boundary
  term included. When the configuration handed over is the one as of that index, the
  configuration of the log is unchanged too.
\<close>

theorem compaction_correct:
  assumes "log_wf l" and "l_snapshot_index l < through" and "through \<le> last_index l"
    and "term_at l through = Some t"
  shows "log_wf (compact_through l through t c) \<and>
    last_index (compact_through l through t c) = last_index l \<and>
    (\<forall>i>through. log_get (compact_through l through t c) i = log_get l i) \<and>
    (\<forall>i\<ge>through. term_at (compact_through l through t c) i = term_at l i) \<and>
    (c = foldl replay (l_snapshot_config l) (filter (\<lambda>e. e_index e \<le> through) (l_entries l)) \<longrightarrow>
       log_config (compact_through l through t c) = log_config l)"
proof -
  have snap: "l_snapshot_index (compact_through l through t c) = through"
    "l_snapshot_term (compact_through l through t c) = t"
    using assms(1-3) by (simp_all add: compact_through_entries)
  have "term_at (compact_through l through t c) i = term_at l i" if "through \<le> i" for i
  proof (cases "i = through")
    case True
    then show ?thesis using assms(4) snap by (auto simp: term_at_def split: if_splits)
  next
    case False
    then have "through < i" "i \<noteq> l_snapshot_index l" "i \<noteq> 0"
      using that assms(2) by auto
    then show ?thesis using compact_get [OF assms(1,3)] snap False by (simp add: term_at_def)
  qed
  then show ?thesis
    using compact_through_wf [OF assms(1)] compact_last_index [OF assms(1,3)]
      compact_get [OF assms(1,3)] compact_config [OF assms(1,2)] by simp
qed

theorem compaction_correct_witness:
  "last_index (compact_through four_ones 3 1 default_config) = 4 \<and>
   term_at (compact_through four_ones 3 1 default_config) 3 = Some 1"
proof -
  have "log_wf four_ones" using four_ones_pre(1) by (simp add: merge_pre_def)
  moreover have "l_snapshot_index four_ones < 3" by code_simp
  moreover have "3 \<le> last_index four_ones" by code_simp
  moreover have "term_at four_ones 3 = Some 1" by code_simp
  moreover have "last_index four_ones = 4" by code_simp
  ultimately show ?thesis using compaction_correct [of four_ones 3 1 default_config] by simp
qed

lemma install_snapshot_wf:
  assumes "log_wf l" and "unat (sn_last_index s) + 1 < 2 ^ 64"
  shows "log_wf (install_snapshot l s)"
  using assms compact_through_wf by (simp add: install_snapshot_def log_wf_def fits_def)

lemma term_at_last: "log_wf l \<Longrightarrow> term_at l i = Some t \<Longrightarrow> i \<le> last_index l"
  using last_index_eq(2) [of l]
  by (auto simp: term_at_def log_get_eq word_le_nat_alt split: if_splits)

text \<open>
  C29: installing a snapshot leaves its last index present with its last term. Entries
  above it survive exactly when the log already agreed with the snapshot at its last
  index; otherwise the snapshot is the whole log and its configuration is in force.
\<close>

theorem install_snapshot_correct:
  assumes "log_wf l" and "l_snapshot_index l < sn_last_index s" and "unat (sn_last_index s) + 1 < 2 ^ 64"
  shows "log_wf (install_snapshot l s) \<and>
    l_snapshot_index (install_snapshot l s) = sn_last_index s \<and>
    term_at (install_snapshot l s) (sn_last_index s) = Some (sn_last_term s) \<and>
    (if term_at l (sn_last_index s) = Some (sn_last_term s)
     then last_index (install_snapshot l s) = last_index l \<and>
       (\<forall>i>sn_last_index s. log_get (install_snapshot l s) i = log_get l i)
     else last_index (install_snapshot l s) = sn_last_index s \<and> l_entries (install_snapshot l s) = [] \<and>
       log_config (install_snapshot l s) = sn_config s)"
proof -
  have nz: "sn_last_index s \<noteq> 0" using assms(2) by auto
  note wf = install_snapshot_wf [OF assms(1,3)]
  show ?thesis
  proof (cases "term_at l (sn_last_index s) = Some (sn_last_term s)")
    case True
    then have le: "sn_last_index s \<le> last_index l" by (rule term_at_last [OF assms(1)])
    have i: "install_snapshot l s = compact_through l (sn_last_index s) (sn_last_term s) (sn_config s)"
      using True by (simp add: install_snapshot_def)
    have "l_snapshot_index (install_snapshot l s) = sn_last_index s"
      "l_snapshot_term (install_snapshot l s) = sn_last_term s"
      using assms(1,2) le by (simp_all add: i compact_through_entries)
    then have "l_snapshot_index (install_snapshot l s) = sn_last_index s \<and>
        term_at (install_snapshot l s) (sn_last_index s) = Some (sn_last_term s)"
      using nz by (simp add: term_at_def)
    then show ?thesis
      using True wf compact_get [OF assms(1) le] compact_last_index [OF assms(1) le] by (simp add: i)
  next
    case False
    then have i: "install_snapshot l s = \<lparr>l_snapshot_index = sn_last_index s,
        l_snapshot_term = sn_last_term s, l_snapshot_config = sn_config s, l_entries = []\<rparr>"
      by (simp add: install_snapshot_def)
    have "term_at (install_snapshot l s) (sn_last_index s) = Some (sn_last_term s)"
      using nz by (simp add: i term_at_def)
    then show ?thesis using False wf by (simp add: i last_index_def log_config_def)
  qed
qed

theorem install_snapshot_correct_witness:
  "last_index (install_snapshot four_ones \<lparr>sn_last_index = 9, sn_last_term = 4, sn_config = default_config, sn_data = []\<rparr>) = 9"
proof -
  let ?s = "\<lparr>sn_last_index = 9, sn_last_term = 4, sn_config = default_config, sn_data = []\<rparr>"
  have "log_wf four_ones" using four_ones_pre(1) by (simp add: merge_pre_def)
  moreover have "l_snapshot_index four_ones < sn_last_index ?s" by code_simp
  moreover have "term_at four_ones 9 \<noteq> Some 4" by code_simp
  ultimately show ?thesis using install_snapshot_correct [of four_ones ?s] by simp
qed

subsection \<open>Membership changes\<close>

lemma majority_meets_has_quorum:
  assumes "grp \<noteq> {}" and "majority grp A" and "has_quorum c B" and "grp = voters c \<or> grp = outgoing c"
  shows "A \<inter> B \<noteq> {}"
proof -
  have "majority grp B" using assms(1,3,4) by (auto simp: has_quorum_def is_joint_def majority_def split: if_splits)
  then show ?thesis using majority_meets [OF assms(1,2)] by blast
qed

text \<open>
  C13: one membership step at a time is safe. Every quorum of a configuration that is not
  joint meets every quorum of the joint configuration entered from it, and every quorum of
  a joint configuration meets every quorum of the configuration left to, so two leaders
  counting under adjacent configurations share a voter.
\<close>

theorem adjacent_quorums_meet:
  assumes "has_quorum c A" and "has_quorum (apply_change c ch) B"
    and "case ch of EnterJoint i ls \<Rightarrow> \<not> is_joint c | LeaveJoint \<Rightarrow> voters c \<noteq> {}"
  shows "A \<inter> B \<noteq> {}"
proof (cases ch)
  case (EnterJoint i ls)
  then have j: "outgoing c = {}" and o: "outgoing (apply_change c ch) = voters c"
    using assms(3) by (auto simp: is_joint_def apply_change_def)
  then have "voters c \<noteq> {}" and "majority (voters c) A"
    using assms(1) by (auto simp: has_quorum_def split: if_splits)
  then show ?thesis using majority_meets_has_quorum [OF _ _ assms(2)] o by blast
next
  case LeaveJoint
  then have "voters (apply_change c ch) = voters c" by (simp add: apply_change_def)
  moreover have "voters c \<noteq> {}" "majority (voters c) A"
    using assms(1,3) LeaveJoint by (auto simp: has_quorum_def)
  ultimately show ?thesis using majority_meets_has_quorum [OF _ _ assms(2)] by metis
qed

theorem adjacent_quorums_meet_witness:
  "{0, 1} \<inter> {1, 2, 3} \<noteq> ({} :: node_id set)"
proof -
  have a: "has_quorum (simple_config [0,1,2]) {0,1}" by code_simp
  have b: "has_quorum (apply_change (simple_config [0,1,2]) (EnterJoint {2,3,4} {})) {1,2,3}" by code_simp
  show ?thesis by (rule adjacent_quorums_meet [OF a b]) (simp add: is_joint_def simple_config_def)
qed

lemma log_config_append: "log_config (log_append l es) = foldl replay (log_config l) es"
  by (simp add: log_config_def log_append_def)

text \<open>
  C30: rolling the log back rolls the configuration back. Truncating at the index of the
  first of some appended entries restores the configuration from before the append,
  whatever membership changes they held.
\<close>

theorem truncation_unapplies_config:
  assumes "log_wf l" and "contiguous (last_index l) es" and "fits (last_index l) (length es)"
  shows "log_config (truncate_from (log_append l es) (last_index l + 1)) = log_config l"
proof -
  have wf: "log_wf (log_append l es)" by (rule log_append_wf [OF assms])
  have up: "unat (last_index l + 1) = unat (last_index l) + 1"
    using assms(3) by (simp add: fits_def unat_plus_one)
  have "l_entries (truncate_from (log_append l es) (last_index l + 1)) = l_entries l"
    using up last_index_eq(2) [OF assms(1)]
    by (simp add: truncate_from_entries [OF wf]) (simp add: log_append_def)
  then show ?thesis by (simp add: log_config_def truncate_from_entries [OF wf]) (simp add: log_append_def)
qed

theorem truncation_unapplies_config_witness:
  "log_config (truncate_from (log_append (log_bootstrap (simple_config [0,1,2]))
     [\<lparr>e_term = 1, e_index = 1, e_kind = Config (EnterJoint {2,3,4} {})\<rparr>]) (last_index (log_bootstrap (simple_config [0,1,2])) + 1))
   = log_config (log_bootstrap (simple_config [0,1,2]))"
  by (rule truncation_unapplies_config)
    (simp_all add: log_wf_def fits_def log_bootstrap_def last_index_def)

subsection \<open>The conflict search\<close>

definition conflict_spec :: "raft_log \<Rightarrow> raft_term \<Rightarrow> index \<Rightarrow> index \<Rightarrow> bool" where
  "conflict_spec l t i r \<longleftrightarrow> r \<le> i \<and>
     (\<forall>j>r. j \<le> i \<longrightarrow> (\<exists>x>t. term_at l j = Some x)) \<and>
     (l_snapshot_index l < r \<longrightarrow> (\<exists>x\<le>t. term_at l r = Some x)) \<and>
     (l_snapshot_index l \<le> i \<longrightarrow> l_snapshot_index l \<le> r)"

lemma find_conflict_loop_spec:
  "log_wf l \<Longrightarrow> i \<le> last_index l \<Longrightarrow> conflict_spec l t i (find_conflict_loop l t i)"
proof (induction l t i rule: find_conflict_loop.induct)
  case (1 l t i)
  show ?case
  proof (cases "l_snapshot_index l < i")
    case False
    then show ?thesis by (auto simp: conflict_spec_def find_conflict_loop.simps [of l t i])
  next
    case True
    then have "log_get l i \<noteq> None"
      using 1(2,3) last_index_eq(2) [of l] by (simp add: log_get_eq word_le_nat_alt word_less_nat_alt)
    then obtain x where x: "term_at l i = Some x"
      using term_at_above [OF 1(2), of i] True by (auto simp: word_less_nat_alt)
    show ?thesis
    proof (cases "x \<le> t")
      case True
      then show ?thesis
        using x by (auto simp: conflict_spec_def find_conflict_loop.simps [of l t i] \<open>l_snapshot_index l < i\<close>)
    next
      case False
      have dec: "unat (i - 1) = unat i - 1" using True by (intro unat_minus_one) auto
      have le: "i - 1 \<le> i" "l_snapshot_index l \<le> i - 1"
        using True dec by (auto simp: word_le_nat_alt word_less_nat_alt)
      have IH: "conflict_spec l t (i - 1) (find_conflict_loop l t (i - 1))"
        using 1(1) [OF True x False 1(2)] 1(3) le(1) by (meson order_trans)
      have pred: "j \<le> i - 1" if "j \<le> i" "j \<noteq> i" for j
      proof -
        have "unat j < unat i" using that by (metis le_less word_less_nat_alt)
        then show ?thesis using dec by (simp add: word_le_nat_alt)
      qed
      have step: "find_conflict_loop l t i = find_conflict_loop l t (i - 1)"
        using True x False by (simp add: find_conflict_loop.simps [of l t i])
      have "\<exists>x>t. term_at l j = Some x" if "find_conflict_loop l t (i - 1) < j" "j \<le> i" for j
        using that IH x False pred [of j] by (cases "j = i") (auto simp: conflict_spec_def)
      moreover have "find_conflict_loop l t (i - 1) \<le> i"
        using IH le(1) order_trans unfolding conflict_spec_def by blast
      ultimately show ?thesis
        using IH le(2) unfolding step conflict_spec_def by blast
    qed
  qed
qed

text \<open>
  The conflict search returns the last index at or below the hint, and within the log,
  whose term does not exceed the given term; everything it skips has a higher term. It
  never goes below the snapshot point unless the hint was there already.
\<close>

theorem find_conflict_correct:
  assumes "log_wf l"
  shows "conflict_spec l t (min i (last_index l)) (find_conflict_by_term l i t)"
  unfolding find_conflict_by_term_def by (rule find_conflict_loop_spec [OF assms]) simp

theorem find_conflict_correct_witness:
  "conflict_spec four_ones 1 (min 6 (last_index four_ones)) (find_conflict_by_term four_ones 6 1)"
  by (rule find_conflict_correct) (use four_ones_pre(1) in \<open>simp add: merge_pre_def\<close>)

end
