(* ===== verification/Client_Proto.thy ===== *)
theory Client_Proto
  imports Raft_Types
begin

section \<open>The client protocol (chronolog/src/client.rs)\<close>

text \<open>
  Requests, outcomes and responses with their wire format. \<open>Request::encode\<close> builds a fresh
  buffer; the model splits it into the writer chain \<open>request_write\<close> and the buffer around it,
  so that requests and responses are codecs in the sense of \<open>wire_codec\<close>.
\<close>

datatype read_mode = Linearizable | Lease | Stale

datatype op =
    Get bytes read_mode
  | Put bytes bytes
  | Delete bytes
  | Cas bytes "bytes option" "bytes option"
  | GetAt bytes index

fun is_read :: "op \<Rightarrow> bool" where
  "is_read (Get key mode) = True"
| "is_read (GetAt key version) = True"
| "is_read _ = False"

record request =
  rq_client_id :: u64
  rq_seq :: u64
  rq_op :: op

datatype outcome =
    Value "bytes option"
  | Applied index
  | CasFailed "bytes option"
  | NotLeader "node_id option"
  | Unavailable

record response =
  rs_client_id :: u64
  rs_seq :: u64
  rs_outcome :: outcome

subsection \<open>Encoding\<close>

fun mode_tag :: "read_mode \<Rightarrow> u8" where
  "mode_tag Linearizable = 0"
| "mode_tag Lease = 1"
| "mode_tag Stale = 2"

definition tag_mode :: "u8 \<Rightarrow> read_mode decoder" where
  "tag_mode t =
     (if t = 0 then r_return Linearizable
      else if t = 1 then r_return Lease
      else if t = 2 then r_return Stale
      else r_fail (BadTag t))"

definition request_write :: "request \<Rightarrow> writer \<Rightarrow> writer" where
  "request_write rq w =
     (let w = w_u64 (rq_seq rq) (w_u64 (rq_client_id rq) w) in
      case rq_op rq of
        Get key mode \<Rightarrow> w_u8 (mode_tag mode) (w_bytes key (w_u8 0 w))
      | Put key value \<Rightarrow> w_bytes value (w_bytes key (w_u8 1 w))
      | Delete key \<Rightarrow> w_bytes key (w_u8 2 w)
      | Cas key expect value \<Rightarrow> w_opt w_bytes value (w_opt w_bytes expect (w_bytes key (w_u8 3 w)))
      | GetAt key version \<Rightarrow> w_u64 version (w_bytes key (w_u8 4 w)))"

definition request_encode :: "request \<Rightarrow> bytes" where
  "request_encode rq = request_write rq w_new"

definition op_read :: "op decoder" where
  "op_read = r_bind r_u8 (\<lambda>t.
     if t = 0 then r_bind r_bytes (\<lambda>key. r_bind r_u8 (\<lambda>m. r_bind (tag_mode m) (\<lambda>mode. r_return (Get key mode))))
     else if t = 1 then r_bind r_bytes (\<lambda>key. r_bind r_bytes (\<lambda>value. r_return (Put key value)))
     else if t = 2 then r_bind r_bytes (\<lambda>key. r_return (Delete key))
     else if t = 3 then r_bind r_bytes (\<lambda>key. r_bind (r_opt r_bytes) (\<lambda>expect.
       r_bind (r_opt r_bytes) (\<lambda>value. r_return (Cas key expect value))))
     else if t = 4 then r_bind r_bytes (\<lambda>key. r_bind r_u64 (\<lambda>version. r_return (GetAt key version)))
     else r_fail (BadTag t))"

definition request_read :: "request decoder" where
  "request_read = r_bind r_u64 (\<lambda>c. r_bind r_u64 (\<lambda>s. r_bind op_read (\<lambda>p.
     r_return \<lparr>rq_client_id = c, rq_seq = s, rq_op = p\<rparr>)))"

definition request_decode :: "bytes \<Rightarrow> decode_error + request" where
  "request_decode buf = decode_all request_read buf"

definition response_write :: "response \<Rightarrow> writer \<Rightarrow> writer" where
  "response_write rs w =
     (let w = w_u64 (rs_seq rs) (w_u64 (rs_client_id rs) w) in
      case rs_outcome rs of
        Value v \<Rightarrow> w_opt w_bytes v (w_u8 0 w)
      | Applied version \<Rightarrow> w_u64 version (w_u8 1 w)
      | CasFailed actual \<Rightarrow> w_opt w_bytes actual (w_u8 2 w)
      | NotLeader hint \<Rightarrow> w_opt w_u32 hint (w_u8 3 w)
      | Unavailable \<Rightarrow> w_u8 4 w)"

definition response_encode :: "response \<Rightarrow> bytes" where
  "response_encode rs = response_write rs w_new"

definition outcome_read :: "outcome decoder" where
  "outcome_read = r_bind r_u8 (\<lambda>t.
     if t = 0 then r_bind (r_opt r_bytes) (\<lambda>v. r_return (Value v))
     else if t = 1 then r_bind r_u64 (\<lambda>version. r_return (Applied version))
     else if t = 2 then r_bind (r_opt r_bytes) (\<lambda>actual. r_return (CasFailed actual))
     else if t = 3 then r_bind (r_opt r_u32) (\<lambda>hint. r_return (NotLeader hint))
     else if t = 4 then r_return Unavailable
     else r_fail (BadTag t))"

definition response_read :: "response decoder" where
  "response_read = r_bind r_u64 (\<lambda>c. r_bind r_u64 (\<lambda>s. r_bind outcome_read (\<lambda>out.
     r_return \<lparr>rs_client_id = c, rs_seq = s, rs_outcome = out\<rparr>)))"

definition response_decode :: "bytes \<Rightarrow> decode_error + response" where
  "response_decode buf = decode_all response_read buf"

subsection \<open>Round trips\<close>

definition bytes_ok :: "bytes \<Rightarrow> bool" where
  "bytes_ok b \<longleftrightarrow> length b < 2 ^ 32"

definition request_ok :: "request \<Rightarrow> bool" where
  "request_ok rq =
     (case rq_op rq of
        Get key _ \<Rightarrow> bytes_ok key
      | Put key value \<Rightarrow> bytes_ok key \<and> bytes_ok value
      | Delete key \<Rightarrow> bytes_ok key
      | Cas key expect value \<Rightarrow> bytes_ok key \<and> pred_option bytes_ok expect \<and> pred_option bytes_ok value
      | GetAt key _ \<Rightarrow> bytes_ok key)"

definition outcome_ok :: "outcome \<Rightarrow> bool" where
  "outcome_ok out =
     (case out of
        Value v \<Rightarrow> pred_option bytes_ok v
      | CasFailed v \<Rightarrow> pred_option bytes_ok v
      | _ \<Rightarrow> True)"

lemma w_opt_bytes_eq [encode_simps]:
  "w_opt w_bytes v w = w @ (case v of None \<Rightarrow> [0] | Some b \<Rightarrow> 1 # le_bytes 4 (word_of_nat (length b) :: u32) @ b)"
  by (simp add: w_opt_def encode_simps split: option.split)

lemma w_opt_u32_eq [encode_simps]:
  "w_opt w_u32 v w = w @ (case v of None \<Rightarrow> [0] | Some b \<Rightarrow> 1 # le_bytes 4 b)"
  by (simp add: w_opt_def encode_simps split: option.split)

lemma parses_opt_none [parse_then]: "parses (f None) cs y \<Longrightarrow> parses (r_bind (r_opt d) f) (0 # cs) y"
  unfolding r_opt_def by (simp add: parse_then)

lemma parses_opt_some [parse_then]:
  "parses (r_bind d (\<lambda>x. f (Some x))) cs y \<Longrightarrow> parses (r_bind (r_opt d) f) (1 # cs) y"
  unfolding r_opt_def by (simp add: parse_then)

lemma tag_mode_tag [parse_then]: "tag_mode (mode_tag m) = r_return m"
  by (cases m) (simp_all add: tag_mode_def)

lemma safe_request [parse_rules]: "safe_decoder request_read"
  unfolding request_read_def op_read_def tag_mode_def by (intro parse_rules)

lemma safe_response [parse_rules]: "safe_decoder response_read"
  unfolding response_read_def outcome_read_def by (intro parse_rules)

lemmas request_simps = request_write_def request_read_def op_read_def request_ok_def bytes_ok_def Let_def

lemma parses_request:
  assumes "request_ok rq"
  shows "parses request_read (request_write rq []) rq"
proof (cases "rq_op rq")
  case (Cas key x y)
  with assms show ?thesis
    by (cases x; cases y) (simp_all add: request_simps encode_simps parse_then)
qed (use assms in \<open>simp_all add: request_simps encode_simps parse_then\<close>)

lemmas response_simps = response_write_def response_read_def outcome_read_def outcome_ok_def bytes_ok_def Let_def

lemma parses_response:
  assumes "outcome_ok (rs_outcome rs)"
  shows "parses response_read (response_write rs []) rs"
proof (cases "rs_outcome rs")
  case (Value v)
  with assms show ?thesis by (cases v) (simp_all add: response_simps encode_simps parse_then)
next
  case (CasFailed v)
  with assms show ?thesis by (cases v) (simp_all add: response_simps encode_simps parse_then)
next
  case (NotLeader v)
  with assms show ?thesis by (cases v) (simp_all add: response_simps encode_simps parse_then)
qed (use assms in \<open>simp_all add: response_simps encode_simps parse_then\<close>)

interpretation request_codec: wire_codec request_write request_read request_ok
proof unfold_locales
  fix x w
  show "request_write x w = w @ request_write x []" and "request_write x [] \<noteq> []"
    by (simp_all add: request_write_def encode_simps Let_def split: op.split)
qed (simp_all add: parses_request safe_request)

interpretation response_codec: wire_codec response_write response_read "\<lambda>rs. outcome_ok (rs_outcome rs)"
proof unfold_locales
  fix x w
  show "response_write x w = w @ response_write x []" and "response_write x [] \<noteq> []"
    by (simp_all add: response_write_def encode_simps Let_def split: outcome.split)
qed (simp_all add: parses_response safe_response)

text \<open>
  Every client request survives its encoding, and no strict prefix of an encoded
  request decodes to anything: a truncated request is an error, never a different request.
\<close>

lemma request_roundtrip:
  assumes "request_ok rq"
  shows "request_decode (request_encode rq) = Inr rq \<and>
    (\<forall>p q. request_encode rq = p @ q \<and> q \<noteq> [] \<longrightarrow> (\<exists>e. request_decode p = Inl e))"
  using request_codec.decode_encode [OF assms] request_codec.strict_prefix_fails [OF assms]
  by (auto simp: request_decode_def request_encode_def w_new_def)

end
