(* ===== verification/Crc32c.thy ===== *)
theory Crc32c
  imports Chrono_Prelude
begin

section \<open>CRC32C (chronolog/src/codec.rs)\<close>

text \<open>
  The reflected Castagnoli CRC, table driven as in the source. The table is shown to
  compute eight steps of the bit-serial shift register, the incremental form is shown to
  be a fold, and the register step is a bijection, so that damage confined to one byte is
  always detected.
\<close>

subsection \<open>The table and the update loop\<close>

definition crc_bit :: "u32 \<Rightarrow> u32" where
  "crc_bit c = (if c AND 1 \<noteq> 0 then 0x82F63B78 XOR drop_bit 1 c else drop_bit 1 c)"

definition table :: "u32 list" where
  "table = map (\<lambda>i. (crc_bit ^^ 8) (word_of_nat i)) [0..<256]"

primrec crc_loop :: "u32 \<Rightarrow> bytes \<Rightarrow> u32" where
  "crc_loop crc [] = crc"
| "crc_loop crc (b # data) =
     crc_loop (table ! unat ((crc XOR ucast b) AND 0xFF) XOR drop_bit 8 crc) data"

definition crc32c_update :: "u32 \<Rightarrow> bytes \<Rightarrow> u32" where
  "crc32c_update seed data = NOT (crc_loop (NOT seed) data)"

definition crc32c :: "bytes \<Rightarrow> u32" where
  "crc32c data = crc32c_update 0 data"

subsection \<open>The bit-serial register\<close>

text \<open>The reference: shift the byte into the register, then eight single-bit steps.\<close>

definition crc_byte :: "u32 \<Rightarrow> u8 \<Rightarrow> u32" where
  "crc_byte crc b = (crc_bit ^^ 8) (crc XOR ucast b)"

lemma crc_bit_xor: "crc_bit (x XOR y) = crc_bit x XOR crc_bit y"
proof -
  have 1: "z AND 1 \<noteq> 0 \<longleftrightarrow> bit z 0" for z :: u32
    by (simp add: and_one_eq bit_0 odd_iff_mod_2_eq_one)
  show ?thesis
    unfolding crc_bit_def 1
    by (rule bit_word_eqI) (auto simp: bit_simps)
qed

lemma crc_bits_xor: "(crc_bit ^^ n) (x XOR y) = (crc_bit ^^ n) x XOR (crc_bit ^^ n) y"
  by (induction n) (simp_all add: crc_bit_xor)

lemma crc_bit_even: "\<not> bit c 0 \<Longrightarrow> crc_bit c = drop_bit 1 c"
  by (simp add: crc_bit_def and_one_eq bit_0 even_iff_mod_2_eq_zero)

lemma crc_bits_shift:
  "(\<And>i. i < n \<Longrightarrow> \<not> bit c i) \<Longrightarrow> (crc_bit ^^ n) c = drop_bit n c"
proof (induction n arbitrary: c)
  case 0
  then show ?case by simp
next
  case (Suc n)
  have "(crc_bit ^^ Suc n) c = (crc_bit ^^ n) (crc_bit c)"
    by (simp add: funpow_swap1)
  also have "crc_bit c = drop_bit 1 c" using Suc.prems by (simp add: crc_bit_even)
  also have "(crc_bit ^^ n) (drop_bit 1 c) = drop_bit n (drop_bit 1 c)"
    by (rule Suc.IH) (simp add: bit_simps Suc.prems)
  finally show ?case by (simp add: drop_bit_drop_bit)
qed

lemma unat_low_byte: "unat (c AND 0xFF :: u32) < 256"
  using word_and_le1 [of c "0xFF"] by (simp add: word_le_nat_alt)

lemma table_nth: "table ! unat (c AND 0xFF) = (crc_bit ^^ 8) (c AND 0xFF)"
  using unat_low_byte [of c] by (simp add: table_def)

lemma table_step:
  "table ! unat ((crc XOR ucast b) AND 0xFF) XOR drop_bit 8 crc = crc_byte crc b"
proof -
  let ?x = "crc XOR ucast b"
  have low: "(?x AND 0xFF) XOR (?x AND NOT 0xFF) = ?x"
    by (rule bit_word_eqI) (auto simp: bit_simps)
  have mask: "bit (0xFF :: u32) i \<longleftrightarrow> i < 8" for i
  proof -
    have "(0xFF :: u32) = mask 8" by (simp add: mask_eq_exp_minus_1)
    then have "bit (0xFF :: u32) i \<longleftrightarrow> bit (mask 8 :: u32) i" by (simp only:)
    also have "\<dots> \<longleftrightarrow> i < 8" by (auto simp: bit_mask_iff)
    finally show ?thesis .
  qed
  have "(crc_bit ^^ 8) (?x AND NOT 0xFF) = drop_bit 8 (?x AND NOT 0xFF)"
    by (rule crc_bits_shift) (simp only: bit_and_iff bit_not_iff mask, simp)
  also have "\<dots> = drop_bit 8 crc"
    by (rule bit_word_eqI)
      (simp only: bit_drop_bit_eq bit_and_iff bit_not_iff bit_xor_iff mask comp_apply,
        auto simp: bit_simps dest: bit_imp_le_length)
  finally have high: "(crc_bit ^^ 8) (?x AND NOT 0xFF) = drop_bit 8 crc" .
  have "(crc_bit ^^ 8) ?x = (crc_bit ^^ 8) ((?x AND 0xFF) XOR (?x AND NOT 0xFF))"
    by (simp only: low)
  also have "\<dots> = (crc_bit ^^ 8) (?x AND 0xFF) XOR drop_bit 8 crc"
    by (simp only: crc_bits_xor high)
  finally show ?thesis by (simp only: crc_byte_def table_nth)
qed

lemma crc_loop_eq_fold: "crc_loop crc data = foldl crc_byte crc data"
  by (induction data arbitrary: crc) (simp_all only: crc_loop.simps table_step foldl.simps)

subsection \<open>The register step is a bijection\<close>

lemma crc_bit_inj: "inj crc_bit"
proof (rule injI)
  fix x y assume eq: "crc_bit x = crc_bit y"
  have top: "bit (crc_bit z) 31 \<longleftrightarrow> bit z 0" for z
    by (auto simp: crc_bit_def and_one_eq bit_0 odd_iff_mod_2_eq_one bit_simps
        dest: bit_imp_le_length)
  from eq have b0: "bit x 0 \<longleftrightarrow> bit y 0" using top by metis
  with eq have shifted: "drop_bit 1 x = drop_bit 1 y"
    by (auto simp: crc_bit_def and_one_eq bit_0 odd_iff_mod_2_eq_one xor_left_cancel)
  show "x = y"
  proof (rule bit_word_eqI)
    fix k
    have "bit x (Suc j) \<longleftrightarrow> bit y (Suc j)" for j
      using arg_cong [OF shifted, of "\<lambda>z. bit z j"] by (simp add: bit_simps)
    with b0 show "bit x k \<longleftrightarrow> bit y k" by (cases k) simp_all
  qed
qed

lemma crc_bits_inj: "(crc_bit ^^ n) x = (crc_bit ^^ n) y \<Longrightarrow> x = y"
  by (induction n) (auto dest: injD [OF crc_bit_inj])

lemma crc_byte_inj_reg: "crc_byte c b = crc_byte c' b \<Longrightarrow> c = c'"
  unfolding crc_byte_def by (drule crc_bits_inj) (simp only: xor_right_cancel)

lemma crc_byte_inj_byte:
  assumes "crc_byte c b = crc_byte c b'"
  shows "b = b'"
proof -
  have "c XOR ucast b = c XOR (ucast b' :: u32)"
    using assms unfolding crc_byte_def by (rule crc_bits_inj)
  then have "(ucast b :: u32) = ucast b'" by (simp only: xor_left_cancel)
  then show ?thesis by (rule ucast_u8_u32_inject)
qed

lemma foldl_crc_inj: "foldl crc_byte c data = foldl crc_byte c' data \<Longrightarrow> c = c'"
proof (induction data arbitrary: c c')
  case Nil
  then show ?case by simp
next
  case (Cons b data)
  from Cons.prems have "foldl crc_byte (crc_byte c b) data = foldl crc_byte (crc_byte c' b) data"
    by simp
  then have "crc_byte c b = crc_byte c' b" by (rule Cons.IH)
  then show ?case by (rule crc_byte_inj_reg)
qed

lemma crc32c_update_eq: "crc32c_update seed data = NOT (foldl crc_byte (NOT seed) data)"
  by (simp only: crc32c_update_def crc_loop_eq_fold)

text \<open>
  C33: the table-driven checksum is the bit-serial CRC32C: the complement of the register
  after shifting every byte in, eight single-bit steps each, from the all-ones register.
\<close>

theorem crc32c_bit_serial:
  "crc32c data = NOT (foldl (\<lambda>c b. (crc_bit ^^ 8) (c XOR ucast b)) (NOT 0) data)"
  unfolding crc32c_def crc32c_update_eq by (simp only: crc_byte_def [abs_def])

text \<open>
  Checksumming a buffer in pieces gives the checksum of the whole: the result of one
  \<open>crc32c_update\<close> is the seed of the next.
\<close>

theorem crc32c_incremental:
  "crc32c_update (crc32c_update seed xs) ys = crc32c_update seed (xs @ ys)"
  by (simp add: crc32c_update_eq)

lemma crc32c_byte_change:
  assumes "b \<noteq> b'"
  shows "crc32c (pre @ b # post) \<noteq> crc32c (pre @ b' # post)"
proof
  assume "crc32c (pre @ b # post) = crc32c (pre @ b' # post)"
  then have "NOT (crc32c (pre @ b # post)) = NOT (crc32c (pre @ b' # post))" by simp
  then have "foldl crc_byte (crc_byte (foldl crc_byte (NOT 0) pre) b) post =
      foldl crc_byte (crc_byte (foldl crc_byte (NOT 0) pre) b') post"
    unfolding crc32c_def crc32c_update_eq by simp
  then have "b = b'" by (rule crc_byte_inj_byte [OF foldl_crc_inj])
  with assms show False by simp
qed

lemma crc32c_list_update:
  assumes "i < length p"
  shows "crc32c (p[i := b]) = crc32c p \<longleftrightarrow> b = p ! i"
  using crc32c_byte_change [of b "p ! i" "take i p" "drop (Suc i) p"] assms
  by (auto simp: upd_conv_take_nth_drop id_take_nth_drop [symmetric])

text \<open>
  A change confined to one byte is always detected: overwriting any one byte of a
  buffer of any length keeps the checksum only if it writes the same byte back. This
  covers every single-bit flip.
\<close>

lemma crc32c_detects_byte_damage:
  assumes "i < length p"
  shows "crc32c (p[i := b]) = crc32c p \<longleftrightarrow> p[i := b] = p"
  using crc32c_list_update [OF assms] assms by (metis list_update_id nth_list_update_eq)

lemma crc32c_empty: "crc32c [] = 0"
  by (simp add: crc32c_def crc32c_update_def)

end
