(* ===== verification/Wire_Msg.thy ===== *)
theory Wire_Msg
  imports Client_Proto Crc32c
begin

section \<open>The wire protocol (chronolog/src/msg.rs)\<close>

text \<open>
  Raft messages, the checksummed frame around every datagram, and the envelope \<open>Wire\<close>
  that carries Raft, client and membership traffic.
\<close>

definition PROTOCOL_VERSION :: u8 where
  "PROTOCOL_VERSION = 1"

datatype body =
    PreVoteReq index raft_term
  | PreVoteResp bool
  | VoteReq index raft_term
  | VoteResp bool
  | AppendReq index raft_term "entry list" index
  | AppendResp bool index index raft_term
  | SnapshotReq snapshot
  | SnapshotResp bool index
  | HeartbeatReq index u64
  | HeartbeatResp u64
  | TimeoutNow

record message =
  m_term :: raft_term
  m_body :: body

definition message_new :: "raft_term \<Rightarrow> body \<Rightarrow> message" where
  "message_new t b = \<lparr>m_term = t, m_body = b\<rparr>"

definition is_pre_vote :: "message \<Rightarrow> bool" where
  "is_pre_vote m =
     (case m_body m of PreVoteReq _ _ \<Rightarrow> True | PreVoteResp _ \<Rightarrow> True | _ \<Rightarrow> False)"

definition message_write :: "message \<Rightarrow> writer \<Rightarrow> writer" where
  "message_write m w =
     (let w = w_u64 (m_term m) w in
      case m_body m of
        PreVoteReq li lt \<Rightarrow> w_u64 lt (w_u64 li (w_u8 1 w))
      | PreVoteResp g \<Rightarrow> w_bool g (w_u8 2 w)
      | VoteReq li lt \<Rightarrow> w_u64 lt (w_u64 li (w_u8 3 w))
      | VoteResp g \<Rightarrow> w_bool g (w_u8 4 w)
      | AppendReq pi pt es c \<Rightarrow> w_seq entry_encode es (w_u64 c (w_u64 pt (w_u64 pi (w_u8 5 w))))
      | AppendResp s mi ci ct \<Rightarrow> w_u64 ct (w_u64 ci (w_u64 mi (w_bool s (w_u8 6 w))))
      | SnapshotReq s \<Rightarrow> snapshot_encode s (w_u8 7 w)
      | SnapshotResp s i \<Rightarrow> w_u64 i (w_bool s (w_u8 8 w))
      | HeartbeatReq c x \<Rightarrow> w_u64 x (w_u64 c (w_u8 9 w))
      | HeartbeatResp x \<Rightarrow> w_u64 x (w_u8 10 w)
      | TimeoutNow \<Rightarrow> w_u8 11 w)"

definition message_encode :: "message \<Rightarrow> bytes" where
  "message_encode m = message_write m w_new"

definition body_read :: "body decoder" where
  "body_read = r_bind r_u8 (\<lambda>t.
     if t = 1 then r_bind r_u64 (\<lambda>li. r_bind r_u64 (\<lambda>lt. r_return (PreVoteReq li lt)))
     else if t = 2 then r_bind r_bool (\<lambda>g. r_return (PreVoteResp g))
     else if t = 3 then r_bind r_u64 (\<lambda>li. r_bind r_u64 (\<lambda>lt. r_return (VoteReq li lt)))
     else if t = 4 then r_bind r_bool (\<lambda>g. r_return (VoteResp g))
     else if t = 5 then r_bind r_u64 (\<lambda>pi. r_bind r_u64 (\<lambda>pt. r_bind r_u64 (\<lambda>c.
       r_bind (r_seq entry_decode) (\<lambda>es. r_return (AppendReq pi pt es c)))))
     else if t = 6 then r_bind r_bool (\<lambda>s. r_bind r_u64 (\<lambda>mi. r_bind r_u64 (\<lambda>ci. r_bind r_u64 (\<lambda>ct.
       r_return (AppendResp s mi ci ct)))))
     else if t = 7 then r_bind snapshot_decode (\<lambda>s. r_return (SnapshotReq s))
     else if t = 8 then r_bind r_bool (\<lambda>s. r_bind r_u64 (\<lambda>i. r_return (SnapshotResp s i)))
     else if t = 9 then r_bind r_u64 (\<lambda>c. r_bind r_u64 (\<lambda>x. r_return (HeartbeatReq c x)))
     else if t = 10 then r_bind r_u64 (\<lambda>x. r_return (HeartbeatResp x))
     else if t = 11 then r_return TimeoutNow
     else r_fail (BadTag t))"

definition message_read :: "message decoder" where
  "message_read = r_bind r_u64 (\<lambda>t. r_bind body_read (\<lambda>b. r_return \<lparr>m_term = t, m_body = b\<rparr>))"

definition message_decode :: "bytes \<Rightarrow> decode_error + message" where
  "message_decode buf = decode_all message_read buf"

subsection \<open>Framing\<close>

definition frame :: "bytes \<Rightarrow> bytes" where
  "frame payload =
     [PROTOCOL_VERSION] @ le_bytes 4 (word_of_nat (length payload) :: u32) @
     le_bytes 4 (crc32c payload) @ payload"

definition unframe :: "bytes \<Rightarrow> decode_error + bytes" where
  "unframe buf =
     (if length buf < 9 then Inl Truncated
      else if buf ! 0 \<noteq> PROTOCOL_VERSION then Inl (BadTag (buf ! 0))
      else
        let len = unat (from_le_bytes [buf ! 1, buf ! 2, buf ! 3, buf ! 4] :: u32);
            crc = from_le_bytes [buf ! 5, buf ! 6, buf ! 7, buf ! 8] :: u32
        in if len > MAX_FRAME then Inl (BadLength (word_of_nat len))
           else if length buf < 9 + len then Inl Truncated
           else
             let payload = take len (drop 9 buf);
                 actual = crc32c payload
             in if actual \<noteq> crc then Inl (BadChecksum crc actual) else Inr payload)"

subsection \<open>The envelope\<close>

datatype admin_result =
    Accepted index
  | AdminNotLeader "node_id option"
  | Rejected

datatype wire =
    Raft message
  | Client request
  | Reply response
  | Admin config_change
  | AdminReply admin_result

definition admin_result_write :: "admin_result \<Rightarrow> writer \<Rightarrow> writer" where
  "admin_result_write a w =
     (case a of
        Accepted i \<Rightarrow> w_u64 i (w_u8 0 w)
      | AdminNotLeader hint \<Rightarrow> w_opt w_u32 hint (w_u8 1 w)
      | Rejected \<Rightarrow> w_u8 2 w)"

definition admin_result_read :: "admin_result decoder" where
  "admin_result_read = r_bind r_u8 (\<lambda>t.
     if t = 0 then r_bind r_u64 (\<lambda>i. r_return (Accepted i))
     else if t = 1 then r_bind (r_opt r_u32) (\<lambda>hint. r_return (AdminNotLeader hint))
     else if t = 2 then r_return Rejected
     else r_fail (BadTag t))"

definition wire_payload :: "wire \<Rightarrow> bytes" where
  "wire_payload x =
     (case x of
        Raft m \<Rightarrow> 0 # message_encode m
      | Client r \<Rightarrow> 1 # request_encode r
      | Reply r \<Rightarrow> 2 # response_encode r
      | Admin c \<Rightarrow> 3 # change_encode c w_new
      | AdminReply r \<Rightarrow> 4 # admin_result_write r w_new)"

definition wire_encode :: "wire \<Rightarrow> bytes" where
  "wire_encode x = frame (wire_payload x)"

definition wire_decode :: "bytes \<Rightarrow> decode_error + wire" where
  "wire_decode buf =
     (case unframe buf of
        Inl e \<Rightarrow> Inl e
      | Inr payload \<Rightarrow>
          (case payload of
             [] \<Rightarrow> Inl Truncated
           | tag # rest \<Rightarrow>
               if tag = 0 then map_sum id Raft (message_decode rest)
               else if tag = 1 then map_sum id Client (request_decode rest)
               else if tag = 2 then map_sum id Reply (response_decode rest)
               else if tag = 3 then map_sum id Admin (decode_all change_decode rest)
               else if tag = 4 then map_sum id AdminReply (decode_all admin_result_read rest)
               else Inl (BadTag tag)))"

subsection \<open>Messages are a codec\<close>

definition body_ok :: "body \<Rightarrow> bool" where
  "body_ok b =
     (case b of
        AppendReq pi pt es c \<Rightarrow> length es < 2 ^ 32 \<and> list_all entry_ok es
      | SnapshotReq s \<Rightarrow> snapshot_ok s
      | _ \<Rightarrow> True)"

lemmas message_simps = message_write_def message_read_def body_read_def body_ok_def Let_def

lemma safe_message [parse_rules]: "safe_decoder message_read"
  unfolding message_read_def body_read_def by (intro parse_rules)

lemma parses_entry_seq:
  assumes "length es < 2 ^ 32" and "list_all entry_ok es"
  shows "parses (r_seq entry_decode)
    (le_bytes 4 (word_of_nat (length es) :: u32) @ concat (map entry_to_bytes es)) es"
  using entry_codec.seq_parses [of es] assms by (simp add: list_all_iff encode_simps)

lemma parses_message:
  assumes "body_ok (m_body m)"
  shows "parses message_read (message_write m []) m"
proof (cases "m_body m")
  case (AppendReq pi pt es c)
  then have "parses (r_bind (r_seq entry_decode) (\<lambda>es. r_return \<lparr>m_term = m_term m, m_body = AppendReq pi pt es c\<rparr>))
      (le_bytes 4 (word_of_nat (length es) :: u32) @ concat (map entry_to_bytes es)) m"
    using assms parses_entry_seq [of es] by (intro parses_bind_Nil) (auto simp: body_ok_def parse_then)
  then show ?thesis using AppendReq by (simp add: message_simps encode_simps parse_then)
next
  case (SnapshotReq s)
  then have "parses (r_bind snapshot_decode (\<lambda>s. r_return \<lparr>m_term = m_term m, m_body = SnapshotReq s\<rparr>))
      (snapshot_encode s []) m"
    using assms snapshot_codec.dec_enc [of s] by (intro parses_bind_Nil) (auto simp: body_ok_def parse_then)
  moreover have "message_write m [] = le_bytes 8 (m_term m) @ 7 # snapshot_encode s []"
    using SnapshotReq snapshot_codec.enc_append [of s "le_bytes 8 (m_term m) @ [7]"]
    by (simp add: message_write_def Let_def encode_simps)
  ultimately show ?thesis by (simp add: message_read_def body_read_def parse_then)
qed (use assms in \<open>auto simp: message_simps encode_simps parse_then\<close>)

lemma snapshot_encode_app: "snapshot_encode s w = w @ snapshot_encode s []"
  by (rule snapshot_codec.enc_append)

interpretation message_codec: wire_codec message_write message_read "\<lambda>m. body_ok (m_body m)"
proof unfold_locales
  fix x w
  show "message_write x w = w @ message_write x []"
    by (cases "m_body x")
      (simp_all add: message_write_def encode_simps Let_def snapshot_encode_app [of _ "w @ _"]
        snapshot_encode_app [of _ "_ @ [7]"])
  show "message_write x [] \<noteq> []"
    by (cases "m_body x")
      (simp_all add: message_write_def encode_simps Let_def snapshot_encode_app [of _ "_ @ [7]"])
qed (simp_all add: parses_message safe_message)

subsection \<open>Frames\<close>

lemma length_4_cases: "length xs = 4 \<Longrightarrow> \<exists>a b c d. xs = [a, b, c, d]"
  by (auto simp: numeral_eq_Suc length_Suc_conv)

lemma unframe_parts:
  assumes "length lb = 4" and "length cb = 4"
  shows "unframe (v # lb @ cb @ rest) =
    (if v \<noteq> PROTOCOL_VERSION then Inl (BadTag v)
     else let len = unat (from_le_bytes lb :: u32); crc = from_le_bytes cb in
       if len > MAX_FRAME then Inl (BadLength (word_of_nat len))
       else if length rest < len then Inl Truncated
       else if crc32c (take len rest) \<noteq> crc then Inl (BadChecksum crc (crc32c (take len rest)))
       else Inr (take len rest))"
proof -
  obtain a b c d where lb: "lb = [a, b, c, d]" using length_4_cases [OF assms(1)] by blast
  obtain e f g h where cb: "cb = [e, f, g, h]" using length_4_cases [OF assms(2)] by blast
  show ?thesis unfolding lb cb unframe_def Let_def by (simp add: numeral_eq_Suc)
qed

lemma unframe_frame_gen:
  assumes "length p \<le> MAX_FRAME" and "length cb = 4"
  shows "unframe (PROTOCOL_VERSION # le_bytes 4 (word_of_nat (length p) :: u32) @ cb @ rest) =
    (if length rest < length p then Inl Truncated
     else if crc32c (take (length p) rest) \<noteq> from_le_bytes cb
       then Inl (BadChecksum (from_le_bytes cb) (crc32c (take (length p) rest)))
     else Inr (take (length p) rest))"
proof -
  have "unat (word_of_nat (length p) :: u32) = length p"
    using assms by (simp add: unat_of_nat MAX_FRAME_def)
  then show ?thesis
    using assms by (simp add: unframe_parts from_le_bytes_le_bytes Let_def)
qed

lemma unframe_frame: "length p \<le> MAX_FRAME \<Longrightarrow> unframe (frame p @ post) = Inr p"
  using unframe_frame_gen [of p "le_bytes 4 (crc32c p)" "p @ post"]
  by (simp add: frame_def from_le_bytes_le_bytes)

lemma length_frame [simp]: "length (frame p) = 9 + length p"
  by (simp add: frame_def)

lemma unframe_short:
  assumes "length p \<le> MAX_FRAME" and "frame p = x @ y" and "y \<noteq> []"
  shows "unframe x = Inl Truncated"
proof (cases "length x < 9")
  case True
  then show ?thesis by (simp add: unframe_def)
next
  case False
  have x: "x = take (length x) (frame p)" using assms(2) by simp
  define n where "n = length x - 9"
  have n: "length x = 9 + n" using False by (simp add: n_def)
  have "9 + length p = length x + length y" using assms(2) length_frame [of p] by (simp del: length_frame)
  then have short: "n < length p" using n assms(3) by (cases y) auto
  have "x = PROTOCOL_VERSION # le_bytes 4 (word_of_nat (length p) :: u32) @ le_bytes 4 (crc32c p) @ take n p"
    by (subst x) (simp add: frame_def n take_Cons')
  then show ?thesis
    using unframe_frame_gen [OF assms(1), of "le_bytes 4 (crc32c p)" "take n p"] short by simp
qed

lemma from_le_bytes_inj_4:
  assumes "length xs = 4" and "length ys = 4" and "(from_le_bytes xs :: u32) = from_le_bytes ys"
  shows "xs = ys"
proof -
  have "le_bytes 4 (from_le_bytes zs :: u32) = zs" if "length zs = 4" for zs
    by (rule le_bytes_from_le_bytes) (simp_all add: that)
  then show ?thesis using assms by metis
qed

text \<open>
  C24: a frame with one damaged byte outside its length field is rejected: a changed
  version byte, a changed checksum byte and a changed payload byte are each detected, and
  so is every truncated frame.
\<close>

theorem damaged_frame_rejected:
  assumes "length p \<le> MAX_FRAME" and "i < length (frame p)" and "i = 0 \<or> 5 \<le> i" and "b \<noteq> frame p ! i"
  shows "\<exists>e. unframe ((frame p)[i := b]) = Inl e"
proof -
  let ?l = "le_bytes 4 (word_of_nat (length p) :: u32)" and ?c = "le_bytes 4 (crc32c p)"
  have f: "frame p = PROTOCOL_VERSION # ?l @ ?c @ p" by (simp add: frame_def)
  consider "i = 0" | j where "i = 5 + j" "j < 4" | j where "i = 9 + j" "j < length p"
    using assms(2,3) that(1) that(2) [of "i - 5"] that(3) [of "i - 9"] by force
  then show ?thesis
  proof cases
    case 1
    then show ?thesis using assms(4) unframe_parts [of ?l ?c b p] by (simp add: f)
  next
    case (2 j)
    have "(frame p)[i := b] = PROTOCOL_VERSION # ?l @ ?c[j := b] @ p"
      using 2 by (simp add: f list_update_append)
    moreover have "?c[j := b] ! j = b" and "b \<noteq> ?c ! j"
      using 2 assms(4) by (simp_all add: f nth_append)
    then have "?c[j := b] \<noteq> ?c" by metis
    then have "from_le_bytes (?c[j := b]) \<noteq> crc32c p"
      using from_le_bytes_inj_4 [of "?c[j := b]" ?c] by (auto simp: from_le_bytes_le_bytes)
    ultimately show ?thesis using unframe_frame_gen [OF assms(1), of "?c[j := b]" p] by auto
  next
    case (3 j)
    have "(frame p)[i := b] = PROTOCOL_VERSION # ?l @ ?c @ p[j := b]"
      using 3 by (simp add: f list_update_append)
    moreover have "crc32c (p[j := b]) \<noteq> crc32c p"
      using 3 assms(4) crc32c_list_update [of j p b] by (simp add: f nth_append)
    ultimately show ?thesis
      using unframe_frame_gen [OF assms(1), of ?c "p[j := b]"] by (simp add: from_le_bytes_le_bytes)
  qed
qed

theorem damaged_frame_rejected_witness:
  "\<exists>e. unframe ((frame [7, 8, 9])[10 := 0]) = Inl e"
  by (rule damaged_frame_rejected) (simp_all add: MAX_FRAME_def, simp add: frame_def nth_append)

subsection \<open>Round trips of the envelope\<close>

definition wire_ok :: "wire \<Rightarrow> bool" where
  "wire_ok x \<longleftrightarrow> length (wire_payload x) \<le> MAX_FRAME \<and>
     (case x of
        Raft m \<Rightarrow> body_ok (m_body m)
      | Client r \<Rightarrow> request_ok r
      | Reply r \<Rightarrow> outcome_ok (rs_outcome r)
      | Admin c \<Rightarrow> change_ok c
      | AdminReply r \<Rightarrow> True)"

lemma parses_admin_result: "parses admin_result_read (admin_result_write a []) a"
proof (cases a)
  case (AdminNotLeader h)
  then show ?thesis
    by (cases h) (simp_all add: admin_result_write_def admin_result_read_def encode_simps parse_then)
qed (simp_all add: admin_result_write_def admin_result_read_def encode_simps parse_then)

lemma safe_admin_result [parse_rules]: "safe_decoder admin_result_read"
  unfolding admin_result_read_def by (intro parse_rules)

interpretation admin_codec: wire_codec admin_result_write admin_result_read "\<lambda>_. True"
proof unfold_locales
  fix x w
  show "admin_result_write x w = w @ admin_result_write x []" and "admin_result_write x [] \<noteq> []"
    by (simp_all add: admin_result_write_def encode_simps split: admin_result.split)
qed (simp_all add: parses_admin_result safe_admin_result)

text \<open>
  C23: whatever is sent arrives as it was sent: every well-formed message, request, reply,
  membership change and admin reply decodes from its frame, also with bytes after the
  frame, and a frame cut short anywhere is reported as truncated.
\<close>

theorem wire_roundtrip:
  assumes "wire_ok x"
  shows "wire_decode (wire_encode x @ post) = Inr x \<and>
    (\<forall>p q. wire_encode x = p @ q \<and> q \<noteq> [] \<longrightarrow> wire_decode p = Inl Truncated)"
proof -
  have len: "length (wire_payload x) \<le> MAX_FRAME" using assms by (simp add: wire_ok_def)
  have "wire_decode (wire_encode x @ post) = Inr x"
    using assms unframe_frame [OF len, of post] message_codec.decode_encode request_codec.decode_encode
      response_codec.decode_encode change_codec.decode_encode admin_codec.decode_encode
    by (cases x)
      (simp_all add: wire_decode_def wire_encode_def wire_payload_def wire_ok_def message_decode_def
        message_encode_def request_decode_def request_encode_def response_decode_def
        response_encode_def w_new_def)
  then show ?thesis
    using unframe_short [OF len] by (simp add: wire_decode_def wire_encode_def)
qed

theorem wire_roundtrip_witness:
  "wire_decode (wire_encode (Raft (message_new 3 (VoteReq 9 2))) @ []) = Inr (Raft (message_new 3 (VoteReq 9 2)))"
proof -
  have "wire_ok (Raft (message_new 3 (VoteReq 9 2)))"
    by (simp add: wire_ok_def wire_payload_def message_encode_def message_write_def message_new_def
      body_ok_def encode_simps w_new_def MAX_FRAME_def)
  from wire_roundtrip [OF this] show ?thesis by blast
qed

end
