(* ===== verification/Raft_Core.thy ===== *)
theory Raft_Core
  imports Raft_Log Wire_Msg
begin

section \<open>The Raft state machine (chronolog/src/raft.rs)\<close>

text \<open>
  The state machine is pure in the source: inputs are a tick, a message, a proposal, and the
  output is a \<open>Ready\<close> that the driver persists and sends. Here \<open>&mut self\<close> is state passing
  on the record \<open>raft\<close>, which has the fields of the struct. Methods that also return a value
  return a pair. Counters and indices have their machine width and wrap, as in a release
  build. The sorted iteration of \<open>BTreeMap\<close> and \<open>BTreeSet\<close> is \<open>sorted_list_of_set\<close>.
\<close>

record raft_options =
  o_election_ticks :: u32
  o_heartbeat_ticks :: u32
  o_max_entries_per_append :: u64
  o_max_bytes_per_append :: nat
  o_pre_vote :: bool
  o_lease_reads :: bool
  o_snapshot_interval :: u64

definition default_options :: raft_options where
  "default_options = \<lparr>o_election_ticks = 10, o_heartbeat_ticks = 3, o_max_entries_per_append = 64,
     o_max_bytes_per_append = 2 ^ 20, o_pre_vote = True, o_lease_reads = False, o_snapshot_interval = 2000\<rparr>"

datatype role = Follower | PreCandidate | Candidate | Leader

datatype progress_state = Probe | Replicate | Snapshotting

record progress =
  p_next :: index
  p_matched :: index
  p_state :: progress_state
  p_pending_snapshot :: index
  p_pending_snapshot_age :: u32
  p_active :: bool

definition progress_new :: "index \<Rightarrow> progress" where
  "progress_new n = \<lparr>p_next = n, p_matched = 0, p_state = Probe, p_pending_snapshot = 0,
     p_pending_snapshot_age = 0, p_active = False\<rparr>"

record read_state =
  rd_ctx :: u64
  rd_index :: index

record ready =
  rdy_hard_state :: "hard_state option"
  rdy_entries :: "entry list"
  rdy_snapshot :: "snapshot option"
  rdy_messages :: "(node_id \<times> message) list"
  rdy_committed :: "entry list"
  rdy_reads :: "read_state list"

definition ready_default :: ready where
  "ready_default = \<lparr>rdy_hard_state = None, rdy_entries = [], rdy_snapshot = None, rdy_messages = [],
     rdy_committed = [], rdy_reads = []\<rparr>"

definition ready_is_empty :: "ready \<Rightarrow> bool" where
  "ready_is_empty rd \<longleftrightarrow> rdy_hard_state rd = None \<and> rdy_entries rd = [] \<and> rdy_snapshot rd = None \<and>
     rdy_messages rd = [] \<and> rdy_committed rd = [] \<and> rdy_reads rd = []"

definition needs_durability :: "ready \<Rightarrow> bool" where
  "needs_durability rd \<longleftrightarrow> rdy_hard_state rd \<noteq> None \<or> rdy_entries rd \<noteq> [] \<or> rdy_snapshot rd \<noteq> None"

record pending_read =
  pr_ctx :: u64
  pr_index :: index
  pr_acks :: "node_id set"

record raft =
  rf_id :: node_id
  rf_opts :: raft_options
  rf_term :: raft_term
  rf_vote :: "node_id option"
  rf_log :: raft_log
  rf_commit :: index
  rf_applied :: index
  rf_persisted :: index
  rf_role :: role
  rf_leader :: "node_id option"
  rf_votes :: "node_id \<rightharpoonup> bool"
  rf_election_elapsed :: u32
  rf_heartbeat_elapsed :: u32
  rf_election_timeout :: u32
  rf_progress :: "node_id \<rightharpoonup> progress"
  rf_pending_reads :: "pending_read list"
  rf_read_ctx :: u64
  rf_quorum_contact_elapsed :: u32
  rf_committed_own_term :: bool
  rf_pending :: ready
  rf_hard_state_dirty :: bool
  rf_persisted_hard_state :: hard_state
  rf_dirty_from :: "index option"
  rf_rand :: u64

definition raft_new :: "node_id \<Rightarrow> config \<Rightarrow> raft_options \<Rightarrow> raft" where
  "raft_new i cfg opts = \<lparr>rf_id = i, rf_opts = opts, rf_term = 0, rf_vote = None,
     rf_log = log_bootstrap cfg, rf_commit = 0, rf_applied = 0, rf_persisted = 0, rf_role = Follower,
     rf_leader = None, rf_votes = Map.empty, rf_election_elapsed = 0, rf_heartbeat_elapsed = 0,
     rf_election_timeout = o_election_ticks opts, rf_progress = Map.empty, rf_pending_reads = [],
     rf_read_ctx = 0, rf_quorum_contact_elapsed = 0, rf_committed_own_term = False,
     rf_pending = ready_default, rf_hard_state_dirty = False,
     rf_persisted_hard_state = default_hard_state, rf_dirty_from = None,
     rf_rand = (ucast i * 0x9E3779B97F4A7C15) OR 1\<rparr>"

definition stir :: "raft \<Rightarrow> u64 \<times> raft" where
  "stir r =
     (let s = rf_rand r + 0x9E3779B97F4A7C15;
          z = (s XOR drop_bit 30 s) * 0xBF58476D1CE4E5B9;
          z = (z XOR drop_bit 27 z) * 0x94D049BB133111EB
      in (z XOR drop_bit 31 z, r\<lparr>rf_rand := s\<rparr>))"

definition raft_restore ::
  "node_id \<Rightarrow> raft_options \<Rightarrow> hard_state \<Rightarrow> snapshot option \<Rightarrow> entry list \<Rightarrow> config \<Rightarrow> raft" where
  "raft_restore i opts hard snap es boot =
     (let log0 = log_restore snap es;
          log = (if voters (log_config log0) = {} then log_append (log_bootstrap boot) (entries_from log0 1)
                 else log0);
          commit = max (min (hs_commit hard) (last_index log)) (l_snapshot_index log)
      in (raft_new i boot opts)\<lparr>rf_log := log, rf_term := hs_term hard, rf_vote := hs_vote hard,
           rf_commit := commit, rf_applied := l_snapshot_index log, rf_persisted := last_index log,
           rf_persisted_hard_state := \<lparr>hs_term = hs_term hard, hs_vote = hs_vote hard, hs_commit = commit\<rparr>\<rparr>)"

definition raft_hard_state :: "raft \<Rightarrow> hard_state" where
  "raft_hard_state r = \<lparr>hs_term = rf_term r, hs_vote = rf_vote r, hs_commit = rf_commit r\<rparr>"

definition raft_config :: "raft \<Rightarrow> config" where
  "raft_config r = log_config (rf_log r)"

definition lease_valid :: "raft \<Rightarrow> bool" where
  "lease_valid r \<longleftrightarrow> rf_role r = Leader \<and> o_lease_reads (rf_opts r) \<and>
     rf_quorum_contact_elapsed r < o_election_ticks (rf_opts r)"

definition promotable :: "raft \<Rightarrow> bool" where
  "promotable r = is_voter (raft_config r) (rf_id r)"

subsection \<open>Outputs and the leader's machinery\<close>

definition push_message :: "raft \<Rightarrow> node_id \<Rightarrow> message \<Rightarrow> raft" where
  "push_message r to m =
     r\<lparr>rf_pending := (rf_pending r)\<lparr>rdy_messages := rdy_messages (rf_pending r) @ [(to, m)]\<rparr>\<rparr>"

definition send :: "raft \<Rightarrow> node_id \<Rightarrow> body \<Rightarrow> raft" where
  "send r to b = push_message r to (message_new (rf_term r) b)"

definition mark_dirty :: "raft \<Rightarrow> index \<Rightarrow> raft" where
  "mark_dirty r i =
     r\<lparr>rf_dirty_from := Some (case rf_dirty_from r of Some existing \<Rightarrow> min existing i | None \<Rightarrow> i)\<rparr>"

definition append_to_own_log :: "raft \<Rightarrow> entry list \<Rightarrow> raft" where
  "append_to_own_log r es =
     (let r = (case es of [] \<Rightarrow> r | e # _ \<Rightarrow> mark_dirty r (e_index e))
      in r\<lparr>rf_log := log_append (rf_log r) es\<rparr>)"

primrec byte_cut :: "nat \<Rightarrow> nat \<Rightarrow> nat \<Rightarrow> entry list \<Rightarrow> nat" where
  "byte_cut limit acc i [] = i"
| "byte_cut limit acc i (e # es) =
     (let acc = acc + length (entry_to_bytes e)
      in if acc > limit \<and> i > 0 then i else byte_cut limit acc (Suc i) es)"

definition saturating_sub :: "u64 \<Rightarrow> u64 \<Rightarrow> u64" where
  "saturating_sub a b = (if a \<le> b then 0 else a - b)"

definition send_append_to :: "raft \<Rightarrow> node_id \<Rightarrow> raft" where
  "send_append_to r peer =
     (case rf_progress r peer of
        None \<Rightarrow> r
      | Some p \<Rightarrow>
          if p_state p = Snapshotting \<and> p_pending_snapshot p > 0 then r
          else
            let needs_snapshot = p_next p < first_index (rf_log r);
                prev_index = saturating_sub (p_next p) 1;
                flagged = r\<lparr>rf_progress := (rf_progress r)(peer \<mapsto> p\<lparr>p_state := Snapshotting\<rparr>)\<rparr>
            in case term_at (rf_log r) prev_index of
                 None \<Rightarrow> flagged
               | Some prev_term \<Rightarrow>
                   if needs_snapshot then flagged
                   else
                     let from = p_next p;
                         to = min (from + o_max_entries_per_append (rf_opts r)) (last_index (rf_log r) + 1);
                         es = log_slice (rf_log r) from to;
                         cut = byte_cut (o_max_bytes_per_append (rf_opts r)) 0 0 es
                     in send r peer (AppendReq prev_index prev_term (take cut es) (rf_commit r)))"

definition broadcast_append :: "raft \<Rightarrow> raft" where
  "broadcast_append r =
     foldl (\<lambda>r peer. if peer \<noteq> rf_id r then send_append_to r peer else r) r
       (sorted_list_of_set (all_nodes (raft_config r)))"

definition matched_index :: "raft \<Rightarrow> node_id \<Rightarrow> index" where
  "matched_index r i =
     (if i = rf_id r then rf_persisted r
      else case rf_progress r i of Some p \<Rightarrow> p_matched p | None \<Rightarrow> 0)"

definition maybe_advance_commit :: "raft \<Rightarrow> raft" where
  "maybe_advance_commit r =
     (let candidate = quorum_index (raft_config r) (matched_index r)
      in if candidate \<le> rf_commit r then r
         else if term_at (rf_log r) candidate \<noteq> Some (rf_term r) then r
         else r\<lparr>rf_commit := candidate, rf_committed_own_term := True, rf_hard_state_dirty := True,
                rf_quorum_contact_elapsed := 0\<rparr>)"

definition reset_progress_for_config :: "raft \<Rightarrow> raft" where
  "reset_progress_for_config r =
     (let next = last_index (rf_log r) + 1;
          members = all_nodes (raft_config r);
          fresh = (\<lambda>i. if i = rf_id r
                       then (progress_new next)\<lparr>p_matched := rf_persisted r, p_state := Replicate\<rparr>
                       else progress_new next);
          prog = (\<lambda>i. if i \<in> members
                      then Some (case rf_progress r i of Some p \<Rightarrow> p | None \<Rightarrow> fresh i) else None);
          prog' = (case prog (rf_id r) of
                     None \<Rightarrow> prog
                   | Some p \<Rightarrow> prog(rf_id r \<mapsto> p\<lparr>p_matched := rf_persisted r, p_next := rf_persisted r + 1,
                                                 p_state := Replicate, p_active := True\<rparr>))
      in r\<lparr>rf_progress := prog'\<rparr>)"

subsection \<open>Role transitions\<close>

definition become_follower :: "raft \<Rightarrow> raft_term \<Rightarrow> node_id option \<Rightarrow> raft" where
  "become_follower r t ldr =
     (let r = (if t > rf_term r then r\<lparr>rf_term := t, rf_vote := None, rf_hard_state_dirty := True\<rparr> else r)
      in r\<lparr>rf_role := Follower, rf_leader := ldr, rf_election_elapsed := 0, rf_votes := Map.empty,
           rf_progress := Map.empty, rf_pending_reads := [], rf_committed_own_term := False\<rparr>)"

definition tally :: "raft \<Rightarrow> config \<Rightarrow> bool" where
  "tally r cfg = has_quorum cfg {i. rf_votes r i = Some True}"

definition lost :: "raft \<Rightarrow> config \<Rightarrow> bool" where
  "lost r cfg = has_quorum cfg {i. rf_votes r i = Some False}"

definition become_leader :: "raft \<Rightarrow> raft" where
  "become_leader r =
     (let r = r\<lparr>rf_role := Leader, rf_leader := Some (rf_id r), rf_heartbeat_elapsed := 0,
               rf_election_elapsed := 0, rf_quorum_contact_elapsed := 0,
               rf_committed_own_term := False, rf_pending_reads := []\<rparr>;
          r = reset_progress_for_config r;
          noop = \<lparr>e_term = rf_term r, e_index = last_index (rf_log r) + 1, e_kind = Noop\<rparr>
      in broadcast_append (append_to_own_log r [noop]))"

text \<open>The part of \<open>campaign\<close> before the branch on \<open>pre_vote\<close>.\<close>

definition campaign_begin :: "raft \<Rightarrow> raft" where
  "campaign_begin r =
     (let span = ucast (max (o_election_ticks (rf_opts r)) 1) :: u64;
          (draw, r) = stir r
      in r\<lparr>rf_election_timeout := o_election_ticks (rf_opts r) + ucast (draw mod span),
           rf_election_elapsed := 0, rf_votes := Map.empty\<rparr>)"

definition campaign_vote :: "raft \<Rightarrow> raft" where
  "campaign_vote r =
     (let r = campaign_begin r;
          li = last_index (rf_log r); lt = last_term (rf_log r);
          cfg = raft_config r;
          r = r\<lparr>rf_role := Candidate, rf_term := rf_term r + 1, rf_vote := Some (rf_id r),
                rf_leader := None, rf_hard_state_dirty := True,
                rf_votes := (rf_votes r)(rf_id r \<mapsto> True)\<rparr>
      in if tally r cfg then become_leader r
         else foldl (\<lambda>r peer. if peer \<noteq> rf_id r then send r peer (VoteReq li lt) else r) r
                (sorted_list_of_set (all_nodes cfg)))"

definition campaign :: "raft \<Rightarrow> bool \<Rightarrow> raft" where
  "campaign r pre_vote =
     (if pre_vote then
        let r = campaign_begin r;
            li = last_index (rf_log r); lt = last_term (rf_log r);
            cfg = raft_config r;
            poll_term = rf_term r + 1;
            r = r\<lparr>rf_role := PreCandidate, rf_votes := (rf_votes r)(rf_id r \<mapsto> True)\<rparr>
        in if tally r cfg then campaign_vote r
           else foldl (\<lambda>r peer. if peer \<noteq> rf_id r
                         then push_message r peer (message_new poll_term (PreVoteReq li lt)) else r) r
                  (sorted_list_of_set (all_nodes cfg))
      else campaign_vote r)"

definition start_election :: "raft \<Rightarrow> raft" where
  "start_election r = campaign r (o_pre_vote (rf_opts r))"

definition expired :: "u32 \<Rightarrow> progress \<Rightarrow> bool" where
  "expired timeout p \<longleftrightarrow> p_pending_snapshot p \<noteq> 0 \<and> p_pending_snapshot_age p + 1 > timeout"

definition age_snapshot :: "u32 \<Rightarrow> progress \<Rightarrow> progress" where
  "age_snapshot timeout p =
     (if p_pending_snapshot p = 0 then p
      else if p_pending_snapshot_age p + 1 > timeout
      then p\<lparr>p_pending_snapshot := 0, p_pending_snapshot_age := 0, p_state := Probe\<rparr>
      else p\<lparr>p_pending_snapshot_age := p_pending_snapshot_age p + 1\<rparr>)"

definition expire_pending_snapshots :: "raft \<Rightarrow> raft" where
  "expire_pending_snapshots r =
     (let timeout = max (o_election_ticks (rf_opts r)) 1;
          retry = filter (\<lambda>i. expired timeout (the (rf_progress r i))) (sorted_list_of_set (dom (rf_progress r)));
          r = r\<lparr>rf_progress := map_option (age_snapshot timeout) \<circ> rf_progress r\<rparr>
      in foldl send_append_to r retry)"

definition check_quorum :: "raft \<Rightarrow> raft" where
  "check_quorum r =
     (let cfg = raft_config r;
          active = {i \<in> dom (rf_progress r). p_active (the (rf_progress r i)) \<or> i = rf_id r};
          r = r\<lparr>rf_progress := map_option (\<lambda>p. p\<lparr>p_active := False\<rparr>) \<circ> rf_progress r\<rparr>
      in if has_quorum cfg active then r\<lparr>rf_quorum_contact_elapsed := 0\<rparr>
         else become_follower r (rf_term r) None)"

subsection \<open>Inputs from the driver\<close>

definition tick :: "raft \<Rightarrow> u64 \<Rightarrow> raft" where
  "tick r rnd =
     (let r = r\<lparr>rf_rand := rf_rand r XOR rnd, rf_election_elapsed := rf_election_elapsed r + 1\<rparr>
      in if rf_role r = Leader then
           let r = r\<lparr>rf_heartbeat_elapsed := rf_heartbeat_elapsed r + 1,
                     rf_quorum_contact_elapsed := rf_quorum_contact_elapsed r + 1\<rparr>;
               r = (if rf_heartbeat_elapsed r \<ge> o_heartbeat_ticks (rf_opts r)
                    then broadcast_append (r\<lparr>rf_heartbeat_elapsed := 0\<rparr>) else r);
               r = (if rf_election_elapsed r \<ge> o_election_ticks (rf_opts r)
                    then check_quorum (r\<lparr>rf_election_elapsed := 0\<rparr>) else r)
           in expire_pending_snapshots r
         else if promotable r \<and> rf_election_elapsed r \<ge> rf_election_timeout r then start_election r
         else r)"

definition propose :: "raft \<Rightarrow> bytes \<Rightarrow> index option \<times> raft" where
  "propose r data =
     (if rf_role r \<noteq> Leader then (None, r)
      else
        let index = last_index (rf_log r) + 1;
            e = \<lparr>e_term = rf_term r, e_index = index, e_kind = Normal data\<rparr>
        in (Some index, broadcast_append (append_to_own_log r [e])))"

definition is_config_entry :: "entry \<Rightarrow> bool" where
  "is_config_entry e = (case e_kind e of Config _ \<Rightarrow> True | _ \<Rightarrow> False)"

definition propose_config :: "raft \<Rightarrow> config_change \<Rightarrow> index option \<times> raft" where
  "propose_config r change =
     (if rf_role r \<noteq> Leader then (None, r)
      else if (case change of EnterJoint _ _ \<Rightarrow> is_joint (raft_config r) | LeaveJoint \<Rightarrow> \<not> is_joint (raft_config r))
      then (None, r)
      else if list_ex is_config_entry (entries_from (rf_log r) (rf_commit r + 1)) then (None, r)
      else
        let index = last_index (rf_log r) + 1;
            e = \<lparr>e_term = rf_term r, e_index = index, e_kind = Config change\<rparr>
        in (Some index, broadcast_append (reset_progress_for_config (append_to_own_log r [e]))))"

definition set_persisted :: "raft \<Rightarrow> index \<Rightarrow> raft" where
  "set_persisted r i = r\<lparr>rf_persisted := min i (last_index (rf_log r))\<rparr>"

definition step_down :: "raft \<Rightarrow> raft" where
  "step_down r = (if rf_role r = Leader then become_follower r (rf_term r) None else r)"

definition read_index :: "raft \<Rightarrow> u64 option \<times> raft" where
  "read_index r =
     (if rf_role r \<noteq> Leader then (None, r)
      else if \<not> rf_committed_own_term r then (None, r)
      else
        let ctx = rf_read_ctx r + 1;
            r = r\<lparr>rf_read_ctx := ctx\<rparr>;
            index = rf_commit r;
            cfg = raft_config r
        in if has_quorum cfg {rf_id r} then
             (Some ctx, r\<lparr>rf_pending := (rf_pending r)\<lparr>rdy_reads := rdy_reads (rf_pending r) @
                [\<lparr>rd_ctx = ctx, rd_index = index\<rparr>]\<rparr>\<rparr>)
           else
             let r = r\<lparr>rf_pending_reads := rf_pending_reads r @
                       [\<lparr>pr_ctx = ctx, pr_index = index, pr_acks = {rf_id r}\<rparr>]\<rparr>
             in (Some ctx,
                 foldl (\<lambda>r peer.
                     if peer \<noteq> rf_id r then
                       let matched = (case rf_progress r peer of Some p \<Rightarrow> p_matched p | None \<Rightarrow> 0)
                       in send r peer (HeartbeatReq (min (rf_commit r) matched) ctx)
                     else r) r (sorted_list_of_set (all_nodes cfg))))"

definition transfer_leadership :: "raft \<Rightarrow> node_id \<Rightarrow> bool \<times> raft" where
  "transfer_leadership r target =
     (if rf_role r \<noteq> Leader \<or> target = rf_id r then (False, r)
      else if \<not> is_voter (raft_config r) target then (False, r)
      else (True, send r target TimeoutNow))"

subsection \<open>Election handlers\<close>

definition handle_pre_vote_req :: "raft \<Rightarrow> node_id \<Rightarrow> raft_term \<Rightarrow> index \<Rightarrow> raft_term \<Rightarrow> raft" where
  "handle_pre_vote_req r from poll_term li lt =
     (let believes_in_leader = rf_leader r \<noteq> None \<and> rf_election_elapsed r < o_election_ticks (rf_opts r);
          granted = poll_term > rf_term r \<and> is_up_to_date (rf_log r) lt li \<and> \<not> believes_in_leader
      in push_message r from (message_new poll_term (PreVoteResp granted)))"

definition handle_pre_vote_resp :: "raft \<Rightarrow> node_id \<Rightarrow> raft_term \<Rightarrow> bool \<Rightarrow> raft" where
  "handle_pre_vote_resp r from resp_term granted =
     (if rf_role r \<noteq> PreCandidate then r
      else if \<not> granted \<and> resp_term > rf_term r + 1 then become_follower r resp_term None
      else
        let r = r\<lparr>rf_votes := (rf_votes r)(from \<mapsto> granted)\<rparr>;
            cfg = raft_config r
        in if tally r cfg then campaign r False
           else if lost r cfg then r\<lparr>rf_role := Follower\<rparr>
           else r)"

definition handle_vote_req :: "raft \<Rightarrow> node_id \<Rightarrow> index \<Rightarrow> raft_term \<Rightarrow> raft" where
  "handle_vote_req r from li lt =
     (let can_vote = (case rf_vote r of None \<Rightarrow> True | Some v \<Rightarrow> v = from);
          granted = can_vote \<and> is_up_to_date (rf_log r) lt li;
          r = (if granted
               then r\<lparr>rf_vote := Some from, rf_hard_state_dirty := True, rf_election_elapsed := 0\<rparr> else r)
      in send r from (VoteResp granted))"

definition handle_vote_resp :: "raft \<Rightarrow> node_id \<Rightarrow> bool \<Rightarrow> raft" where
  "handle_vote_resp r from granted =
     (if rf_role r \<noteq> Candidate then r
      else
        let r = r\<lparr>rf_votes := (rf_votes r)(from \<mapsto> granted)\<rparr>;
            cfg = raft_config r
        in if tally r cfg then become_leader r
           else if lost r cfg then become_follower r (rf_term r) None
           else r)"

subsection \<open>Replication handlers\<close>

text \<open>How every handler of a leader's message begins: defer to the leader, restart the clock.\<close>

definition defer_to :: "raft \<Rightarrow> node_id \<Rightarrow> raft" where
  "defer_to r from =
     (let r = (if rf_role r \<noteq> Follower then become_follower r (rf_term r) (Some from) else r)
      in r\<lparr>rf_leader := Some from, rf_election_elapsed := 0\<rparr>)"

definition handle_append :: "raft \<Rightarrow> node_id \<Rightarrow> index \<Rightarrow> raft_term \<Rightarrow> entry list \<Rightarrow> index \<Rightarrow> raft" where
  "handle_append r from prev_index prev_term es leader_commit =
     (let r = defer_to r from
      in if prev_index < l_snapshot_index (rf_log r)
         then send r from (AppendResp True (l_snapshot_index (rf_log r)) 0 0)
         else case term_at (rf_log r) prev_index of
           None \<Rightarrow> send r from (AppendResp False 0 (last_index (rf_log r) + 1) 0)
         | Some t \<Rightarrow>
             if t \<noteq> prev_term
             then send r from (AppendResp False 0 (find_conflict_by_term (rf_log r) prev_index t) t)
             else
               let (last_new, log) = log_merge (rf_log r) prev_index es;
                   r = r\<lparr>rf_log := log\<rparr>;
                   r = (case es of [] \<Rightarrow> r | e # _ \<Rightarrow> mark_dirty r (e_index e));
                   new_commit = min leader_commit last_new;
                   r = (if new_commit > rf_commit r
                        then r\<lparr>rf_commit := new_commit, rf_hard_state_dirty := True\<rparr> else r);
                   r = (if rf_commit r > last_index (rf_log r)
                        then r\<lparr>rf_commit := last_index (rf_log r), rf_hard_state_dirty := True\<rparr> else r)
               in send r from (AppendResp True last_new 0 0))"

definition handle_append_resp :: "raft \<Rightarrow> node_id \<Rightarrow> bool \<Rightarrow> index \<Rightarrow> index \<Rightarrow> raft_term \<Rightarrow> raft" where
  "handle_append_resp r from success match_index conflict_index conflict_term =
     (if rf_role r \<noteq> Leader then r
      else
        let last = last_index (rf_log r)
        in case rf_progress r from of
             None \<Rightarrow> r
           | Some p \<Rightarrow>
               let p = p\<lparr>p_active := True\<rparr>
               in if success then
                    let p = (if match_index \<ge> p_matched p
                             then p\<lparr>p_matched := match_index, p_next := match_index + 1, p_state := Replicate,
                                    p_pending_snapshot := 0, p_pending_snapshot_age := 0\<rparr> else p);
                        r = maybe_advance_commit (r\<lparr>rf_progress := (rf_progress r)(from \<mapsto> p)\<rparr>)
                    in if (case rf_progress r from of Some p \<Rightarrow> p_matched p < last | None \<Rightarrow> False)
                       then send_append_to r from else r
                  else
                    let next = (if conflict_term > 0
                                then find_conflict_by_term (rf_log r) conflict_index conflict_term + 1
                                else max conflict_index 1);
                        p = p\<lparr>p_next := min (max next (p_matched p + 1)) (last + 1), p_state := Probe\<rparr>
                    in send_append_to (r\<lparr>rf_progress := (rf_progress r)(from \<mapsto> p)\<rparr>) from)"

definition handle_snapshot :: "raft \<Rightarrow> node_id \<Rightarrow> snapshot \<Rightarrow> raft" where
  "handle_snapshot r from snap =
     (let r = defer_to r from
      in if sn_last_index snap \<le> rf_commit r then send r from (SnapshotResp True (rf_commit r))
         else
           let index = sn_last_index snap;
               r = r\<lparr>rf_log := install_snapshot (rf_log r) snap, rf_commit := max (rf_commit r) index,
                     rf_applied := index, rf_hard_state_dirty := True\<rparr>;
               r = r\<lparr>rf_dirty_from := (if last_index (rf_log r) > index then Some (index + 1) else None),
                     rf_pending := (rf_pending r)\<lparr>rdy_entries := [], rdy_snapshot := Some snap\<rparr>\<rparr>
           in send r from (SnapshotResp True index))"

definition handle_snapshot_resp :: "raft \<Rightarrow> node_id \<Rightarrow> bool \<Rightarrow> index \<Rightarrow> raft" where
  "handle_snapshot_resp r from success index =
     (if rf_role r \<noteq> Leader then r
      else case rf_progress r from of
        None \<Rightarrow> r
      | Some p \<Rightarrow>
          let p = p\<lparr>p_active := True, p_state := Probe, p_pending_snapshot := 0, p_pending_snapshot_age := 0\<rparr>
          in if success then
               let m = max (p_matched p) index
               in maybe_advance_commit (r\<lparr>rf_progress := (rf_progress r)(from \<mapsto> p\<lparr>p_matched := m, p_next := m + 1\<rparr>)\<rparr>)
             else r\<lparr>rf_progress := (rf_progress r)(from \<mapsto> p)\<rparr>)"

definition handle_heartbeat :: "raft \<Rightarrow> node_id \<Rightarrow> index \<Rightarrow> u64 \<Rightarrow> raft" where
  "handle_heartbeat r from commit ctx =
     (let r = defer_to r from;
          safe = min commit (last_index (rf_log r));
          r = (if safe > rf_commit r then r\<lparr>rf_commit := safe, rf_hard_state_dirty := True\<rparr> else r)
      in send r from (HeartbeatResp ctx))"

definition handle_heartbeat_resp :: "raft \<Rightarrow> node_id \<Rightarrow> u64 \<Rightarrow> raft" where
  "handle_heartbeat_resp r from ctx =
     (if rf_role r \<noteq> Leader then r
      else
        let r = (case rf_progress r from of
                   None \<Rightarrow> r
                 | Some p \<Rightarrow> r\<lparr>rf_progress := (rf_progress r)(from \<mapsto> p\<lparr>p_active := True\<rparr>)\<rparr>);
            cfg = raft_config r;
            hit = (\<lambda>p. pr_ctx p = ctx \<or> ctx = 0);
            reads = map (\<lambda>p. if hit p then p\<lparr>pr_acks := insert from (pr_acks p)\<rparr> else p) (rf_pending_reads r);
            confirmed = filter (\<lambda>p. hit p \<and> has_quorum cfg (pr_acks p)) reads;
            r = r\<lparr>rf_pending_reads := reads\<rparr>
        in if confirmed = [] then r
           else r\<lparr>rf_pending_reads := filter (\<lambda>p. pr_ctx p \<notin> pr_ctx ` set confirmed) reads,
                  rf_pending := (rf_pending r)\<lparr>rdy_reads := rdy_reads (rf_pending r) @
                    map (\<lambda>p. \<lparr>rd_ctx = pr_ctx p, rd_index = pr_index p\<rparr>) confirmed\<rparr>,
                  rf_quorum_contact_elapsed := 0\<rparr>)"

subsection \<open>The step function\<close>

definition step_stale :: "raft \<Rightarrow> node_id \<Rightarrow> body \<Rightarrow> raft" where
  "step_stale r from b =
     (case b of
        AppendReq _ _ _ _ \<Rightarrow> send r from (AppendResp False 0 0 0)
      | HeartbeatReq _ _ \<Rightarrow> send r from (AppendResp False 0 0 0)
      | PreVoteReq _ _ \<Rightarrow> send r from (PreVoteResp False)
      | _ \<Rightarrow> r)"

definition step_body :: "raft \<Rightarrow> node_id \<Rightarrow> message \<Rightarrow> raft" where
  "step_body r from m =
     (case m_body m of
        PreVoteReq li lt \<Rightarrow> handle_pre_vote_req r from (m_term m) li lt
      | PreVoteResp granted \<Rightarrow> handle_pre_vote_resp r from (m_term m) granted
      | VoteReq li lt \<Rightarrow> handle_vote_req r from li lt
      | VoteResp granted \<Rightarrow> handle_vote_resp r from granted
      | AppendReq pi pt es c \<Rightarrow> handle_append r from pi pt es c
      | AppendResp success mi ci ct \<Rightarrow> handle_append_resp r from success mi ci ct
      | SnapshotReq snap \<Rightarrow> handle_snapshot r from snap
      | SnapshotResp success i \<Rightarrow> handle_snapshot_resp r from success i
      | HeartbeatReq c ctx \<Rightarrow> handle_heartbeat r from c ctx
      | HeartbeatResp ctx \<Rightarrow> handle_heartbeat_resp r from ctx
      | TimeoutNow \<Rightarrow> if promotable r then campaign r False else r)"

definition step :: "raft \<Rightarrow> node_id \<Rightarrow> message \<Rightarrow> raft" where
  "step r from m =
     (let r = (if m_term m > rf_term r \<and> \<not> is_pre_vote m
               then become_follower r (m_term m)
                      (case m_body m of VoteReq _ _ \<Rightarrow> None | VoteResp _ \<Rightarrow> None | _ \<Rightarrow> Some from)
               else r)
      in if m_term m < rf_term r then step_stale r from (m_body m) else step_body r from m)"

subsection \<open>Outputs to the driver\<close>

definition take_ready :: "raft \<Rightarrow> ready \<times> raft" where
  "take_ready r =
     (let rd = rf_pending r;
          r = r\<lparr>rf_pending := ready_default\<rparr>;
          (rd, r) = (case rf_dirty_from r of
                       None \<Rightarrow> (rd, r)
                     | Some from \<Rightarrow>
                         let from = max from (first_index (rf_log r))
                         in (rd\<lparr>rdy_entries := entries_from (rf_log r) from\<rparr>, r\<lparr>rf_dirty_from := Some from\<rparr>));
          (rd, r) = (if rf_hard_state_dirty r then
                       let hs = raft_hard_state r;
                           must_persist = hs_term hs \<noteq> hs_term (rf_persisted_hard_state r) \<or>
                                          hs_vote hs \<noteq> hs_vote (rf_persisted_hard_state r)
                       in (if must_persist then rd\<lparr>rdy_hard_state := Some hs\<rparr> else rd,
                           r\<lparr>rf_hard_state_dirty := False\<rparr>)
                     else (rd, r));
          r = r\<lparr>rf_commit := min (rf_commit r) (last_index (rf_log r)),
                rf_persisted := min (rf_persisted r) (last_index (rf_log r))\<rparr>;
          rd = (if rf_commit r > rf_applied r
                then rd\<lparr>rdy_committed := log_slice (rf_log r) (rf_applied r + 1) (rf_commit r + 1)\<rparr> else rd)
      in (rd, r))"

definition advance :: "raft \<Rightarrow> ready \<Rightarrow> raft" where
  "advance r rd =
     (let r = (case rdy_hard_state rd of None \<Rightarrow> r | Some hs \<Rightarrow> r\<lparr>rf_persisted_hard_state := hs\<rparr>);
          r = (case rf_progress r (rf_id r) of
                 None \<Rightarrow> r
               | Some p \<Rightarrow> r\<lparr>rf_progress := (rf_progress r)(rf_id r \<mapsto>
                    p\<lparr>p_matched := rf_persisted r, p_next := rf_persisted r + 1\<rparr>)\<rparr>);
          r = (if rf_role r = Leader then maybe_advance_commit r else r);
          r = (if rdy_committed rd = [] then r else r\<lparr>rf_applied := e_index (last (rdy_committed rd))\<rparr>)
      in r\<lparr>rf_dirty_from := None\<rparr>)"

definition truncate_to :: "raft \<Rightarrow> index option" where
  "truncate_to r = rf_dirty_from r"

definition snapshot_at_applied :: "raft \<Rightarrow> bytes \<Rightarrow> snapshot option" where
  "snapshot_at_applied r data =
     map_option (\<lambda>t. \<lparr>sn_last_index = rf_applied r, sn_last_term = t, sn_config = raft_config r, sn_data = data\<rparr>)
       (term_at (rf_log r) (rf_applied r))"

definition compact :: "raft \<Rightarrow> snapshot \<Rightarrow> raft" where
  "compact r snap = r\<lparr>rf_log := compact_through (rf_log r) (sn_last_index snap) (sn_last_term snap) (sn_config snap)\<rparr>"

definition should_snapshot :: "raft \<Rightarrow> bool" where
  "should_snapshot r \<longleftrightarrow>
     saturating_sub (rf_applied r) (l_snapshot_index (rf_log r)) \<ge> o_snapshot_interval (rf_opts r)"

definition followers_needing_snapshot :: "raft \<Rightarrow> node_id list" where
  "followers_needing_snapshot r =
     filter (\<lambda>i. i \<noteq> rf_id r \<and> p_state (the (rf_progress r i)) = Snapshotting \<and>
                 p_pending_snapshot (the (rf_progress r i)) = 0)
       (sorted_list_of_set (dom (rf_progress r)))"

definition send_snapshot :: "raft \<Rightarrow> node_id \<Rightarrow> snapshot \<Rightarrow> raft" where
  "send_snapshot r peer snap =
     (let r = (case rf_progress r peer of
                 None \<Rightarrow> r
               | Some p \<Rightarrow> r\<lparr>rf_progress := (rf_progress r)(peer \<mapsto> p\<lparr>p_pending_snapshot := sn_last_index snap,
                    p_pending_snapshot_age := 0, p_state := Snapshotting\<rparr>)\<rparr>)
      in send r peer (SnapshotReq snap))"

definition is_enter_joint :: "entry \<Rightarrow> bool" where
  "is_enter_joint e = (case e_kind e of Config (EnterJoint _ _) \<Rightarrow> True | _ \<Rightarrow> False)"

definition maybe_finish_config_change :: "raft \<Rightarrow> index option \<times> raft" where
  "maybe_finish_config_change r =
     (if rf_role r \<noteq> Leader then (None, r)
      else if \<not> is_joint (raft_config r) then (None, r)
      else if \<not> list_ex is_enter_joint (log_slice (rf_log r) (l_snapshot_index (rf_log r) + 1) (rf_commit r + 1))
      then (None, r)
      else propose_config r LeaveJoint)"

end
