(* ===== verification/Vote_Protocol.thy ===== *)
theory Vote_Protocol
  imports Raft_Core
begin

section \<open>The election protocol as a specification\<close>

text \<open>
  What an election promises, without logs, timers and replication: each node has a ballot
  (its term and vote), a volatile tally and an outbox of vote traffic; a flush makes the
  ballot durable and releases the outbox; a crash brings back the durable ballot. The state
  machine of \<open>raft.rs\<close> is shown to simulate this system in \<open>Election\<close>.

  The network never loses what was sent from the specification's point of view: a message
  that is not delivered, delivered late or delivered twice is a request or a response that
  is used never, late or twice.
\<close>

type_synonym ballot = "raft_term \<times> node_id option"

definition ballot_le :: "ballot \<Rightarrow> ballot \<Rightarrow> bool" where
  "ballot_le a b \<longleftrightarrow> fst a < fst b \<or> fst a = fst b \<and> (snd a = None \<or> snd a = snd b)"

definition pledged :: "ballot \<Rightarrow> node_id \<Rightarrow> raft_term \<Rightarrow> bool" where
  "pledged b c t \<longleftrightarrow> t < fst b \<or> fst b = t \<and> snd b = Some c"

lemma ballot_le_refl [simp, intro]: "ballot_le a a"
  by (simp add: ballot_le_def)

lemma ballot_le_trans: "ballot_le a b \<Longrightarrow> ballot_le b c \<Longrightarrow> ballot_le a c"
  by (auto simp: ballot_le_def)

lemma ballot_le_antisym: "ballot_le a b \<Longrightarrow> ballot_le b a \<Longrightarrow> a = b"
  by (auto simp: ballot_le_def prod_eq_iff)

lemma pledged_mono: "pledged a c t \<Longrightarrow> ballot_le a b \<Longrightarrow> pledged b c t"
  by (auto simp: pledged_def ballot_le_def prod_eq_iff)

record voter =
  ev_id :: node_id
  ev_ballot :: ballot
  ev_dirty :: bool
  ev_role :: role
  ev_granted :: "node_id set"
  ev_resp :: "(node_id \<times> raft_term) set"
  ev_req :: "raft_term set"
  ev_saved :: ballot

abbreviation ev_term :: "voter \<Rightarrow> raft_term" where
  "ev_term e \<equiv> fst (ev_ballot e)"

text \<open>
  The moves of one node, in a configuration, given the vote requests (candidate, term) and
  the responses to this node (voter, term) that were sent.
\<close>

inductive vote_move ::
  "config \<Rightarrow> (node_id \<times> raft_term) set \<Rightarrow> (node_id \<times> raft_term) set \<Rightarrow> voter \<Rightarrow> voter \<Rightarrow> bool"
  for C reqs resps where
  soil: "vote_move C reqs resps e (e\<lparr>ev_dirty := True\<rparr>)"
| stand_down: "vote_move C reqs resps e (e\<lparr>ev_role := Follower, ev_granted := G\<rparr>)"
| adopt: "ev_term e < t \<Longrightarrow>
    vote_move C reqs resps e
      (e\<lparr>ev_ballot := (t, None), ev_dirty := True, ev_role := Follower, ev_granted := G\<rparr>)"
| poll: "is_voter C (ev_id e) \<Longrightarrow>
    vote_move C reqs resps e (e\<lparr>ev_role := PreCandidate, ev_granted := G\<rparr>)"
| repoll: "ev_role e = PreCandidate \<Longrightarrow> vote_move C reqs resps e (e\<lparr>ev_granted := G\<rparr>)"
| stand: "is_voter C (ev_id e) \<or> ev_role e = PreCandidate \<Longrightarrow> ev_term e < ev_term e + 1 \<Longrightarrow>
    vote_move C reqs resps e
      (e\<lparr>ev_ballot := (ev_term e + 1, Some (ev_id e)), ev_dirty := True, ev_role := Candidate,
        ev_granted := {ev_id e}\<rparr>)"
| ask: "ev_role e = Candidate \<Longrightarrow> ev_dirty e \<Longrightarrow>
    vote_move C reqs resps e (e\<lparr>ev_req := insert (ev_term e) (ev_req e)\<rparr>)"
| count_yes: "ev_role e = Candidate \<Longrightarrow> (n, ev_term e) \<in> resps \<Longrightarrow>
    vote_move C reqs resps e (e\<lparr>ev_granted := insert n (ev_granted e)\<rparr>)"
| count_no: "ev_role e = Candidate \<Longrightarrow>
    vote_move C reqs resps e (e\<lparr>ev_granted := ev_granted e - {n}\<rparr>)"
| win: "ev_role e = Candidate \<Longrightarrow> has_quorum C (ev_granted e) \<Longrightarrow>
    vote_move C reqs resps e (e\<lparr>ev_role := Leader\<rparr>)"
| grant: "snd (ev_ballot e) = None \<or> snd (ev_ballot e) = Some c \<Longrightarrow> (c, ev_term e) \<in> reqs \<Longrightarrow>
    vote_move C reqs resps e
      (e\<lparr>ev_ballot := (ev_term e, Some c), ev_dirty := True, ev_resp := insert (c, ev_term e) (ev_resp e)\<rparr>)"

lemma vote_move_frame:
  "vote_move C reqs resps e e' \<Longrightarrow> ev_id e' = ev_id e \<and> ev_saved e' = ev_saved e"
  by (induction rule: vote_move.induct) simp_all

lemma vote_move_ballot: "vote_move C reqs resps e e' \<Longrightarrow> ballot_le (ev_ballot e) (ev_ballot e')"
  by (induction rule: vote_move.induct) (auto simp: ballot_le_def)

record vote_system =
  vs_node :: "node_id \<Rightarrow> voter"
  vs_durable :: "node_id \<Rightarrow> ballot"
  vs_reqs :: "(node_id \<times> raft_term) set"
  vs_resps :: "(node_id \<times> node_id \<times> raft_term) set"
  vs_elected :: "(node_id \<times> raft_term) set"

definition resps_to :: "vote_system \<Rightarrow> node_id \<Rightarrow> (node_id \<times> raft_term) set" where
  "resps_to s i = {(n, t). (n, i, t) \<in> vs_resps s}"

definition fresh_voter :: "node_id \<Rightarrow> ballot \<Rightarrow> voter" where
  "fresh_voter i b = \<lparr>ev_id = i, ev_ballot = b, ev_dirty = False, ev_role = Follower, ev_granted = {},
     ev_resp = {}, ev_req = {}, ev_saved = b\<rparr>"

definition leads :: "node_id \<Rightarrow> voter \<Rightarrow> (node_id \<times> raft_term) set" where
  "leads i e = (if ev_role e = Leader then {(i, ev_term e)} else {})"

definition to_save :: "voter \<Rightarrow> bool" where
  "to_save e \<longleftrightarrow> ev_dirty e \<and> ev_ballot e \<noteq> ev_saved e"

definition vote_init :: "vote_system \<Rightarrow> bool" where
  "vote_init s \<longleftrightarrow> vs_node s = (\<lambda>i. fresh_voter i (0, None)) \<and> vs_durable s = (\<lambda>i. (0, None)) \<and>
     vs_reqs s = {} \<and> vs_resps s = {} \<and> vs_elected s = {}"

inductive vote_step :: "config \<Rightarrow> vote_system \<Rightarrow> vote_system \<Rightarrow> bool" for C where
  move: "vote_move C (vs_reqs s) (resps_to s i) (vs_node s i) e \<Longrightarrow>
    vote_step C s (s\<lparr>vs_node := (vs_node s)(i := e), vs_elected := vs_elected s \<union> leads i e\<rparr>)"
| flush: "vote_step C s
    (s\<lparr>vs_node := (vs_node s)(i := (vs_node s i)\<lparr>ev_dirty := False, ev_resp := {}, ev_req := {},
          ev_saved := if to_save (vs_node s i) then ev_ballot (vs_node s i) else ev_saved (vs_node s i)\<rparr>),
       vs_durable := (vs_durable s)(i := if to_save (vs_node s i) then ev_ballot (vs_node s i) else vs_durable s i),
       vs_reqs := vs_reqs s \<union> {i} \<times> ev_req (vs_node s i),
       vs_resps := vs_resps s \<union> {i} \<times> ev_resp (vs_node s i)\<rparr>)"
| fail: "d = vs_durable s i \<or> to_save (vs_node s i) \<and> d = ev_ballot (vs_node s i) \<Longrightarrow> vote_step C s
    (s\<lparr>vs_node := (vs_node s)(i := (vs_node s i)\<lparr>ev_dirty := False, ev_resp := {}, ev_req := {}\<rparr>),
       vs_durable := (vs_durable s)(i := d)\<rparr>)"
| crash: "vote_step C s (s\<lparr>vs_node := (vs_node s)(i := fresh_voter i (vs_durable s i))\<rparr>)"

subsection \<open>The invariant\<close>

text \<open>A node's pledges: the votes it gave away and, as a candidate that asked, its own.\<close>

definition sent_pledge :: "vote_system \<Rightarrow> node_id \<Rightarrow> node_id \<Rightarrow> raft_term \<Rightarrow> bool" where
  "sent_pledge s j c t \<longleftrightarrow> (j, c, t) \<in> vs_resps s \<or> c = j \<and> (j, t) \<in> vs_reqs s"

definition held_pledge :: "voter \<Rightarrow> node_id \<Rightarrow> node_id \<Rightarrow> raft_term \<Rightarrow> bool" where
  "held_pledge e j c t \<longleftrightarrow> (c, t) \<in> ev_resp e \<or> c = j \<and> t \<in> ev_req e"

definition any_pledge :: "vote_system \<Rightarrow> voter \<Rightarrow> node_id \<Rightarrow> node_id \<Rightarrow> raft_term \<Rightarrow> bool" where
  "any_pledge s e j c t \<longleftrightarrow> sent_pledge s j c t \<or> held_pledge e j c t"

definition node_inv :: "config \<Rightarrow> vote_system \<Rightarrow> node_id \<Rightarrow> voter \<Rightarrow> ballot \<Rightarrow> bool" where
  "node_inv C s j e d \<longleftrightarrow> ev_id e = j \<and>
     ballot_le (ev_saved e) d \<and> ballot_le d (ev_ballot e) \<and>
     (\<forall>c t. sent_pledge s j c t \<longrightarrow> pledged d c t) \<and>
     (\<forall>c t. held_pledge e j c t \<longrightarrow> pledged (ev_ballot e) c t \<and> (ev_dirty e \<or> pledged d c t)) \<and>
     (\<forall>c c' t. any_pledge s e j c t \<longrightarrow> any_pledge s e j c' t \<longrightarrow> c = c') \<and>
     (\<forall>c t. (c, t) \<in> ev_resp e \<longrightarrow> (c, t) \<in> vs_reqs s) \<and>
     (ev_req e \<noteq> {} \<longrightarrow> is_voter C j) \<and>
     (ev_role e \<noteq> Follower \<longrightarrow> is_voter C j) \<and>
     (ev_role e \<in> {Candidate, Leader} \<longrightarrow> snd (ev_ballot e) = Some j \<and>
        (\<forall>n\<in>ev_granted e. n = j \<or> (n, j, ev_term e) \<in> vs_resps s)) \<and>
     (ev_role e = Leader \<longrightarrow> (j, ev_term e) \<in> vs_elected s)"

definition won :: "config \<Rightarrow> vote_system \<Rightarrow> node_id \<Rightarrow> raft_term \<Rightarrow> bool" where
  "won C s i t \<longleftrightarrow> is_voter C i \<and> (\<exists>Q. has_quorum C Q \<and> (\<forall>n\<in>Q. n = i \<or> (n, i, t) \<in> vs_resps s))"

definition vote_inv :: "config \<Rightarrow> vote_system \<Rightarrow> bool" where
  "vote_inv C s \<longleftrightarrow>
     (\<forall>j. node_inv C s j (vs_node s j) (vs_durable s j)) \<and>
     (\<forall>n c t. (n, c, t) \<in> vs_resps s \<longrightarrow> (c, t) \<in> vs_reqs s) \<and>
     (\<forall>i t. (i, t) \<in> vs_reqs s \<longrightarrow> is_voter C i) \<and>
     (\<forall>i t. (i, t) \<in> vs_elected s \<longrightarrow> won C s i t)"

lemma node_invI:
  assumes "ev_id e = j" and "ballot_le (ev_saved e) d" and "ballot_le d (ev_ballot e)"
    and "\<And>c t. sent_pledge s j c t \<Longrightarrow> pledged d c t"
    and "\<And>c t. held_pledge e j c t \<Longrightarrow> pledged (ev_ballot e) c t"
    and "\<And>c t. held_pledge e j c t \<Longrightarrow> ev_dirty e \<or> pledged d c t"
    and "\<And>c c' t. any_pledge s e j c t \<Longrightarrow> any_pledge s e j c' t \<Longrightarrow> c = c'"
    and "\<And>c t. (c, t) \<in> ev_resp e \<Longrightarrow> (c, t) \<in> vs_reqs s"
    and "ev_req e \<noteq> {} \<Longrightarrow> is_voter C j"
    and "ev_role e \<noteq> Follower \<Longrightarrow> is_voter C j"
    and "ev_role e \<in> {Candidate, Leader} \<Longrightarrow> snd (ev_ballot e) = Some j"
    and "\<And>n. ev_role e \<in> {Candidate, Leader} \<Longrightarrow> n \<in> ev_granted e \<Longrightarrow> n = j \<or> (n, j, ev_term e) \<in> vs_resps s"
    and "ev_role e = Leader \<Longrightarrow> (j, ev_term e) \<in> vs_elected s"
  shows "node_inv C s j e d"
  unfolding node_inv_def using assms by (intro conjI allI impI ballI) simp_all

lemma node_invD:
  assumes "node_inv C s j e d"
  shows "ev_id e = j" and "ballot_le (ev_saved e) d" and "ballot_le d (ev_ballot e)"
    and "\<And>c t. sent_pledge s j c t \<Longrightarrow> pledged d c t"
    and "\<And>c t. held_pledge e j c t \<Longrightarrow> pledged (ev_ballot e) c t"
    and "\<And>c t. held_pledge e j c t \<Longrightarrow> ev_dirty e \<or> pledged d c t"
    and "\<And>c c' t. any_pledge s e j c t \<Longrightarrow> any_pledge s e j c' t \<Longrightarrow> c = c'"
    and "\<And>c t. (c, t) \<in> ev_resp e \<Longrightarrow> (c, t) \<in> vs_reqs s"
    and "ev_req e \<noteq> {} \<Longrightarrow> is_voter C j"
    and "ev_role e \<noteq> Follower \<Longrightarrow> is_voter C j"
    and "ev_role e \<in> {Candidate, Leader} \<Longrightarrow> snd (ev_ballot e) = Some j"
    and "\<And>n. ev_role e \<in> {Candidate, Leader} \<Longrightarrow> n \<in> ev_granted e \<Longrightarrow> n = j \<or> (n, j, ev_term e) \<in> vs_resps s"
    and "ev_role e = Leader \<Longrightarrow> (j, ev_term e) \<in> vs_elected s"
  using assms unfolding node_inv_def by simp_all

lemma node_inv_mono:
  assumes "node_inv C s j e d" and "\<And>c t. sent_pledge s' j c t \<longleftrightarrow> sent_pledge s j c t"
    and "vs_reqs s \<subseteq> vs_reqs s'" and "vs_resps s \<subseteq> vs_resps s'" and "vs_elected s \<subseteq> vs_elected s'"
  shows "node_inv C s' j e d"
proof -
  note D = node_invD [OF assms(1)]
  have a: "any_pledge s' e j = any_pledge s e j" using assms(2) by (simp add: any_pledge_def fun_eq_iff)
  show ?thesis
  proof (rule node_invI)
    show "n = j \<or> (n, j, ev_term e) \<in> vs_resps s'" if "ev_role e \<in> {Candidate, Leader}" "n \<in> ev_granted e" for n
      using D(12) [OF that] assms(4) by blast
  qed (use D(1-11,13) assms(2,3,5) a in \<open>auto simp only:\<close>)
qed

lemma pledge_of_ballot:
  assumes "node_inv C s j e d" and "any_pledge s e j c (ev_term e)"
  shows "snd (ev_ballot e) = Some c"
proof -
  have "pledged (ev_ballot e) c (ev_term e)"
    using assms(2) node_invD(3-5) [OF assms(1)] pledged_mono unfolding any_pledge_def by blast
  then show ?thesis by (auto simp: pledged_def)
qed

text \<open>
  A move keeps the node's part of the invariant. The moves that make a new pledge are the
  interesting ones: the pledge agrees with the ballot, so it agrees with every earlier
  pledge of the same term.
\<close>

lemma node_inv_same_pledges:
  assumes "node_inv C s j e d" and "ev_id e' = j" and "ev_saved e' = ev_saved e"
    and "ballot_le (ev_ballot e) (ev_ballot e')"
    and "ev_resp e' = ev_resp e" and "ev_req e' = ev_req e" and "ev_dirty e \<Longrightarrow> ev_dirty e'"
    and "ev_role e' \<noteq> Follower \<Longrightarrow> is_voter C j"
    and "ev_role e' \<in> {Candidate, Leader} \<Longrightarrow> snd (ev_ballot e') = Some j"
    and "\<And>n. ev_role e' \<in> {Candidate, Leader} \<Longrightarrow> n \<in> ev_granted e' \<Longrightarrow> n = j \<or> (n, j, ev_term e') \<in> vs_resps s"
    and "ev_role e' = Leader \<Longrightarrow> (j, ev_term e') \<in> vs_elected s"
  shows "node_inv C s j e' d"
proof -
  note D = node_invD [OF assms(1)]
  have h: "held_pledge e' j = held_pledge e j" using assms(5,6) by (simp add: held_pledge_def fun_eq_iff)
  show ?thesis
  proof (rule node_invI)
    show "ballot_le d (ev_ballot e')" by (rule ballot_le_trans [OF D(3) assms(4)])
    show "pledged (ev_ballot e') c t" if "held_pledge e' j c t" for c t
      using D(5) [of c t] that assms(4) pledged_mono unfolding h by blast
    show "ev_dirty e' \<or> pledged d c t" if "held_pledge e' j c t" for c t
      using D(6) [of c t] that assms(7) unfolding h by blast
    show "c = c'" if "any_pledge s e' j c t" "any_pledge s e' j c' t" for c c' t
      using D(7) [of c t c'] that unfolding any_pledge_def h by blast
  qed (use assms(2-) D(2,4,8,9) in \<open>simp_all\<close>)
qed

lemma node_inv_new_pledge:
  assumes "node_inv C s j e d" and "ev_id e' = j" and "ev_saved e' = ev_saved e"
    and "ev_ballot e' = (ev_term e, Some c)" and "snd (ev_ballot e) = None \<or> snd (ev_ballot e) = Some c"
    and "\<And>c' t. held_pledge e' j c' t \<longleftrightarrow> held_pledge e j c' t \<or> c' = c \<and> t = ev_term e"
    and "ev_dirty e'" and "ev_role e' = ev_role e" and "ev_granted e' = ev_granted e"
    and "\<And>c t. (c, t) \<in> ev_resp e' \<Longrightarrow> (c, t) \<in> vs_reqs s"
    and "ev_req e' \<noteq> {} \<Longrightarrow> is_voter C j"
  shows "node_inv C s j e' d"
proof -
  note D = node_invD [OF assms(1)]
  have le: "ballot_le (ev_ballot e) (ev_ballot e')" using assms(4,5) by (auto simp: ballot_le_def)
  have any: "any_pledge s e' j c' t \<longleftrightarrow> any_pledge s e j c' t \<or> c' = c \<and> t = ev_term e" for c' t
    using assms(6) by (auto simp: any_pledge_def)
  have agree: "c' = c" if "any_pledge s e j c' (ev_term e)" for c'
    using pledge_of_ballot [OF assms(1) that] assms(5) by auto
  show ?thesis
  proof (rule node_invI)
    show "ballot_le d (ev_ballot e')" by (rule ballot_le_trans [OF D(3) le])
    show "pledged (ev_ballot e') c' t" if "held_pledge e' j c' t" for c' t
    proof (cases "held_pledge e j c' t")
      case True
      then show ?thesis using D(5) le pledged_mono by blast
    next
      case False
      then show ?thesis using that by (simp add: assms(4,6) pledged_def)
    qed
    show "c1 = c2" if "any_pledge s e' j c1 t" "any_pledge s e' j c2 t" for c1 c2 t
    proof (cases "t = ev_term e")
      case True
      then show ?thesis using that agree unfolding any by blast
    next
      case False
      then show ?thesis using that D(7) [of c1 t c2] unfolding any by blast
    qed
    show "snd (ev_ballot e') = Some j" if "ev_role e' \<in> {Candidate, Leader}"
      using that D(11) assms(4,5,8) by auto
  qed (use assms(2-) D(2,4,9,10,12,13) in \<open>simp_all\<close>)
qed

lemma node_inv_move:
  assumes "node_inv C s j e d" and "vote_move C (vs_reqs s) (resps_to s j) e e'"
    and "leads j e' \<subseteq> vs_elected s"
  shows "node_inv C s j e' d"
  using assms(2)
proof cases
  case ask
  then show ?thesis
    using node_invD [OF assms(1)]
    by (intro node_inv_new_pledge [OF assms(1), where c = j])
      (auto simp: held_pledge_def prod_eq_iff)
next
  case (grant c)
  then show ?thesis
    using node_invD(1,8,9) [OF assms(1)]
    by (intro node_inv_new_pledge [OF assms(1), where c = c]) (auto simp: held_pledge_def)
qed (rule node_inv_same_pledges [OF assms(1)];
     use node_invD(1,9-13) [OF assms(1)] assms(3) in \<open>auto simp: leads_def ballot_le_def resps_to_def\<close>)+

lemma won_mono: "won C s i t \<Longrightarrow> vs_resps s \<subseteq> vs_resps s' \<Longrightarrow> won C s' i t"
  unfolding won_def by blast

text \<open>A move makes a node leader only by winning, so the newly elected have won.\<close>

lemma move_leads:
  assumes "node_inv C s j e d" and "vote_move C (vs_reqs s) (resps_to s j) e e'" and "ev_role e' = Leader"
  shows "(j, ev_term e') \<in> vs_elected s \<or> won C s j (ev_term e')"
  using assms(2)
proof cases
  case win
  then have "won C s j (ev_term e)"
    using node_invD(10,12) [OF assms(1)] unfolding won_def by auto
  then show ?thesis using win by simp
qed (use assms(3) node_invD(13) [OF assms(1)] in auto)

lemma vote_invI:
  assumes "\<And>j. node_inv C s j (vs_node s j) (vs_durable s j)"
    and "\<And>n c t. (n, c, t) \<in> vs_resps s \<Longrightarrow> (c, t) \<in> vs_reqs s"
    and "\<And>i t. (i, t) \<in> vs_reqs s \<Longrightarrow> is_voter C i"
    and "\<And>i t. (i, t) \<in> vs_elected s \<Longrightarrow> won C s i t"
  shows "vote_inv C s"
  unfolding vote_inv_def using assms by blast

lemma vote_invD:
  assumes "vote_inv C s"
  shows "\<And>j. node_inv C s j (vs_node s j) (vs_durable s j)"
    and "\<And>n c t. (n, c, t) \<in> vs_resps s \<Longrightarrow> (c, t) \<in> vs_reqs s"
    and "\<And>i t. (i, t) \<in> vs_reqs s \<Longrightarrow> is_voter C i"
    and "\<And>i t. (i, t) \<in> vs_elected s \<Longrightarrow> won C s i t"
  using assms unfolding vote_inv_def by blast+

lemma vote_inv_move:
  assumes "vote_inv C s" and "vote_move C (vs_reqs s) (resps_to s i) (vs_node s i) e"
  shows "vote_inv C (s\<lparr>vs_node := (vs_node s)(i := e), vs_elected := vs_elected s \<union> leads i e\<rparr>)" (is "vote_inv C ?s")
proof (rule vote_invI)
  note I = vote_invD [OF assms(1)]
  let ?s1 = "s\<lparr>vs_elected := vs_elected s \<union> leads i e\<rparr>"
  have pl: "sent_pledge ?s j c t \<longleftrightarrow> sent_pledge s j c t" "sent_pledge ?s1 j c t \<longleftrightarrow> sent_pledge s j c t" for j c t
    by (simp_all add: sent_pledge_def)
  have "node_inv C ?s1 i (vs_node s i) (vs_durable s i)"
    by (rule node_inv_mono [OF I(1)]) (auto simp: pl)
  then have "node_inv C ?s1 i e (vs_durable s i)"
    by (rule node_inv_move) (use assms(2) in \<open>auto simp: resps_to_def\<close>)
  then have i: "node_inv C ?s i e (vs_durable s i)"
    by (rule node_inv_mono) (auto simp: pl)
  show "node_inv C ?s j (vs_node ?s j) (vs_durable ?s j)" for j
  proof (cases "j = i")
    case False
    then show ?thesis using node_inv_mono [OF I(1), of ?s] by (simp add: pl)
  qed (use i in simp)
  show "won C ?s j t" if "(j, t) \<in> vs_elected ?s" for j t
  proof -
    have "won C s j t"
      using that I(4) move_leads [OF I(1) assms(2)] by (auto simp: leads_def split: if_splits)
    then show ?thesis by (rule won_mono) simp
  qed
qed (use vote_invD(2,3) [OF assms(1)] in auto)

lemma node_inv_flush:
  assumes "node_inv C s i e d" and "e = vs_node s i"
    and "d' = (if to_save e then ev_ballot e else d)"
    and "e' = e\<lparr>ev_dirty := False, ev_resp := {}, ev_req := {}, ev_saved := if to_save e then ev_ballot e else ev_saved e\<rparr>"
    and "\<And>c t. sent_pledge s' i c t \<longleftrightarrow> any_pledge s e i c t"
    and "vs_reqs s \<subseteq> vs_reqs s'" and "vs_resps s \<subseteq> vs_resps s'" and "vs_elected s \<subseteq> vs_elected s'"
  shows "node_inv C s' i e' d'"
proof -
  note D = node_invD [OF assms(1)]
  have no: "\<not> held_pledge e' i c t" for c t by (simp add: assms(4) held_pledge_def)
  have up: "ballot_le d d'" using D(3) assms(3) by simp
  have saved: "pledged d' c t" if "held_pledge e i c t" for c t
  proof (cases "to_save e")
    case True
    then show ?thesis using D(5) that assms(3) by simp
  next
    case False
    then have "\<not> ev_dirty e \<or> d = ev_ballot e"
      using D(2,3) ballot_le_antisym [of d "ev_ballot e"] by (auto simp: to_save_def)
    then show ?thesis using D(5,6) [OF that] False assms(3) by auto
  qed
  show ?thesis
  proof (rule node_invI)
    show "pledged d' c t" if "sent_pledge s' i c t" for c t
      using that saved D(4) up pledged_mono unfolding assms(5) any_pledge_def by blast
    show "c = c'" if "any_pledge s' e' i c t" "any_pledge s' e' i c' t" for c c' t
      using that D(7) unfolding any_pledge_def [of s'] assms(5) by (simp add: no)
    show "n = i \<or> (n, i, ev_term e') \<in> vs_resps s'" if "ev_role e' \<in> {Candidate, Leader}" "n \<in> ev_granted e'" for n
      using D(12) [of n] that assms(7) by (auto simp: assms(4))
    show "ballot_le (ev_saved e') d'" "ballot_le d' (ev_ballot e')"
      using D(2,3) by (auto simp: assms(3,4))
    show "(i, ev_term e') \<in> vs_elected s'" if "ev_role e' = Leader"
      using D(13) that assms(8) by (auto simp: assms(4))
  qed (use no D(1,10,11) in \<open>auto simp: assms(4)\<close>)
qed

lemma vote_inv_flush:
  assumes "vote_inv C s"
  shows "vote_inv C (s\<lparr>vs_node := (vs_node s)(i := (vs_node s i)\<lparr>ev_dirty := False, ev_resp := {}, ev_req := {},
          ev_saved := if to_save (vs_node s i) then ev_ballot (vs_node s i) else ev_saved (vs_node s i)\<rparr>),
       vs_durable := (vs_durable s)(i := if to_save (vs_node s i) then ev_ballot (vs_node s i) else vs_durable s i),
       vs_reqs := vs_reqs s \<union> {i} \<times> ev_req (vs_node s i),
       vs_resps := vs_resps s \<union> {i} \<times> ev_resp (vs_node s i)\<rparr>)" (is "vote_inv C ?s")
proof (rule vote_invI)
  note I = vote_invD [OF assms]
  have pl: "sent_pledge ?s j c t \<longleftrightarrow> (if j = i then any_pledge s (vs_node s i) i c t else sent_pledge s j c t)" for j c t
    by (auto simp: sent_pledge_def any_pledge_def held_pledge_def)
  have "node_inv C ?s i (vs_node ?s i) (vs_durable ?s i)"
    by (rule node_inv_flush [OF I(1) refl, where s' = ?s]) (auto simp: pl)
  moreover have "node_inv C ?s j (vs_node s j) (vs_durable s j)" if "j \<noteq> i" for j
    by (rule node_inv_mono [OF I(1)]) (use that in \<open>auto simp: pl\<close>)
  ultimately show "node_inv C ?s j (vs_node ?s j) (vs_durable ?s j)" for j
    by (cases "j = i") simp_all
  show "(c, t) \<in> vs_reqs ?s" if "(n, c, t) \<in> vs_resps ?s" for n c t
    using that I(2) node_invD(8) [OF I(1), of c t i] by auto
  show "is_voter C j" if "(j, t) \<in> vs_reqs ?s" for j t
    using that I(3) node_invD(9) [OF I(1), of i] by auto
  show "won C ?s j t" if "(j, t) \<in> vs_elected ?s" for j t
    using that won_mono [OF I(4)] by auto
qed

lemma vote_inv_replace:
  assumes "vote_inv C s" and "node_inv C s i e d"
  shows "vote_inv C (s\<lparr>vs_node := (vs_node s)(i := e), vs_durable := (vs_durable s)(i := d)\<rparr>)" (is "vote_inv C ?s")
proof (rule vote_invI)
  note I = vote_invD [OF assms(1)]
  have pl: "sent_pledge ?s j c t \<longleftrightarrow> sent_pledge s j c t" for j c t by (simp add: sent_pledge_def)
  have m: "node_inv C ?s j e' d'" if "node_inv C s j e' d'" for j e' d'
    by (rule node_inv_mono [OF that]) (auto simp: pl)
  show "node_inv C ?s j (vs_node ?s j) (vs_durable ?s j)" for j
    using m [OF I(1)] m [OF assms(2)] by (cases "j = i") simp_all
  show "won C ?s j t" if "(j, t) \<in> vs_elected ?s" for j t
    using that won_mono [OF I(4)] by auto
qed (use vote_invD(2,3) [OF assms(1)] in auto)

lemma node_inv_fail:
  assumes "node_inv C s i e d" and "d' = d \<or> d' = ev_ballot e"
  shows "node_inv C s i (e\<lparr>ev_dirty := False, ev_resp := {}, ev_req := {}\<rparr>) d'"
proof -
  note D = node_invD [OF assms(1)]
  let ?e = "e\<lparr>ev_dirty := False, ev_resp := {}, ev_req := {}\<rparr>"
  have up: "ballot_le d d'" using D(3) assms(2) by auto
  have no: "\<not> held_pledge ?e i c t" for c t by (simp add: held_pledge_def)
  show ?thesis
  proof (rule node_invI)
    show "pledged d' c t" if "sent_pledge s i c t" for c t using pledged_mono [OF D(4) [OF that] up] .
    show "c = c'" if "any_pledge s ?e i c t" "any_pledge s ?e i c' t" for c c' t
      using that no D(7) [of c t c'] by (simp add: any_pledge_def)
    show "ballot_le (ev_saved ?e) d'" using ballot_le_trans [OF D(2) up] by simp
    show "n = i \<or> (n, i, ev_term ?e) \<in> vs_resps s" if "ev_role ?e \<in> {Candidate, Leader}" "n \<in> ev_granted ?e" for n
      using D(12) [of n] that by simp
  qed (use no D(1,3,10,11,13) assms(2) in auto)
qed

lemma node_inv_crash:
  assumes "node_inv C s i e d"
  shows "node_inv C s i (fresh_voter i d) d"
proof -
  note D = node_invD [OF assms]
  have no: "\<not> held_pledge (fresh_voter i d) i c t" for c t by (simp add: held_pledge_def fresh_voter_def)
  show ?thesis
  proof (rule node_invI)
    show "c = c'" if "any_pledge s (fresh_voter i d) i c t" "any_pledge s (fresh_voter i d) i c' t" for c c' t
      using that no D(7) [of c t c'] by (simp add: any_pledge_def)
  qed (use no D(4) in \<open>auto simp: fresh_voter_def\<close>)
qed

lemma vote_inv_step: "vote_step C s s' \<Longrightarrow> vote_inv C s \<Longrightarrow> vote_inv C s'"
proof (induction rule: vote_step.induct)
  case (fail d s i)
  have "node_inv C s i ((vs_node s i)\<lparr>ev_dirty := False, ev_resp := {}, ev_req := {}\<rparr>) d"
    by (rule node_inv_fail [OF vote_invD(1) [OF fail.prems]]) (use fail.hyps in auto)
  then show ?case by (rule vote_inv_replace [OF fail.prems])
next
  case (crash s i)
  have "node_inv C s i (fresh_voter i (vs_durable s i)) (vs_durable s i)"
    by (rule node_inv_crash [OF vote_invD(1) [OF crash.prems]])
  from vote_inv_replace [OF crash.prems this] show ?case by simp
qed (simp_all add: vote_inv_move vote_inv_flush)

lemma vote_inv_init: "vote_init s \<Longrightarrow> vote_inv C s"
  by (rule vote_invI, rule node_invI)
    (auto simp: vote_init_def fresh_voter_def sent_pledge_def held_pledge_def any_pledge_def)

definition vote_reachable :: "config \<Rightarrow> vote_system \<Rightarrow> bool" where
  "vote_reachable C s \<longleftrightarrow> (\<exists>s0. vote_init s0 \<and> (vote_step C)\<^sup>*\<^sup>* s0 s)"

lemma vote_reachable_inv: "vote_reachable C s \<Longrightarrow> vote_inv C s"
proof -
  assume "vote_reachable C s"
  then obtain s0 where "vote_init s0" "(vote_step C)\<^sup>*\<^sup>* s0 s" by (auto simp: vote_reachable_def)
  from this(2,1) show ?thesis
    by (induction rule: rtranclp_induct) (auto intro: vote_inv_init vote_inv_step)
qed

subsection \<open>At most one leader per term\<close>

lemma lone_quorum_voter:
  assumes "has_quorum C {i}" and "is_voter C j"
  shows "j = i"
proof -
  have "j \<in> grp \<Longrightarrow> j \<noteq> i \<Longrightarrow> \<not> majority grp {i}" for grp
  proof
    assume "j \<in> grp" "j \<noteq> i" "majority grp {i}"
    then have "card grp < card {n \<in> grp. n \<in> {i}} * 2" by (auto simp: majority_def split: if_splits)
    moreover have "card {n \<in> grp. n \<in> {i}} \<le> 1" "{n \<in> grp. n \<in> {i}} \<subseteq> grp - {j}"
      using \<open>j \<noteq> i\<close> card_mono [of "{i}" "{n \<in> grp. n \<in> {i}}"] by auto
    moreover have "card (grp - {j}) < card grp" using \<open>j \<in> grp\<close> by (intro card_Diff1_less) auto
    moreover have "card {n \<in> grp. n \<in> {i}} \<le> card (grp - {j})" using calculation(3) by (intro card_mono) auto
    ultimately show False by linarith
  qed
  then show ?thesis
    using assms by (auto simp: has_quorum_def is_voter_def is_joint_def split: if_splits)
qed

lemma own_pledge_agrees:
  assumes "vote_inv C s" and "(i, j, t) \<in> vs_resps s" and "won C s i t"
  shows "i = j"
proof -
  note I = vote_invD [OF assms(1)]
  obtain Q where Q: "has_quorum C Q" "\<forall>n\<in>Q. n = i \<or> (n, i, t) \<in> vs_resps s"
    using assms(3) by (auto simp: won_def)
  have vote: "sent_pledge s i j t" using assms(2) by (simp add: sent_pledge_def)
  show ?thesis
  proof (cases "Q \<subseteq> {i}")
    case True
    then have "has_quorum C {i}" using Q(1) has_quorum_mono by blast
    moreover have "is_voter C j" using I(2) [OF assms(2)] I(3) by blast
    ultimately show ?thesis using lone_quorum_voter by blast
  next
    case False
    then obtain n where "(n, i, t) \<in> vs_resps s" using Q(2) by blast
    then have "sent_pledge s i i t" using I(2) by (simp add: sent_pledge_def) 
    then show ?thesis using vote node_invD(7) [OF I(1), of i i t j] by (simp add: any_pledge_def)
  qed
qed

lemma unique_winner:
  assumes "vote_inv C s" and "won C s i t" and "won C s j t"
  shows "i = j"
proof -
  obtain A where A: "has_quorum C A" "\<forall>n\<in>A. n = i \<or> (n, i, t) \<in> vs_resps s"
    using assms(2) by (auto simp: won_def)
  obtain B where B: "has_quorum C B" "\<forall>n\<in>B. n = j \<or> (n, j, t) \<in> vs_resps s"
    using assms(3) by (auto simp: won_def)
  obtain n where n: "n \<in> A" "n \<in> B" using cfg_quorum.quorums_meet [OF A(1) B(1)] by blast
  then consider "n = i" "n = j" | "n = i" "(n, j, t) \<in> vs_resps s" | "n = j" "(n, i, t) \<in> vs_resps s"
    | "(n, i, t) \<in> vs_resps s" "(n, j, t) \<in> vs_resps s"
    using A(2) B(2) by blast
  then show ?thesis
  proof cases
    case 2
    then show ?thesis using own_pledge_agrees [OF assms(1) _ assms(2)] by blast
  next
    case 3
    then show ?thesis using own_pledge_agrees [OF assms(1) _ assms(3)] by blast
  next
    case 4
    then show ?thesis
      using node_invD(7) [OF vote_invD(1) [OF assms(1)], of n i t j]
      by (simp add: any_pledge_def sent_pledge_def)
  qed simp
qed

lemma vote_safety:
  assumes "vote_inv C s" and "(i, t) \<in> vs_elected s" and "(j, t) \<in> vs_elected s"
  shows "i = j"
  using unique_winner [OF assms(1)] vote_invD(4) [OF assms(1)] assms(2,3) by blast

end
