(* ===== verification/Election.thy ===== *)
theory Election
  imports Vote_Protocol
begin

section \<open>Election Safety of the state machine\<close>

text \<open>
  The state machine of \<open>Raft_Core\<close> simulates the election specification \<open>Vote_Protocol\<close>, in
  a cluster whose membership does not change: \<open>voter_of\<close> projects a node to what an election
  sees, and every input, every driver cycle, every failed cycle and every crash of the
  cluster is matched by moves of the specification.
\<close>

subsection \<open>The projection\<close>

definition resp_of :: "ready \<Rightarrow> (node_id \<times> raft_term) set" where
  "resp_of rd = {(c, t). (c, \<lparr>m_term = t, m_body = VoteResp True\<rparr>) \<in> set (rdy_messages rd)}"

definition req_of :: "ready \<Rightarrow> raft_term set" where
  "req_of rd = {t. \<exists>to li lt. (to, \<lparr>m_term = t, m_body = VoteReq li lt\<rparr>) \<in> set (rdy_messages rd)}"

definition voter_of :: "raft \<Rightarrow> voter" where
  "voter_of r = \<lparr>ev_id = rf_id r, ev_ballot = (rf_term r, rf_vote r), ev_dirty = rf_hard_state_dirty r,
     ev_role = rf_role r, ev_granted = {i. rf_votes r i = Some True}, ev_resp = resp_of (rf_pending r),
     ev_req = req_of (rf_pending r),
     ev_saved = (hs_term (rf_persisted_hard_state r), hs_vote (rf_persisted_hard_state r))\<rparr>"

definition quiet_body :: "body \<Rightarrow> bool" where
  "quiet_body b = (case b of VoteReq _ _ \<Rightarrow> False | VoteResp g \<Rightarrow> \<not> g | _ \<Rightarrow> True)"

definition static_entries :: "entry list \<Rightarrow> bool" where
  "static_entries es \<longleftrightarrow> (\<forall>e\<in>set es. \<not> is_config_entry e)"

definition static_log :: "config \<Rightarrow> raft_log \<Rightarrow> bool" where
  "static_log C l \<longleftrightarrow> l_snapshot_config l = C \<and> static_entries (l_entries l)"

definition static_body :: "config \<Rightarrow> body \<Rightarrow> bool" where
  "static_body C b =
     (case b of AppendReq _ _ es _ \<Rightarrow> static_entries es | SnapshotReq s \<Rightarrow> sn_config s = C | _ \<Rightarrow> True)"

definition static_raft :: "config \<Rightarrow> raft \<Rightarrow> bool" where
  "static_raft C r \<longleftrightarrow> static_log C (rf_log r) \<and> rdy_hard_state (rf_pending r) = None \<and>
     (\<forall>(to, m)\<in>set (rdy_messages (rf_pending r)). static_body C (m_body m))"

text \<open>
  \<open>sim\<close>: from a state under a fixed configuration, the change keeps the configuration fixed
  and is a sequence of moves of the specification.
\<close>

definition sim ::
  "config \<Rightarrow> (node_id \<times> raft_term) set \<Rightarrow> (node_id \<times> raft_term) set \<Rightarrow> raft \<Rightarrow> raft \<Rightarrow> bool" where
  "sim C reqs resps r r' \<longleftrightarrow>
     (static_raft C r \<longrightarrow> static_raft C r' \<and> (vote_move C reqs resps)\<^sup>*\<^sup>* (voter_of r) (voter_of r'))"

lemma sim_refl [simp, intro]: "sim C reqs resps r r"
  by (simp add: sim_def)

lemma sim_trans [trans]: "sim C reqs resps a b \<Longrightarrow> sim C reqs resps b c \<Longrightarrow> sim C reqs resps a c"
  by (auto simp: sim_def)

lemma sim_quiet:
  "voter_of r' = voter_of r \<Longrightarrow> (static_raft C r \<Longrightarrow> static_raft C r') \<Longrightarrow> sim C reqs resps r r'"
  by (simp add: sim_def)

lemma sim_move:
  "(static_raft C r \<Longrightarrow> vote_move C reqs resps (voter_of r) (voter_of r')) \<Longrightarrow>
   (static_raft C r \<Longrightarrow> static_raft C r') \<Longrightarrow> sim C reqs resps r r'"
  by (auto simp: sim_def)

lemma sim_foldl: "(\<And>r x. sim C reqs resps r (f r x)) \<Longrightarrow> sim C reqs resps r (foldl f r xs)"
  by (induction xs arbitrary: r) (auto intro: sim_trans)

subsection \<open>Fixed membership\<close>

lemma static_log_config: "static_log C l \<Longrightarrow> log_config l = C"
proof -
  have "foldl replay c es = c" if "static_entries es" for c es
    using that
    by (induction es) (auto simp: static_entries_def replay_def is_config_entry_def split: entry_kind.splits)
  then show "static_log C l \<Longrightarrow> log_config l = C" by (auto simp: static_log_def log_config_def)
qed

lemma static_raft_config: "static_raft C r \<Longrightarrow> raft_config r = C"
  by (simp add: static_raft_def raft_config_def static_log_config)

lemma static_entries_sub: "static_entries es \<Longrightarrow> set fs \<subseteq> set es \<Longrightarrow> static_entries fs"
  by (auto simp: static_entries_def)

lemma log_slice_subset: "set (log_slice l from to) \<subseteq> set (l_entries l)"
  by (auto simp: log_slice_def split: option.split if_splits dest!: in_set_takeD in_set_dropD)

lemma static_truncate: "static_log C l \<Longrightarrow> static_log C (truncate_from l f)"
  by (auto simp: static_log_def static_entries_def truncate_from_def split: option.split dest: in_set_takeD)

lemma static_append: "static_log C l \<Longrightarrow> static_entries es \<Longrightarrow> static_log C (log_append l es)"
  by (auto simp: static_log_def static_entries_def log_append_def)

lemma static_merge: "static_log C l \<Longrightarrow> static_entries es \<Longrightarrow> static_log C (merge_loop l es)"
proof (induction es)
  case (Cons e es)
  then have "static_entries es" by (simp add: static_entries_def)
  then show ?case
    using Cons by (auto simp: static_append static_truncate split: option.split)
qed simp

lemma static_compact: "static_log C l \<Longrightarrow> static_log C (compact_through l i t C)"
  by (auto simp: static_log_def static_entries_def compact_through_def Let_def dest: in_set_dropD)

lemma static_install: "static_log C l \<Longrightarrow> sn_config s = C \<Longrightarrow> static_log C (install_snapshot l s)"
  using static_compact by (auto simp: install_snapshot_def) (simp add: static_log_def static_entries_def)

subsection \<open>Sending\<close>

lemma resp_of_default [simp]: "resp_of ready_default = {}" "req_of ready_default = {}"
  by (simp_all add: resp_of_def req_of_def ready_default_def)

lemma resp_of_push:
  "resp_of (rd\<lparr>rdy_messages := rdy_messages rd @ [(to, m)]\<rparr>) =
     resp_of rd \<union> (if m_body m = VoteResp True then {(to, m_term m)} else {})"
  by (cases m) (auto simp: resp_of_def)

lemma req_of_push:
  "req_of (rd\<lparr>rdy_messages := rdy_messages rd @ [(to, m)]\<rparr>) =
     req_of rd \<union> (case m_body m of VoteReq _ _ \<Rightarrow> {m_term m} | _ \<Rightarrow> {})"
  by (cases m) (auto simp: req_of_def split: body.split)

lemma voter_push:
  "voter_of (push_message r to m) = (voter_of r)
     \<lparr>ev_resp := ev_resp (voter_of r) \<union> (if m_body m = VoteResp True then {(to, m_term m)} else {}),
      ev_req := ev_req (voter_of r) \<union> (case m_body m of VoteReq _ _ \<Rightarrow> {m_term m} | _ \<Rightarrow> {})\<rparr>"
  by (simp add: voter_of_def push_message_def resp_of_push req_of_push)

lemma static_push: "static_raft C r \<Longrightarrow> static_body C (m_body m) \<Longrightarrow> static_raft C (push_message r to m)"
  by (auto simp: static_raft_def push_message_def)

lemma sim_push:
  assumes "quiet_body (m_body m)" and "static_raft C r \<Longrightarrow> static_body C (m_body m)"
  shows "sim C reqs resps r (push_message r to m)"
proof (rule sim_quiet)
  show "voter_of (push_message r to m) = voter_of r"
    using assms(1) by (auto simp: voter_push quiet_body_def split: body.splits)
qed (use assms(2) static_push in blast)

lemma sim_send:
  assumes "quiet_body b" and "static_raft C r \<Longrightarrow> static_body C b"
  shows "sim C reqs resps r (send r to b)"
  unfolding send_def by (rule sim_push) (use assms in \<open>simp_all add: message_new_def\<close>)

subsection \<open>The leader's machinery\<close>

text \<open>Changes to fields an election does not look at.\<close>

lemma voter_of_frame [simp]:
  "voter_of (r\<lparr>rf_progress := a\<rparr>) = voter_of r"
  "voter_of (r\<lparr>rf_log := b\<rparr>) = voter_of r"
  "voter_of (r\<lparr>rf_dirty_from := c\<rparr>) = voter_of r"
  "voter_of (r\<lparr>rf_commit := d\<rparr>) = voter_of r"
  "voter_of (r\<lparr>rf_leader := f\<rparr>) = voter_of r"
  "voter_of (r\<lparr>rf_election_elapsed := g\<rparr>) = voter_of r"
  "voter_of (r\<lparr>rf_heartbeat_elapsed := h\<rparr>) = voter_of r"
  "voter_of (r\<lparr>rf_quorum_contact_elapsed := h\<rparr>) = voter_of r"
  "voter_of (r\<lparr>rf_committed_own_term := j\<rparr>) = voter_of r"
  "voter_of (r\<lparr>rf_pending_reads := k\<rparr>) = voter_of r"
  "voter_of (r\<lparr>rf_read_ctx := l\<rparr>) = voter_of r"
  "voter_of (r\<lparr>rf_persisted := d\<rparr>) = voter_of r"
  "voter_of (r\<lparr>rf_applied := d\<rparr>) = voter_of r"
  "voter_of (r\<lparr>rf_rand := l\<rparr>) = voter_of r"
  "voter_of (r\<lparr>rf_election_timeout := h\<rparr>) = voter_of r"
  by (simp_all add: voter_of_def)

lemma static_frame [simp]:
  "static_raft C (r\<lparr>rf_progress := a\<rparr>) = static_raft C r"
  "static_raft C (r\<lparr>rf_dirty_from := c\<rparr>) = static_raft C r"
  "static_raft C (r\<lparr>rf_commit := d\<rparr>) = static_raft C r"
  "static_raft C (r\<lparr>rf_leader := f\<rparr>) = static_raft C r"
  "static_raft C (r\<lparr>rf_election_elapsed := g\<rparr>) = static_raft C r"
  "static_raft C (r\<lparr>rf_heartbeat_elapsed := h\<rparr>) = static_raft C r"
  "static_raft C (r\<lparr>rf_quorum_contact_elapsed := h\<rparr>) = static_raft C r"
  "static_raft C (r\<lparr>rf_committed_own_term := j\<rparr>) = static_raft C r"
  "static_raft C (r\<lparr>rf_pending_reads := k\<rparr>) = static_raft C r"
  "static_raft C (r\<lparr>rf_read_ctx := l\<rparr>) = static_raft C r"
  "static_raft C (r\<lparr>rf_persisted := d\<rparr>) = static_raft C r"
  "static_raft C (r\<lparr>rf_applied := d\<rparr>) = static_raft C r"
  "static_raft C (r\<lparr>rf_rand := l\<rparr>) = static_raft C r"
  "static_raft C (r\<lparr>rf_election_timeout := h\<rparr>) = static_raft C r"
  "static_raft C (r\<lparr>rf_hard_state_dirty := j\<rparr>) = static_raft C r"
  "static_raft C (r\<lparr>rf_role := ro\<rparr>) = static_raft C r"
  "static_raft C (r\<lparr>rf_term := t\<rparr>) = static_raft C r"
  "static_raft C (r\<lparr>rf_vote := v\<rparr>) = static_raft C r"
  "static_raft C (r\<lparr>rf_votes := vs\<rparr>) = static_raft C r"
  "static_raft C (r\<lparr>rf_persisted_hard_state := hs\<rparr>) = static_raft C r"
  by (simp_all add: static_raft_def)

lemma sim_soil: "sim C reqs resps r (r\<lparr>rf_hard_state_dirty := True\<rparr>)"
proof (rule sim_move)
  show "vote_move C reqs resps (voter_of r) (voter_of (r\<lparr>rf_hard_state_dirty := True\<rparr>))"
    using vote_move.soil [of C reqs resps "voter_of r"] by (simp add: voter_of_def)
qed simp

lemma sim_log:
  "(static_raft C r \<Longrightarrow> static_log C l) \<Longrightarrow> sim C reqs resps r (r\<lparr>rf_log := l\<rparr>)"
  by (rule sim_quiet) (auto simp: static_raft_def)

lemma sim_mark_dirty: "sim C reqs resps r (mark_dirty r i)"
  by (rule sim_quiet) (simp_all add: mark_dirty_def)

lemma sim_append_own: "static_entries es \<Longrightarrow> sim C reqs resps r (append_to_own_log r es)"
proof -
  assume es: "static_entries es"
  have "sim C reqs resps r0 (r0\<lparr>rf_log := log_append (rf_log r0) es\<rparr>)" for r0
    by (rule sim_log) (use es static_append in \<open>auto simp: static_raft_def\<close>)
  then show ?thesis
    unfolding append_to_own_log_def Let_def
    by (cases es) (auto intro: sim_trans [OF sim_mark_dirty])
qed

lemma sim_send_append_to: "sim C reqs resps r (send_append_to r peer)"
proof -
  have flag: "sim C reqs resps r (r\<lparr>rf_progress := prog\<rparr>)" for prog by (rule sim_quiet) simp_all
  have msg: "sim C reqs resps r (send r peer (AppendReq i t (take n (log_slice (rf_log r) f g)) c))" for i t n f g c
  proof (rule sim_send)
    assume "static_raft C r"
    then have "static_entries (l_entries (rf_log r))" by (simp add: static_raft_def static_log_def)
    moreover have "set (take n (log_slice (rf_log r) f g)) \<subseteq> set (l_entries (rf_log r))"
      using log_slice_subset set_take_subset by fast
    ultimately show "static_body C (AppendReq i t (take n (log_slice (rf_log r) f g)) c)"
      by (simp add: static_body_def static_entries_sub)
  qed (simp add: quiet_body_def)
  show ?thesis
    unfolding send_append_to_def Let_def
    by (auto intro: flag msg split: option.split)
qed

lemma sim_broadcast: "sim C reqs resps r (broadcast_append r)"
  unfolding broadcast_append_def by (rule sim_foldl) (simp add: sim_send_append_to)

lemma sim_advance_commit: "sim C reqs resps r (maybe_advance_commit r)"
proof -
  have "sim C reqs resps r (r\<lparr>rf_hard_state_dirty := True\<rparr>)" by (rule sim_soil)
  also have "sim C reqs resps (r\<lparr>rf_hard_state_dirty := True\<rparr>)
      (r\<lparr>rf_commit := c, rf_committed_own_term := True, rf_hard_state_dirty := True, rf_quorum_contact_elapsed := 0\<rparr>)" for c
    by (rule sim_quiet) (simp_all add: voter_of_def static_raft_def)
  finally show ?thesis by (simp add: maybe_advance_commit_def Let_def)
qed

lemma sim_reset_progress: "sim C reqs resps r (reset_progress_for_config r)"
  by (rule sim_quiet) (simp_all add: reset_progress_for_config_def Let_def)

subsection \<open>Role transitions\<close>

lemma sim_become_follower: "sim C reqs resps r (become_follower r t ldr)"
proof (rule sim_move)
  show "vote_move C reqs resps (voter_of r) (voter_of (become_follower r t ldr))"
  proof (cases "rf_term r < t")
    case True
    then show ?thesis
      using vote_move.adopt [of "voter_of r" t C reqs resps "{}"]
      by (simp add: become_follower_def voter_of_def Let_def)
  next
    case False
    then show ?thesis
      using vote_move.stand_down [of C reqs resps "voter_of r" "{}"]
      by (simp add: become_follower_def voter_of_def Let_def)
  qed
qed (simp add: become_follower_def Let_def)

lemma sim_become_leader:
  assumes "rf_role r = Candidate" and "static_raft C r \<Longrightarrow> tally r C"
  shows "sim C reqs resps r (become_leader r)"
proof -
  let ?r1 = "r\<lparr>rf_role := Leader, rf_leader := Some (rf_id r), rf_heartbeat_elapsed := 0,
      rf_election_elapsed := 0, rf_quorum_contact_elapsed := 0, rf_committed_own_term := False,
      rf_pending_reads := []\<rparr>"
  let ?r2 = "reset_progress_for_config ?r1"
  let ?noop = "\<lparr>e_term = rf_term ?r2, e_index = last_index (rf_log ?r2) + 1, e_kind = Noop\<rparr>"
  have "sim C reqs resps r ?r1"
  proof (rule sim_move)
    assume "static_raft C r"
    then have "has_quorum C {i. rf_votes r i = Some True}" using assms(2) by (simp add: tally_def)
    then show "vote_move C reqs resps (voter_of r) (voter_of ?r1)"
      using assms(1) vote_move.win [of "voter_of r" C reqs resps] by (simp add: voter_of_def)
  qed simp
  also have "sim C reqs resps ?r1 ?r2" by (rule sim_reset_progress)
  also have "sim C reqs resps ?r2 (append_to_own_log ?r2 [?noop])"
    by (rule sim_append_own) (simp add: static_entries_def is_config_entry_def)
  also have "sim C reqs resps (append_to_own_log ?r2 [?noop]) (broadcast_append (append_to_own_log ?r2 [?noop]))"
    by (rule sim_broadcast)
  finally show ?thesis by (simp add: become_leader_def Let_def)
qed

lemma campaign_begin_eq:
  obtains x y where "campaign_begin r = r\<lparr>rf_rand := x, rf_election_timeout := y, rf_election_elapsed := 0, rf_votes := Map.empty\<rparr>"
  by (simp add: campaign_begin_def stir_def Let_def)

text \<open>Asking for votes: a sequence of vote requests at the candidate's term.\<close>

lemma ask_votes:
  assumes "rf_role r = Candidate" and "rf_hard_state_dirty r"
  shows "sim C reqs resps r (foldl (\<lambda>r peer. if peer \<noteq> rf_id r then send r peer (VoteReq li lt) else r) r peers)"
  using assms
proof (induction peers arbitrary: r)
  case (Cons p ps)
  let ?r = "if p \<noteq> rf_id r then send r p (VoteReq li lt) else r"
  have one: "sim C reqs resps r (send r p (VoteReq li lt))"
  proof (rule sim_move)
    show "vote_move C reqs resps (voter_of r) (voter_of (send r p (VoteReq li lt)))"
      using Cons.prems vote_move.ask [of "voter_of r" C reqs resps]
      by (simp add: send_def push_message_def message_new_def voter_of_def resp_of_push req_of_push)
    show "static_raft C r \<Longrightarrow> static_raft C (send r p (VoteReq li lt))"
      by (simp add: send_def static_push static_body_def message_new_def)
  qed
  have "sim C reqs resps ?r (foldl (\<lambda>r peer. if peer \<noteq> rf_id r then send r peer (VoteReq li lt) else r) ?r ps)"
    by (rule Cons.IH) (use Cons.prems in \<open>simp_all add: send_def push_message_def\<close>)
  with one show ?case by (cases "p = rf_id r") (auto intro: sim_trans)
qed simp

definition may_stand :: "config \<Rightarrow> raft \<Rightarrow> bool" where
  "may_stand C r \<longleftrightarrow> is_voter C (rf_id r) \<or> rf_role r = PreCandidate"

lemma sim_campaign_vote:
  assumes "static_raft C r \<Longrightarrow> may_stand C r" and "rf_term r \<noteq> - 1"
  shows "sim C reqs resps r (campaign_vote r)"
proof -
  obtain x y where b: "campaign_begin r = r\<lparr>rf_rand := x, rf_election_timeout := y, rf_election_elapsed := 0, rf_votes := Map.empty\<rparr>"
    by (rule campaign_begin_eq)
  let ?r0 = "campaign_begin r"
  let ?r1 = "?r0\<lparr>rf_role := Candidate, rf_term := rf_term ?r0 + 1, rf_vote := Some (rf_id ?r0), rf_leader := None,
      rf_hard_state_dirty := True, rf_votes := (rf_votes ?r0)(rf_id ?r0 \<mapsto> True)\<rparr>"
  have st: "static_raft C ?r1 \<longleftrightarrow> static_raft C r" by (simp add: b)
  have "sim C reqs resps r ?r1"
  proof (rule sim_move)
    assume "static_raft C r"
    then have "is_voter C (ev_id (voter_of r)) \<or> ev_role (voter_of r) = PreCandidate"
      using assms(1) by (simp add: may_stand_def voter_of_def)
    moreover have "ev_term (voter_of r) < ev_term (voter_of r) + 1"
      using word_less_plus_one [OF assms(2)] by (simp add: voter_of_def)
    ultimately have "vote_move C reqs resps (voter_of r)
      ((voter_of r)\<lparr>ev_ballot := (ev_term (voter_of r) + 1, Some (ev_id (voter_of r))), ev_dirty := True,
        ev_role := Candidate, ev_granted := {ev_id (voter_of r)}\<rparr>)"
      by (rule vote_move.stand)
    moreover have "{i. (Map.empty(rf_id r \<mapsto> True)) i = Some True} = {rf_id r}" by auto
    ultimately show "vote_move C reqs resps (voter_of r) (voter_of ?r1)" by (simp add: b voter_of_def)
  qed (rule st [THEN iffD2])
  moreover have "sim C reqs resps ?r1 (campaign_vote r)"
  proof (cases "tally ?r1 (raft_config ?r0)")
    case True
    have c: "raft_config ?r0 = raft_config r" by (simp add: b raft_config_def)
    have "sim C reqs resps ?r1 (become_leader ?r1)"
    proof (rule sim_become_leader)
      assume "static_raft C ?r1"
      then have "raft_config r = C" using static_raft_config st by blast
      then show "tally ?r1 C" using True unfolding c by simp
    qed simp
    moreover have "campaign_vote r = become_leader ?r1" using True by (simp add: campaign_vote_def Let_def)
    ultimately show ?thesis by simp
  next
    case False
    then have "campaign_vote r = foldl (\<lambda>r' peer. if peer \<noteq> rf_id r' then send r' peer
        (VoteReq (last_index (rf_log ?r0)) (last_term (rf_log ?r0))) else r') ?r1
        (sorted_list_of_set (all_nodes (raft_config ?r0)))"
      by (simp add: campaign_vote_def Let_def)
    moreover have "sim C reqs resps ?r1 \<dots>" by (rule ask_votes) simp_all
    ultimately show ?thesis by simp
  qed
  ultimately show ?thesis by (rule sim_trans)
qed

lemma sim_campaign:
  assumes "static_raft C r \<Longrightarrow> may_stand C r" and "pre \<Longrightarrow> static_raft C r \<Longrightarrow> is_voter C (rf_id r)"
    and "rf_term r \<noteq> - 1"
  shows "sim C reqs resps r (campaign r pre)"
proof (cases pre)
  case False
  then show ?thesis using sim_campaign_vote [OF assms(1,3)] by (simp add: campaign_def)
next
  case True
  obtain x y where b: "campaign_begin r = r\<lparr>rf_rand := x, rf_election_timeout := y, rf_election_elapsed := 0, rf_votes := Map.empty\<rparr>"
    by (rule campaign_begin_eq)
  let ?r0 = "campaign_begin r"
  let ?r1 = "?r0\<lparr>rf_role := PreCandidate, rf_votes := (rf_votes ?r0)(rf_id ?r0 \<mapsto> True)\<rparr>"
  have st: "static_raft C ?r1 \<longleftrightarrow> static_raft C r" by (simp add: b)
  have "sim C reqs resps r ?r1"
  proof (rule sim_move)
    assume "static_raft C r"
    then have "is_voter C (ev_id (voter_of r))" using assms(2) True by (simp add: voter_of_def)
    from vote_move.poll [OF this, of reqs resps "{i. rf_votes ?r1 i = Some True}"]
    show "vote_move C reqs resps (voter_of r) (voter_of ?r1)" by (simp add: b voter_of_def)
  qed (rule st [THEN iffD2])
  also have "sim C reqs resps ?r1 (campaign r pre)"
  proof (cases "tally ?r1 (raft_config ?r0)")
    case True
    have "sim C reqs resps ?r1 (campaign_vote ?r1)"
      by (rule sim_campaign_vote) (use assms(3) in \<open>simp_all add: may_stand_def b\<close>)
    then show ?thesis using True \<open>pre\<close> by (simp add: campaign_def Let_def)
  next
    case False
    have "sim C reqs resps ?r1 (foldl (\<lambda>r' peer. if peer \<noteq> rf_id r' then push_message r' peer
        (message_new (rf_term ?r0 + 1) (PreVoteReq (last_index (rf_log ?r0)) (last_term (rf_log ?r0)))) else r') ?r1
        (sorted_list_of_set (all_nodes (raft_config ?r0))))"
      by (rule sim_foldl) (simp add: sim_push quiet_body_def static_body_def message_new_def)
    then show ?thesis using False \<open>pre\<close> by (simp add: campaign_def Let_def)
  qed
  finally show ?thesis .
qed

subsection \<open>Handlers\<close>

lemma sim_pre_vote_req: "sim C reqs resps r (handle_pre_vote_req r from t li lt)"
  unfolding handle_pre_vote_req_def Let_def
  by (rule sim_push) (simp_all add: quiet_body_def static_body_def message_new_def)

lemma sim_votes:
  "rf_role r = PreCandidate \<Longrightarrow> sim C reqs resps r (r\<lparr>rf_votes := vs\<rparr>)"
proof (rule sim_move)
  assume "rf_role r = PreCandidate"
  then show "vote_move C reqs resps (voter_of r) (voter_of (r\<lparr>rf_votes := vs\<rparr>))"
    using vote_move.repoll [of "voter_of r" C reqs resps "{i. vs i = Some True}"] by (simp add: voter_of_def)
qed simp

lemma sim_pre_vote_resp:
  assumes "rf_term r \<noteq> - 1"
  shows "sim C reqs resps r (handle_pre_vote_resp r from t g)"
proof (cases "rf_role r = PreCandidate \<and> \<not> (\<not> g \<and> t > rf_term r + 1)")
  case False
  then show ?thesis using sim_become_follower by (auto simp: handle_pre_vote_resp_def)
next
  case True
  let ?r = "r\<lparr>rf_votes := (rf_votes r)(from \<mapsto> g)\<rparr>"
  have "sim C reqs resps r ?r" using True by (intro sim_votes) simp
  moreover have "sim C reqs resps ?r (campaign ?r False)"
    by (rule sim_campaign) (use True assms in \<open>simp_all add: may_stand_def\<close>)
  moreover have "sim C reqs resps ?r (?r\<lparr>rf_role := Follower\<rparr>)"
  proof (rule sim_move)
    show "vote_move C reqs resps (voter_of ?r) (voter_of (?r\<lparr>rf_role := Follower\<rparr>))"
      using vote_move.stand_down [of C reqs resps "voter_of ?r" "ev_granted (voter_of ?r)"]
      by (simp add: voter_of_def)
  qed simp
  ultimately show ?thesis
    using True sim_trans unfolding handle_pre_vote_resp_def Let_def by auto
qed

lemma sim_vote_req:
  assumes "(from, rf_term r) \<in> reqs"
  shows "sim C reqs resps r (handle_vote_req r from li lt)"
proof (cases "(case rf_vote r of None \<Rightarrow> True | Some v \<Rightarrow> v = from) \<and> is_up_to_date (rf_log r) lt li")
  case True
  let ?r = "r\<lparr>rf_vote := Some from, rf_hard_state_dirty := True, rf_election_elapsed := 0\<rparr>"
  have "handle_vote_req r from li lt = send ?r from (VoteResp True)"
    using True by (simp add: handle_vote_req_def Let_def)
  moreover have "sim C reqs resps r (send ?r from (VoteResp True))"
  proof (rule sim_move)
    have "snd (ev_ballot (voter_of r)) = None \<or> snd (ev_ballot (voter_of r)) = Some from"
      using True by (auto simp: voter_of_def split: option.splits)
    from vote_move.grant [OF this, of reqs C resps] assms
    show "vote_move C reqs resps (voter_of r) (voter_of (send ?r from (VoteResp True)))"
      by (simp add: voter_of_def send_def push_message_def message_new_def resp_of_push req_of_push)
    show "static_raft C r \<Longrightarrow> static_raft C (send ?r from (VoteResp True))"
      unfolding send_def by (rule static_push) (simp_all add: static_body_def message_new_def)
  qed
  ultimately show ?thesis by simp
next
  case False
  then have "handle_vote_req r from li lt = send r from (VoteResp False)"
    by (simp only: handle_vote_req_def Let_def if_False)
  then show ?thesis using sim_send [of "VoteResp False"] by (simp add: quiet_body_def static_body_def)
qed

lemma sim_vote_resp:
  assumes "g \<Longrightarrow> (from, rf_term r) \<in> resps"
  shows "sim C reqs resps r (handle_vote_resp r from g)"
proof (cases "rf_role r = Candidate")
  case True
  let ?r = "r\<lparr>rf_votes := (rf_votes r)(from \<mapsto> g)\<rparr>"
  have one: "sim C reqs resps r ?r"
  proof (rule sim_move)
    show "vote_move C reqs resps (voter_of r) (voter_of ?r)"
    proof (cases g)
      case yes: True
      have "{i. i \<noteq> from \<longrightarrow> rf_votes r i = Some True} = insert from {i. rf_votes r i = Some True}" by auto
      then show ?thesis
        using True assms yes vote_move.count_yes [of "voter_of r" "from" resps C reqs] by (simp add: voter_of_def)
    next
      case no: False
      have "{i. i \<noteq> from \<and> (i \<noteq> from \<longrightarrow> rf_votes r i = Some True)} = {i. rf_votes r i = Some True} - {from}" by auto
      then show ?thesis
        using True no vote_move.count_no [of "voter_of r" C reqs resps "from"] by (simp add: voter_of_def)
    qed
  qed simp
  have two: "sim C reqs resps ?r (become_leader ?r)" if "tally ?r (raft_config ?r)"
    by (rule sim_become_leader) (use True that static_raft_config in auto)
  show ?thesis
    using True one sim_trans [OF one two] sim_trans [OF one sim_become_follower]
    unfolding handle_vote_resp_def Let_def by auto
qed (simp add: handle_vote_resp_def)

lemma sim_defer: "sim C reqs resps r (defer_to r from)"
proof -
  let ?r = "if rf_role r \<noteq> Follower then become_follower r (rf_term r) (Some from) else r"
  have "sim C reqs resps r ?r" by (simp add: sim_become_follower)
  also have "sim C reqs resps ?r (?r\<lparr>rf_leader := Some from, rf_election_elapsed := 0\<rparr>)"
    by (rule sim_quiet) simp_all
  finally show ?thesis by (simp add: defer_to_def Let_def)
qed

text \<open>Raising or clamping the commit index marks the hard state dirty.\<close>

lemma sim_commit: "sim C reqs resps r (r\<lparr>rf_commit := c, rf_hard_state_dirty := True\<rparr>)"
  using sim_soil [of C reqs resps "r\<lparr>rf_commit := c\<rparr>"] by (simp add: sim_def)

lemma sim_append:
  assumes "static_entries es"
  shows "sim C reqs resps r (handle_append r from pi pt es lc)"
proof -
  let ?r = "defer_to r from"
  obtain last_new log where m: "log_merge (rf_log ?r) pi es = (last_new, log)" by (cases "log_merge (rf_log ?r) pi es")
  then have log: "log = merge_loop (rf_log ?r) es" using snd_log_merge [of "rf_log ?r" pi es] by simp
  define r1 where "r1 = (case es of [] \<Rightarrow> ?r\<lparr>rf_log := log\<rparr> | e # _ \<Rightarrow> mark_dirty (?r\<lparr>rf_log := log\<rparr>) (e_index e))"
  define r2 where "r2 = (if min lc last_new > rf_commit r1
      then r1\<lparr>rf_commit := min lc last_new, rf_hard_state_dirty := True\<rparr> else r1)"
  define r3 where "r3 = (if rf_commit r2 > last_index (rf_log r2)
      then r2\<lparr>rf_commit := last_index (rf_log r2), rf_hard_state_dirty := True\<rparr> else r2)"
  have reply: "sim C reqs resps r' (send r' from (AppendResp a b c d))" for r' a b c d
    by (rule sim_send) (simp_all add: quiet_body_def static_body_def)
  have one: "sim C reqs resps r ?r" by (rule sim_defer)
  also have "sim C reqs resps ?r (?r\<lparr>rf_log := log\<rparr>)"
    by (rule sim_log) (use assms static_merge log in \<open>auto simp: static_raft_def\<close>)
  also have "sim C reqs resps (?r\<lparr>rf_log := log\<rparr>) r1"
    by (cases es) (simp_all add: r1_def sim_mark_dirty)
  also have "sim C reqs resps r1 r2" by (simp add: r2_def sim_commit)
  also have "sim C reqs resps r2 r3" by (simp add: r3_def sim_commit)
  finally have three: "sim C reqs resps r r3" .
  have "handle_append r from pi pt es lc \<in>
      {send ?r from (AppendResp True (l_snapshot_index (rf_log ?r)) 0 0),
       send ?r from (AppendResp False 0 (last_index (rf_log ?r) + 1) 0),
       send r3 from (AppendResp True last_new 0 0)} \<union>
      range (\<lambda>t. send ?r from (AppendResp False 0 (find_conflict_by_term (rf_log ?r) pi t) t))"
    unfolding handle_append_def Let_def m r3_def r2_def r1_def
    by (simp split: option.split)
  then show ?thesis using sim_trans [OF one reply] sim_trans [OF three reply] by auto
qed

lemma sim_append_resp: "sim C reqs resps r (handle_append_resp r from b mi ci ct)"
proof -
  have prog: "sim C reqs resps r (r\<lparr>rf_progress := p\<rparr>)" for p by (rule sim_quiet) simp_all
  note a = sim_trans [OF prog sim_advance_commit]
  show ?thesis
    unfolding handle_append_resp_def Let_def
    by (auto intro: a sim_trans [OF a sim_send_append_to] sim_trans [OF prog sim_send_append_to]
      split: option.split)
qed

lemma sim_snapshot_resp: "sim C reqs resps r (handle_snapshot_resp r from b i)"
proof -
  have prog: "sim C reqs resps r (r\<lparr>rf_progress := p\<rparr>)" for p by (rule sim_quiet) simp_all
  show ?thesis
    unfolding handle_snapshot_resp_def Let_def
    by (auto intro: prog sim_trans [OF prog sim_advance_commit] split: option.split)
qed

lemma sim_snapshot:
  assumes "sn_config s = C"
  shows "sim C reqs resps r (handle_snapshot r from s)"
proof -
  let ?r = "defer_to r from" and ?i = "sn_last_index s"
  have reply: "sim C reqs resps r' (send r' from (SnapshotResp a b))" for r' a b
    by (rule sim_send) (simp_all add: quiet_body_def static_body_def)
  have one: "sim C reqs resps r ?r" by (rule sim_defer)
  let ?r1 = "?r\<lparr>rf_log := install_snapshot (rf_log ?r) s\<rparr>"
  let ?r2 = "?r1\<lparr>rf_commit := max (rf_commit ?r1) ?i, rf_applied := ?i, rf_hard_state_dirty := True\<rparr>"
  let ?r3 = "?r2\<lparr>rf_dirty_from := (if last_index (rf_log ?r1) > ?i then Some (?i + 1) else None),
      rf_pending := (rf_pending ?r)\<lparr>rdy_entries := [], rdy_snapshot := Some s\<rparr>\<rparr>"
  have "sim C reqs resps ?r ?r1"
    by (rule sim_log) (use assms static_install in \<open>auto simp: static_raft_def\<close>)
  also have "sim C reqs resps ?r1 (?r1\<lparr>rf_hard_state_dirty := True\<rparr>)" by (rule sim_soil)
  also have "sim C reqs resps (?r1\<lparr>rf_hard_state_dirty := True\<rparr>) ?r3"
    by (rule sim_quiet) (simp_all add: voter_of_def resp_of_def req_of_def static_raft_def)
  finally have two: "sim C reqs resps r ?r3" by (rule sim_trans [OF one])
  have h: "handle_snapshot r from s = (if ?i \<le> rf_commit ?r then send ?r from (SnapshotResp True (rf_commit ?r))
      else send ?r3 from (SnapshotResp True ?i))"
    by (simp add: handle_snapshot_def Let_def)
  show ?thesis
    unfolding h by (split if_split, intro conjI impI) (rule sim_trans [OF one reply], rule sim_trans [OF two reply])
qed

lemma sim_heartbeat: "sim C reqs resps r (handle_heartbeat r from c ctx)"
proof -
  let ?r = "defer_to r from"
  let ?r1 = "if min c (last_index (rf_log ?r)) > rf_commit ?r
    then ?r\<lparr>rf_commit := min c (last_index (rf_log ?r)), rf_hard_state_dirty := True\<rparr> else ?r"
  have "sim C reqs resps r ?r" by (rule sim_defer)
  also have "sim C reqs resps ?r ?r1" by (simp add: sim_commit)
  also have "sim C reqs resps ?r1 (send ?r1 from (HeartbeatResp ctx))"
    by (rule sim_send) (simp_all add: quiet_body_def static_body_def)
  finally show ?thesis by (simp add: handle_heartbeat_def Let_def)
qed

lemma sim_heartbeat_resp: "sim C reqs resps r (handle_heartbeat_resp r from ctx)"
proof (rule sim_quiet)
  show "voter_of (handle_heartbeat_resp r from ctx) = voter_of r"
    by (simp add: handle_heartbeat_resp_def Let_def voter_of_def resp_of_def req_of_def split: option.split)
  show "static_raft C r \<Longrightarrow> static_raft C (handle_heartbeat_resp r from ctx)"
    by (simp add: handle_heartbeat_resp_def Let_def static_raft_def split: option.split)
qed

subsection \<open>Messages\<close>

definition deliverable :: "(node_id \<times> raft_term) set \<Rightarrow> (node_id \<times> raft_term) set \<Rightarrow> node_id \<Rightarrow> message \<Rightarrow> bool" where
  "deliverable reqs resps from m =
     (case m_body m of
        VoteReq _ _ \<Rightarrow> (from, m_term m) \<in> reqs
      | VoteResp g \<Rightarrow> g \<longrightarrow> (from, m_term m) \<in> resps
      | _ \<Rightarrow> True)"

lemma become_follower_term: "rf_term (become_follower r t ldr) = max (rf_term r) t"
  by (auto simp: become_follower_def Let_def max_def not_le)

lemma sim_stale: "sim C reqs resps r (step_stale r from b)"
  by (cases b) (simp_all add: step_stale_def sim_send quiet_body_def static_body_def)

lemma sim_step_body:
  assumes "deliverable reqs resps from m" and "static_body C (m_body m)"
    and "\<not> is_pre_vote m \<Longrightarrow> rf_term r = m_term m" and "rf_term r \<noteq> - 1"
  shows "sim C reqs resps r (step_body r from m)"
proof (cases "m_body m")
  case TimeoutNow
  have "sim C reqs resps r (campaign r False)" if "promotable r"
    by (rule sim_campaign) (use that static_raft_config assms(4) in \<open>auto simp: may_stand_def promotable_def\<close>)
  then show ?thesis using TimeoutNow by (simp add: step_body_def)
next
  case (VoteReq li lt)
  then show ?thesis using assms(1,3) sim_vote_req by (simp add: step_body_def deliverable_def is_pre_vote_def)
next
  case (VoteResp g)
  then show ?thesis using assms(1,3) sim_vote_resp by (simp add: step_body_def deliverable_def is_pre_vote_def)
qed (use assms(2,4) sim_pre_vote_req sim_pre_vote_resp sim_append sim_append_resp sim_snapshot sim_snapshot_resp
       sim_heartbeat sim_heartbeat_resp in \<open>simp_all add: step_body_def static_body_def\<close>)

lemma sim_step:
  assumes "deliverable reqs resps from m" and "static_body C (m_body m)"
    and "rf_term r \<noteq> - 1" and "m_term m \<noteq> - 1"
  shows "sim C reqs resps r (step r from m)"
proof -
  let ?ldr = "case m_body m of VoteReq _ _ \<Rightarrow> None | VoteResp _ \<Rightarrow> None | _ \<Rightarrow> Some from"
  let ?r = "if m_term m > rf_term r \<and> \<not> is_pre_vote m then become_follower r (m_term m) ?ldr else r"
  have "sim C reqs resps r ?r" by (simp add: sim_become_follower)
  moreover have "sim C reqs resps ?r (step_stale ?r from (m_body m))" by (rule sim_stale)
  moreover have "sim C reqs resps ?r (step_body ?r from m)" if "\<not> m_term m < rf_term ?r"
  proof (rule sim_step_body [OF assms(1,2)])
    show "rf_term ?r = m_term m" if "\<not> is_pre_vote m"
      using that \<open>\<not> m_term m < rf_term ?r\<close> by (auto simp: become_follower_term split: if_splits)
    show "rf_term ?r \<noteq> - 1" using assms(3,4) by (auto simp: become_follower_term max_def)
  qed
  moreover have "step r from m = (if m_term m < rf_term ?r then step_stale ?r from (m_body m) else step_body ?r from m)"
    by (simp only: step_def Let_def)
  ultimately show ?thesis
    using sim_trans [of C reqs resps r ?r "step_stale ?r from (m_body m)"]
      sim_trans [of C reqs resps r ?r "step_body ?r from m"]
    by presburger
qed

subsection \<open>Inputs from the driver\<close>

lemma sim_check_quorum: "sim C reqs resps r (check_quorum r)"
proof -
  let ?r = "r\<lparr>rf_progress := map_option (\<lambda>p. p\<lparr>p_active := False\<rparr>) \<circ> rf_progress r\<rparr>"
  have one: "sim C reqs resps r ?r" by (rule sim_quiet) simp_all
  have "sim C reqs resps ?r (?r\<lparr>rf_quorum_contact_elapsed := 0\<rparr>)" by (rule sim_quiet) simp_all
  with sim_trans [OF one this] sim_trans [OF one sim_become_follower] show ?thesis
    by (simp add: check_quorum_def Let_def)
qed

lemma sim_expire: "sim C reqs resps r (expire_pending_snapshots r)"
proof -
  let ?t = "max (o_election_ticks (rf_opts r)) 1"
  let ?r = "r\<lparr>rf_progress := map_option (age_snapshot ?t) \<circ> rf_progress r\<rparr>"
  have "sim C reqs resps r ?r" by (rule sim_quiet) simp_all
  also have "sim C reqs resps ?r (foldl send_append_to ?r
      (filter (\<lambda>i. expired ?t (the (rf_progress r i))) (sorted_list_of_set (dom (rf_progress r)))))"
    by (rule sim_foldl) (rule sim_send_append_to)
  finally show ?thesis by (simp add: expire_pending_snapshots_def Let_def)
qed

lemma sim_start_election:
  assumes "promotable r" and "rf_term r \<noteq> - 1"
  shows "sim C reqs resps r (start_election r)"
  unfolding start_election_def
  by (rule sim_campaign) (use assms static_raft_config in \<open>auto simp: promotable_def may_stand_def\<close>)

lemma sim_tick:
  assumes "rf_term r \<noteq> - 1"
  shows "sim C reqs resps r (tick r rnd)"
proof -
  define r0 where "r0 = r\<lparr>rf_rand := rf_rand r XOR rnd, rf_election_elapsed := rf_election_elapsed r + 1\<rparr>"
  have zero: "sim C reqs resps r r0" by (rule sim_quiet) (simp_all add: r0_def)
  show ?thesis
  proof (cases "rf_role r0 = Leader")
    case True
    define r1 where "r1 = r0\<lparr>rf_heartbeat_elapsed := rf_heartbeat_elapsed r0 + 1,
        rf_quorum_contact_elapsed := rf_quorum_contact_elapsed r0 + 1\<rparr>"
    define r2 where "r2 = (if rf_heartbeat_elapsed r1 \<ge> o_heartbeat_ticks (rf_opts r1)
        then broadcast_append (r1\<lparr>rf_heartbeat_elapsed := 0\<rparr>) else r1)"
    define r3 where "r3 = (if rf_election_elapsed r2 \<ge> o_election_ticks (rf_opts r2)
        then check_quorum (r2\<lparr>rf_election_elapsed := 0\<rparr>) else r2)"
    have hb: "sim C reqs resps r' (r'\<lparr>rf_heartbeat_elapsed := x\<rparr>)" for r' x by (rule sim_quiet) simp_all
    have el: "sim C reqs resps r' (r'\<lparr>rf_election_elapsed := x\<rparr>)" for r' x by (rule sim_quiet) simp_all
    note zero
    also have "sim C reqs resps r0 r1" by (rule sim_quiet) (simp_all add: r1_def)
    also have "sim C reqs resps r1 r2" by (simp add: r2_def sim_trans [OF hb sim_broadcast])
    also have "sim C reqs resps r2 r3" by (simp add: r3_def sim_trans [OF el sim_check_quorum])
    also have "sim C reqs resps r3 (expire_pending_snapshots r3)" by (rule sim_expire)
    finally show ?thesis
      by (simp only: tick_def Let_def r0_def [symmetric] True simp_thms if_True r1_def [symmetric]
        r2_def [symmetric] r3_def [symmetric])
  next
    case False
    have "sim C reqs resps r0 (start_election r0)" if "promotable r0"
      by (rule sim_start_election [OF that]) (use assms in \<open>simp add: r0_def\<close>)
    then show ?thesis
      using False zero sim_trans [OF zero] unfolding tick_def Let_def r0_def [symmetric] by simp
  qed
qed

lemma sim_propose: "sim C reqs resps r (snd (propose r data))"
proof (cases "rf_role r = Leader")
  case True
  let ?e = "\<lparr>e_term = rf_term r, e_index = last_index (rf_log r) + 1, e_kind = Normal data\<rparr>"
  have "sim C reqs resps r (append_to_own_log r [?e])"
    by (rule sim_append_own) (simp add: static_entries_def is_config_entry_def)
  then show ?thesis
    using True sim_trans [OF _ sim_broadcast] by (simp add: propose_def Let_def)
qed (simp add: propose_def)

lemma sim_read_index: "sim C reqs resps r (snd (read_index r))"
proof -
  have hb: "sim C reqs resps r' (foldl (\<lambda>r peer. if peer \<noteq> rf_id r then
      send r peer (HeartbeatReq (min (rf_commit r) (case rf_progress r peer of Some p \<Rightarrow> p_matched p | None \<Rightarrow> 0)) ctx)
      else r) r' ps)" for r' ps ctx
    by (rule sim_foldl) (simp add: sim_send quiet_body_def static_body_def)
  have a: "sim C reqs resps r (r\<lparr>rf_read_ctx := c, rf_pending := (rf_pending r)\<lparr>rdy_reads := x\<rparr>\<rparr>)" for c x
    by (rule sim_quiet) (simp_all add: voter_of_def resp_of_def req_of_def static_raft_def)
  have b: "sim C reqs resps r (r\<lparr>rf_read_ctx := c, rf_pending_reads := x\<rparr>)" for c x
    by (rule sim_quiet) simp_all
  show ?thesis
    unfolding read_index_def Let_def using a sim_trans [OF b hb] by simp
qed

lemma sim_transfer: "sim C reqs resps r (snd (transfer_leadership r target))"
  by (simp add: transfer_leadership_def sim_send quiet_body_def static_body_def)

lemma sim_step_down: "sim C reqs resps r (step_down r)"
  by (simp add: step_down_def sim_become_follower)

lemma sim_set_persisted: "sim C reqs resps r (set_persisted r i)"
  by (rule sim_quiet) (simp_all add: set_persisted_def)

lemma sim_compact: "sn_config s = C \<Longrightarrow> sim C reqs resps r (compact r s)"
  unfolding compact_def by (rule sim_log) (simp add: static_raft_def static_compact)

lemma sim_send_snapshot:
  assumes "sn_config s = C"
  shows "sim C reqs resps r (send_snapshot r peer s)"
proof -
  have prog: "sim C reqs resps r (r\<lparr>rf_progress := p\<rparr>)" for p by (rule sim_quiet) simp_all
  have msg: "sim C reqs resps r' (send r' peer (SnapshotReq s))" for r'
    by (rule sim_send) (simp_all add: quiet_body_def static_body_def assms)
  show ?thesis
    unfolding send_snapshot_def Let_def using msg sim_trans [OF prog msg] by (auto split: option.split)
qed

lemma sim_finish_config: "sim C reqs resps r (snd (maybe_finish_config_change r))"
proof (cases "static_raft C r")
  case True
  then have "static_entries (l_entries (rf_log r))" by (simp add: static_raft_def static_log_def)
  then have "\<not> list_ex is_enter_joint (log_slice (rf_log r) a b)" for a b
    using log_slice_subset [of "rf_log r" a b]
    by (auto simp: list_ex_iff static_entries_def is_config_entry_def is_enter_joint_def split: entry_kind.splits)
  then show ?thesis by (simp add: maybe_finish_config_change_def)
qed (simp add: sim_def)

end
