(* ===== verification/Cluster.thy ===== *)
theory Cluster
  imports Election
begin

section \<open>A cluster of nodes, with message loss, failed writes and crashes\<close>

text \<open>
  The driver of \<open>node.rs\<close> around the state machine, as far as elections see it: it feeds
  inputs, and then runs the \<open>Ready\<close> cycle, which makes the hard state durable before it
  sends anything (\<open>cycle\<close>). A cycle whose write fails sends nothing and advances nothing
  (\<open>failed\<close>). A crash loses everything but the durable hard state and whatever log and
  snapshot recovery finds (\<open>crash\<close>).

  The network is the set of all messages ever sent: a message may be delivered at any later
  time, any number of times, or never. Membership is fixed: the configuration \<open>C\<close> never
  changes. Terms stay below the largest 64-bit value (the source increments them without a
  check).
\<close>

datatype input =
    Tick u64
  | Receive node_id message
  | Propose bytes
  | ReadIndex
  | Transfer node_id
  | StepDown
  | Compact snapshot
  | ShipSnapshot node_id snapshot
  | FinishConfig

fun feed :: "raft \<Rightarrow> input \<Rightarrow> raft" where
  "feed r (Tick rnd) = tick r rnd"
| "feed r (Receive from m) = step r from m"
| "feed r (Propose data) = snd (propose r data)"
| "feed r ReadIndex = snd (read_index r)"
| "feed r (Transfer target) = snd (transfer_leadership r target)"
| "feed r StepDown = step_down r"
| "feed r (Compact snap) = compact r snap"
| "feed r (ShipSnapshot peer snap) = send_snapshot r peer snap"
| "feed r FinishConfig = snd (maybe_finish_config_change r)"

record cluster =
  cl_node :: "node_id \<Rightarrow> raft"
  cl_durable :: "node_id \<Rightarrow> hard_state"
  cl_net :: "(node_id \<times> node_id \<times> message) set"
  cl_elected :: "(node_id \<times> raft_term) set"

definition leading :: "node_id \<Rightarrow> raft \<Rightarrow> (node_id \<times> raft_term) set" where
  "leading i r = (if rf_role r = Leader then {(i, rf_term r)} else {})"

fun input_ok :: "config \<Rightarrow> cluster \<Rightarrow> node_id \<Rightarrow> input \<Rightarrow> bool" where
  "input_ok C s i (Tick rnd) \<longleftrightarrow> rf_term (cl_node s i) \<noteq> - 1"
| "input_ok C s i (Receive from m) \<longleftrightarrow> (from, i, m) \<in> cl_net s \<and> rf_term (cl_node s i) \<noteq> - 1 \<and> m_term m \<noteq> - 1"
| "input_ok C s i (Compact snap) \<longleftrightarrow> sn_config snap = C"
| "input_ok C s i (ShipSnapshot peer snap) \<longleftrightarrow> sn_config snap = C"
| "input_ok C s i _ \<longleftrightarrow> True"

definition cluster_init :: "config \<Rightarrow> raft_options \<Rightarrow> cluster \<Rightarrow> bool" where
  "cluster_init C opts s \<longleftrightarrow> cl_node s = (\<lambda>i. raft_new i C opts) \<and>
     cl_durable s = (\<lambda>i. default_hard_state) \<and> cl_net s = {} \<and> cl_elected s = {}"

definition put_node :: "cluster \<Rightarrow> node_id \<Rightarrow> raft \<Rightarrow> hard_state \<Rightarrow> cluster" where
  "put_node s i r hs = s\<lparr>cl_node := (cl_node s)(i := r), cl_durable := (cl_durable s)(i := hs),
     cl_elected := cl_elected s \<union> leading i r\<rparr>"

definition transmit :: "cluster \<Rightarrow> node_id \<Rightarrow> (node_id \<times> message) list \<Rightarrow> cluster" where
  "transmit s i msgs = s\<lparr>cl_net := cl_net s \<union> {(i, to, m) |to m. (to, m) \<in> set msgs}\<rparr>"

definition saved_hs :: "hard_state \<Rightarrow> ready \<Rightarrow> hard_state" where
  "saved_hs old rd = (case rdy_hard_state rd of None \<Rightarrow> old | Some hs \<Rightarrow> hs)"

inductive cluster_step :: "config \<Rightarrow> raft_options \<Rightarrow> cluster \<Rightarrow> cluster \<Rightarrow> bool" for C opts where
  input: "input_ok C s i inp \<Longrightarrow>
    cluster_step C opts s (put_node s i (feed (cl_node s i) inp) (cl_durable s i))"
| cycle: "take_ready (cl_node s i) = (rd, r) \<Longrightarrow>
    cluster_step C opts s (transmit (put_node s i (advance (set_persisted r w) rd)
      (saved_hs (cl_durable s i) rd)) i (rdy_messages rd))"
| failed: "take_ready (cl_node s i) = (rd, r) \<Longrightarrow> hs \<in> {cl_durable s i, saved_hs (cl_durable s i) rd} \<Longrightarrow>
    cluster_step C opts s (put_node s i (step_down r) hs)"
| crash: "pred_option (\<lambda>sn. sn_config sn = C) snap \<Longrightarrow> static_entries es \<Longrightarrow>
    cluster_step C opts s (put_node s i (raft_restore i opts (cl_durable s i) snap es C) (cl_durable s i))"

definition reachable :: "config \<Rightarrow> raft_options \<Rightarrow> cluster \<Rightarrow> bool" where
  "reachable C opts s \<longleftrightarrow> (\<exists>s0. cluster_init C opts s0 \<and> (cluster_step C opts)\<^sup>*\<^sup>* s0 s)"

subsection \<open>The Ready cycle and recovery, seen by the specification\<close>

lemma take_ready_voter:
  assumes "take_ready r = (rd, r')" and "static_raft C r"
  shows "voter_of r' = (voter_of r)\<lparr>ev_dirty := False, ev_resp := {}, ev_req := {}\<rparr>"
    and "rdy_messages rd = rdy_messages (rf_pending r)"
    and "rdy_hard_state rd = (if to_save (voter_of r) then Some (raft_hard_state r) else None)"
    and "static_raft C r'"
  using assms
  by (auto simp: take_ready_def Let_def voter_of_def to_save_def static_raft_def raft_hard_state_def
      ready_default_def resp_of_def req_of_def split: option.splits if_splits prod.splits)

lemma advance_sim:
  assumes "static_raft C r"
  shows "static_raft C (advance r rd) \<and>
    (vote_move C reqs resps)\<^sup>*\<^sup>*
      (case rdy_hard_state rd of None \<Rightarrow> voter_of r | Some hs \<Rightarrow> (voter_of r)\<lparr>ev_saved := (hs_term hs, hs_vote hs)\<rparr>)
      (voter_of (advance r rd))"
proof -
  let ?r1 = "case rdy_hard_state rd of None \<Rightarrow> r | Some hs \<Rightarrow> r\<lparr>rf_persisted_hard_state := hs\<rparr>"
  let ?r2 = "case rf_progress ?r1 (rf_id ?r1) of None \<Rightarrow> ?r1
    | Some p \<Rightarrow> ?r1\<lparr>rf_progress := (rf_progress ?r1)(rf_id ?r1 \<mapsto> p\<lparr>p_matched := rf_persisted ?r1, p_next := rf_persisted ?r1 + 1\<rparr>)\<rparr>"
  let ?r3 = "if rf_role ?r2 = Leader then maybe_advance_commit ?r2 else ?r2"
  let ?r4 = "if rdy_committed rd = [] then ?r3 else ?r3\<lparr>rf_applied := e_index (last (rdy_committed rd))\<rparr>"
  have v1: "voter_of ?r1 = (case rdy_hard_state rd of None \<Rightarrow> voter_of r | Some hs \<Rightarrow> (voter_of r)\<lparr>ev_saved := (hs_term hs, hs_vote hs)\<rparr>)"
    by (simp add: voter_of_def split: option.split)
  have s1: "static_raft C ?r1" using assms by (simp split: option.split)
  have "sim C reqs resps ?r1 ?r2" by (rule sim_quiet) (simp_all split: option.split)
  also have "sim C reqs resps ?r2 ?r3" by (simp add: sim_advance_commit)
  also have "sim C reqs resps ?r3 (?r4\<lparr>rf_dirty_from := None\<rparr>)" by (rule sim_quiet) simp_all
  finally have "sim C reqs resps ?r1 (advance r rd)" by (simp only: advance_def Let_def)
  then show ?thesis using s1 unfolding sim_def v1 by blast
qed

lemma restore_static:
  assumes "pred_option (\<lambda>sn. sn_config sn = C) snap" and "static_entries es"
  shows "static_raft C (raft_restore i opts hs snap es C)"
proof -
  have boot: "static_log C (log_append (log_bootstrap C) (entries_from (log_restore snap es) 1))"
  proof (rule static_append)
    have "set (entries_from (log_restore snap es) 1) \<subseteq> set es"
      using log_slice_subset [of "log_restore snap es"]
      by (auto simp: entries_from_def log_restore_def split: option.splits)
    then show "static_entries (entries_from (log_restore snap es) 1)" using assms(2) static_entries_sub by blast
  qed (simp add: static_log_def log_bootstrap_def static_entries_def)
  have own: "static_log C (log_restore snap es)" if "voters (log_config (log_restore snap es)) \<noteq> {}"
  proof (cases snap)
    case None
    have "static_log default_config (log_restore None es)"
      using assms(2) by (simp add: static_log_def log_restore_def log_new_def)
    then show ?thesis using that None static_log_config by (fastforce simp: default_config_def)
  qed (use assms in \<open>simp add: static_log_def log_restore_def\<close>)
  show ?thesis
    using boot own by (simp add: raft_restore_def Let_def static_raft_def raft_new_def ready_default_def)
qed

lemma restore_voter: "voter_of (raft_restore i opts hs snap es C) = fresh_voter i (hs_term hs, hs_vote hs)"
  by (simp add: voter_of_def raft_restore_def raft_new_def fresh_voter_def Let_def)

subsection \<open>The simulation\<close>

definition net_reqs :: "(node_id \<times> node_id \<times> message) set \<Rightarrow> (node_id \<times> raft_term) set" where
  "net_reqs net = {(i, t). \<exists>to li lt. (i, to, \<lparr>m_term = t, m_body = VoteReq li lt\<rparr>) \<in> net}"

definition net_resps :: "(node_id \<times> node_id \<times> message) set \<Rightarrow> (node_id \<times> node_id \<times> raft_term) set" where
  "net_resps net = {(n, c, t). (n, c, \<lparr>m_term = t, m_body = VoteResp True\<rparr>) \<in> net}"

definition refines :: "config \<Rightarrow> cluster \<Rightarrow> vote_system \<Rightarrow> bool" where
  "refines C s a \<longleftrightarrow> vote_inv C a \<and>
     (\<forall>i. static_raft C (cl_node s i)) \<and>
     (\<forall>i to m. (i, to, m) \<in> cl_net s \<longrightarrow> static_body C (m_body m)) \<and>
     vs_node a = voter_of \<circ> cl_node s \<and>
     vs_durable a = (\<lambda>i. (hs_term (cl_durable s i), hs_vote (cl_durable s i))) \<and>
     vs_reqs a = net_reqs (cl_net s) \<and> vs_resps a = net_resps (cl_net s) \<and>
     cl_elected s \<subseteq> vs_elected a"

lemma moves_steps:
  assumes "vote_inv C a" and "(vote_move C (vs_reqs a) (resps_to a i))\<^sup>*\<^sup>* (vs_node a i) e"
  shows "\<exists>E. vs_elected a \<subseteq> E \<and> leads i e \<subseteq> E \<and>
    (vote_step C)\<^sup>*\<^sup>* a (a\<lparr>vs_node := (vs_node a)(i := e), vs_elected := E\<rparr>)"
  using assms(2)
proof (induction rule: rtranclp_induct)
  case base
  have "leads i (vs_node a i) \<subseteq> vs_elected a"
    using node_invD(13) [OF vote_invD(1) [OF assms(1)], of i] by (auto simp: leads_def)
  moreover have "a\<lparr>vs_node := (vs_node a)(i := vs_node a i), vs_elected := vs_elected a\<rparr> = a" by simp
  ultimately show ?case by (metis order_refl rtranclp.rtrancl_refl)
next
  case (step e e')
  then obtain E where E: "vs_elected a \<subseteq> E" "(vote_step C)\<^sup>*\<^sup>* a (a\<lparr>vs_node := (vs_node a)(i := e), vs_elected := E\<rparr>)"
    by blast
  let ?b = "a\<lparr>vs_node := (vs_node a)(i := e), vs_elected := E\<rparr>"
  have "vote_move C (vs_reqs ?b) (resps_to ?b i) (vs_node ?b i) e'"
    using step.hyps(2) by (simp add: resps_to_def)
  from vote_step.move [OF this]
  have last: "vote_step C ?b (a\<lparr>vs_node := (vs_node a)(i := e'), vs_elected := E \<union> leads i e'\<rparr>)" by simp
  show ?case
  proof (intro exI conjI)
    show "(vote_step C)\<^sup>*\<^sup>* a (a\<lparr>vs_node := (vs_node a)(i := e'), vs_elected := E \<union> leads i e'\<rparr>)"
      by (rule rtranclp.rtrancl_into_rtrancl [OF E(2) last])
  qed (use E(1) in auto)
qed

lemma steps_inv: "(vote_step C)\<^sup>*\<^sup>* a b \<Longrightarrow> vote_inv C a \<Longrightarrow> vote_inv C b"
  by (induction rule: rtranclp_induct) (auto intro: vote_inv_step)

lemma leading_voter: "leading i r = leads i (voter_of r)"
  by (simp add: leading_def leads_def voter_of_def)

text \<open>A change of one node that the specification matches by moves, with the rest in place.\<close>

lemma refines_moves:
  assumes "refines C s a" and "static_raft C r"
    and "(vote_move C (vs_reqs a) (resps_to a i))\<^sup>*\<^sup>* (voter_of (cl_node s i)) (voter_of r)"
  shows "\<exists>b. (vote_step C)\<^sup>*\<^sup>* a b \<and> refines C (put_node s i r (cl_durable s i)) b"
proof -
  have inv: "vote_inv C a" and node: "vs_node a i = voter_of (cl_node s i)"
    using assms(1) by (simp_all add: refines_def)
  from moves_steps [OF inv assms(3) [folded node]] obtain E where
    E: "vs_elected a \<subseteq> E" "leads i (voter_of r) \<subseteq> E"
      "(vote_step C)\<^sup>*\<^sup>* a (a\<lparr>vs_node := (vs_node a)(i := voter_of r), vs_elected := E\<rparr>)"
    by blast
  let ?b = "a\<lparr>vs_node := (vs_node a)(i := voter_of r), vs_elected := E\<rparr>"
  have "refines C (put_node s i r (cl_durable s i)) ?b"
    using assms(1,2) E(1,2) steps_inv [OF E(3) inv]
    by (auto simp: refines_def put_node_def leading_voter fun_eq_iff)
  with E(3) show ?thesis by blast
qed

lemma deliverable_net:
  assumes "refines C s a" and "(from, i, m) \<in> cl_net s"
  shows "deliverable (vs_reqs a) (resps_to a i) from m"
  using assms
  by (cases m) (auto simp: refines_def deliverable_def resps_to_def net_reqs_def net_resps_def split: body.split)

lemma feed_sim:
  assumes "refines C s a" and "input_ok C s i inp"
  shows "sim C (vs_reqs a) (resps_to a i) (cl_node s i) (feed (cl_node s i) inp)"
proof (cases inp)
  case (Receive "from" m)
  then have n: "(from, i, m) \<in> cl_net s" using assms(2) by simp
  have "static_body C (m_body m)" using assms(1) n by (auto simp: refines_def)
  from sim_step [OF deliverable_net [OF assms(1) n] this] show ?thesis
    using assms(2) Receive by simp
qed (use assms(2) sim_tick sim_propose sim_read_index sim_transfer sim_step_down sim_compact sim_send_snapshot
       sim_finish_config in auto)

lemma refines_input:
  assumes "refines C s a" and "input_ok C s i inp"
  shows "\<exists>b. (vote_step C)\<^sup>*\<^sup>* a b \<and> refines C (put_node s i (feed (cl_node s i) inp) (cl_durable s i)) b"
proof -
  have "static_raft C (cl_node s i)" using assms(1) by (simp add: refines_def)
  with feed_sim [OF assms] show ?thesis unfolding sim_def by (intro refines_moves [OF assms(1)]) blast+
qed

lemma net_reqs_transmit:
  "net_reqs (cl_net (transmit s i msgs)) = net_reqs (cl_net s) \<union>
     {i} \<times> {t. \<exists>to li lt. (to, \<lparr>m_term = t, m_body = VoteReq li lt\<rparr>) \<in> set msgs}"
  by (auto simp: net_reqs_def transmit_def)

lemma net_resps_transmit:
  "net_resps (cl_net (transmit s i msgs)) = net_resps (cl_net s) \<union>
     {i} \<times> {(c, t). (c, \<lparr>m_term = t, m_body = VoteResp True\<rparr>) \<in> set msgs}"
  by (auto simp: net_resps_def transmit_def)

lemma refines_cycle:
  assumes "refines C s a" and "take_ready (cl_node s i) = (rd, r)"
  shows "\<exists>b. (vote_step C)\<^sup>*\<^sup>* a b \<and>
    refines C (transmit (put_node s i (advance (set_persisted r w) rd) (saved_hs (cl_durable s i) rd)) i (rdy_messages rd)) b"
proof -
  let ?r0 = "cl_node s i" and ?e = "voter_of (cl_node s i)"
  have st: "static_raft C ?r0" and inv: "vote_inv C a" and node: "vs_node a i = ?e"
    using assms(1) by (simp_all add: refines_def)
  note T = take_ready_voter [OF assms(2) st]
  define e1 where "e1 = ?e\<lparr>ev_dirty := False, ev_resp := {}, ev_req := {},
      ev_saved := if to_save ?e then ev_ballot ?e else ev_saved ?e\<rparr>"
  define a1 where "a1 = a\<lparr>vs_node := (vs_node a)(i := e1),
      vs_durable := (vs_durable a)(i := if to_save ?e then ev_ballot ?e else vs_durable a i),
      vs_reqs := vs_reqs a \<union> {i} \<times> ev_req ?e, vs_resps := vs_resps a \<union> {i} \<times> ev_resp ?e\<rparr>"
  have flush: "vote_step C a a1"
    using vote_step.flush [of C a i] unfolding a1_def e1_def node .
  have sp: "voter_of (set_persisted r w) = voter_of r" "static_raft C (set_persisted r w)"
    using T(4) by (simp_all add: set_persisted_def)
  have start: "(case rdy_hard_state rd of None \<Rightarrow> voter_of (set_persisted r w)
      | Some hs \<Rightarrow> (voter_of (set_persisted r w))\<lparr>ev_saved := (hs_term hs, hs_vote hs)\<rparr>) = e1"
    unfolding sp(1) T(1,3) e1_def by (simp add: raft_hard_state_def voter_of_def)
  define s1 where "s1 = transmit (s\<lparr>cl_durable := (cl_durable s)(i := saved_hs (cl_durable s i) rd)\<rparr>) i (rdy_messages rd)"
  have "ev_resp ?e = resp_of (rf_pending ?r0)" "ev_req ?e = req_of (rf_pending ?r0)" by (simp_all add: voter_of_def)
  then have nets: "vs_reqs a1 = net_reqs (cl_net s1)" "vs_resps a1 = net_resps (cl_net s1)"
    using assms(1)
    by (simp_all add: a1_def s1_def net_reqs_transmit net_resps_transmit T(2) resp_of_def req_of_def refines_def)
  have dur: "vs_durable a1 = (\<lambda>j. (hs_term (cl_durable s1 j), hs_vote (cl_durable s1 j)))"
    using assms(1) T(3)
    by (auto simp: a1_def s1_def transmit_def saved_hs_def refines_def raft_hard_state_def voter_of_def)
  have inv1: "vote_inv C a1" by (rule vote_inv_step [OF flush inv])
  obtain E where E: "vs_elected a1 \<subseteq> E" "leads i (voter_of (advance (set_persisted r w) rd)) \<subseteq> E"
      "(vote_step C)\<^sup>*\<^sup>* a1 (a1\<lparr>vs_node := (vs_node a1)(i := voter_of (advance (set_persisted r w) rd)), vs_elected := E\<rparr>)"
    using moves_steps [OF inv1, of i "voter_of (advance (set_persisted r w) rd)"]
      advance_sim [OF sp(2), where rd = rd] unfolding start by (auto simp: a1_def)
  let ?b = "a1\<lparr>vs_node := (vs_node a1)(i := voter_of (advance (set_persisted r w) rd)), vs_elected := E\<rparr>"
  have msgs: "\<forall>(to, m)\<in>set (rdy_messages rd). static_body C (m_body m)"
    using st unfolding T(2) by (simp add: static_raft_def)
  have "(vote_step C)\<^sup>*\<^sup>* a ?b" by (rule converse_rtranclp_into_rtranclp [OF flush E(3)])
  moreover have "refines C (transmit (put_node s i (advance (set_persisted r w) rd) (saved_hs (cl_durable s i) rd)) i (rdy_messages rd)) ?b"
    using assms(1) advance_sim [OF sp(2), of rd] E(1,2) steps_inv [OF E(3) inv1] nets dur msgs
    unfolding refines_def
    by (auto simp: put_node_def transmit_def s1_def a1_def leading_voter fun_eq_iff)
  ultimately show ?thesis by blast
qed

lemma refines_replace:
  assumes "refines C s a" and "static_raft C r"
    and "vote_step C a (a\<lparr>vs_node := (vs_node a)(i := voter_of r), vs_durable := (vs_durable a)(i := (hs_term hs, hs_vote hs))\<rparr>)"
    and "rf_role r = Leader \<Longrightarrow> (i, rf_term r) \<in> vs_elected a"
  shows "refines C (put_node s i r hs)
    (a\<lparr>vs_node := (vs_node a)(i := voter_of r), vs_durable := (vs_durable a)(i := (hs_term hs, hs_vote hs))\<rparr>)"
  using assms vote_inv_step [OF assms(3)]
  by (auto simp: refines_def put_node_def leading_def fun_eq_iff)

lemma refines_failed:
  assumes "refines C s a" and "take_ready (cl_node s i) = (rd, r)"
    and "hs \<in> {cl_durable s i, saved_hs (cl_durable s i) rd}"
  shows "\<exists>b. (vote_step C)\<^sup>*\<^sup>* a b \<and> refines C (put_node s i (step_down r) hs) b"
proof -
  let ?e = "voter_of (cl_node s i)"
  have st: "static_raft C (cl_node s i)" and inv: "vote_inv C a" and node: "vs_node a i = ?e"
    and dur: "vs_durable a i = (hs_term (cl_durable s i), hs_vote (cl_durable s i))"
    using assms(1) by (simp_all add: refines_def)
  note T = take_ready_voter [OF assms(2) st]
  have d: "(hs_term hs, hs_vote hs) = vs_durable a i \<or> to_save ?e \<and> (hs_term hs, hs_vote hs) = ev_ballot ?e"
    using assms(3) T(3) dur by (auto simp: saved_hs_def raft_hard_state_def voter_of_def split: if_splits)
  let ?a1 = "a\<lparr>vs_node := (vs_node a)(i := voter_of r), vs_durable := (vs_durable a)(i := (hs_term hs, hs_vote hs))\<rparr>"
  have one: "vote_step C a ?a1"
    using vote_step.fail [of "(hs_term hs, hs_vote hs)" a i C] d unfolding node T(1) by blast
  have "rf_role r = Leader \<Longrightarrow> (i, rf_term r) \<in> vs_elected a"
    using node_invD(13) [OF vote_invD(1) [OF inv], of i] arg_cong [OF T(1), of ev_role]
      arg_cong [OF T(1), of ev_ballot] unfolding node by (simp add: voter_of_def)
  from refines_replace [OF assms(1) T(4) one this]
  have r1: "refines C (put_node s i r hs) ?a1" .
  have "static_raft C (step_down r) \<and> (vote_move C (vs_reqs ?a1) (resps_to ?a1 i))\<^sup>*\<^sup>* (voter_of r) (voter_of (step_down r))"
    using sim_step_down T(4) unfolding sim_def by blast
  then obtain b where b: "(vote_step C)\<^sup>*\<^sup>* ?a1 b"
      "refines C (put_node (put_node s i r hs) i (step_down r) (cl_durable (put_node s i r hs) i)) b"
    using refines_moves [OF r1, of "step_down r" i] by (auto simp: put_node_def)
  moreover have "refines C (put_node s i (step_down r) hs) b"
    using b(2) by (auto simp: refines_def put_node_def)
  ultimately show ?thesis
    using converse_rtranclp_into_rtranclp [where r = "vote_step C", OF one b(1)] by blast
qed

lemma refines_crash:
  assumes "refines C s a" and "pred_option (\<lambda>sn. sn_config sn = C) snap" and "static_entries es"
  shows "\<exists>b. (vote_step C)\<^sup>*\<^sup>* a b \<and>
    refines C (put_node s i (raft_restore i opts (cl_durable s i) snap es C) (cl_durable s i)) b"
proof -
  let ?r = "raft_restore i opts (cl_durable s i) snap es C" and ?hs = "cl_durable s i"
  let ?b = "a\<lparr>vs_node := (vs_node a)(i := voter_of ?r), vs_durable := (vs_durable a)(i := (hs_term ?hs, hs_vote ?hs))\<rparr>"
  have d: "vs_durable a i = (hs_term ?hs, hs_vote ?hs)" using assms(1) by (simp add: refines_def)
  have "(vs_durable a)(i := (hs_term ?hs, hs_vote ?hs)) = vs_durable a" using d by (simp add: fun_eq_iff)
  then have one: "vote_step C a ?b"
    using vote_step.crash [of C a i] unfolding restore_voter d by simp
  have "rf_role ?r \<noteq> Leader" by (simp add: raft_restore_def raft_new_def Let_def)
  with refines_replace [OF assms(1) restore_static [OF assms(2,3)] one] have "refines C (put_node s i ?r ?hs) ?b"
    by blast
  with one show ?thesis by blast
qed

lemma refines_step:
  assumes "cluster_step C opts s s'" and "refines C s a"
  shows "\<exists>b. (vote_step C)\<^sup>*\<^sup>* a b \<and> refines C s' b"
  using assms
  by (cases rule: cluster_step.cases)
    (auto intro: refines_input refines_cycle refines_failed refines_crash)

lemma refines_init:
  assumes "cluster_init C opts s"
  shows "\<exists>a. vote_init a \<and> refines C s a"
proof -
  let ?a = "\<lparr>vs_node = \<lambda>i. fresh_voter i (0, None), vs_durable = \<lambda>i. (0, None), vs_reqs = {}, vs_resps = {}, vs_elected = {}\<rparr>"
  have init: "vote_init ?a" by (simp add: vote_init_def)
  have "static_raft C (raft_new i C opts)" for i
    by (simp add: raft_new_def static_raft_def static_log_def static_entries_def log_bootstrap_def ready_default_def)
  moreover have "voter_of (raft_new i C opts) = fresh_voter i (0, None)" for i
    by (simp add: voter_of_def raft_new_def fresh_voter_def default_hard_state_def)
  ultimately have "refines C s ?a"
    using assms vote_inv_init [OF init]
    by (simp add: refines_def cluster_init_def default_hard_state_def net_reqs_def net_resps_def fun_eq_iff)
  with init show ?thesis by blast
qed

lemma reachable_refines:
  assumes "reachable C opts s"
  shows "\<exists>a. vote_reachable C a \<and> refines C s a"
proof -
  obtain s0 where "cluster_init C opts s0" "(cluster_step C opts)\<^sup>*\<^sup>* s0 s"
    using assms by (auto simp: reachable_def)
  then obtain a0 where a0: "vote_init a0" "refines C s0 a0" using refines_init by blast
  from \<open>(cluster_step C opts)\<^sup>*\<^sup>* s0 s\<close> have "\<exists>a. (vote_step C)\<^sup>*\<^sup>* a0 a \<and> refines C s a"
  proof (induction rule: rtranclp_induct)
    case (step s s')
    then obtain a where "(vote_step C)\<^sup>*\<^sup>* a0 a" "refines C s a" by blast
    with refines_step [OF step.hyps(2)] show ?case by (meson rtranclp_trans)
  qed (use a0 in blast)
  with a0(1) show ?thesis by (auto simp: vote_reachable_def)
qed

subsection \<open>Election Safety\<close>

text \<open>Node \<open>i\<close> leads in term \<open>t\<close> now, or led in it at some earlier point of the run.\<close>

definition led :: "cluster \<Rightarrow> node_id \<Rightarrow> raft_term \<Rightarrow> bool" where
  "led s i t \<longleftrightarrow> (i, t) \<in> cl_elected s \<or> rf_role (cl_node s i) = Leader \<and> rf_term (cl_node s i) = t"

definition lone_opts :: raft_options where
  "lone_opts = default_options\<lparr>o_election_ticks := 0\<rparr>"

definition lone_start :: cluster where
  "lone_start = \<lparr>cl_node = \<lambda>i. raft_new i (simple_config [1]) lone_opts, cl_durable = \<lambda>i. default_hard_state,
     cl_net = {}, cl_elected = {}\<rparr>"

definition lone_cluster :: cluster where
  "lone_cluster = put_node lone_start 1 (feed (cl_node lone_start 1) (Tick 7)) (cl_durable lone_start 1)"

lemma lone_steps:
  "cluster_init (simple_config [1]) lone_opts lone_start"
  "cluster_step (simple_config [1]) lone_opts lone_start lone_cluster"
proof -
  show "cluster_init (simple_config [1]) lone_opts lone_start" by (simp add: cluster_init_def lone_start_def)
  have "input_ok (simple_config [1]) lone_start 1 (Tick 7)" by (simp add: lone_start_def raft_new_def)
  then show "cluster_step (simple_config [1]) lone_opts lone_start lone_cluster"
    unfolding lone_cluster_def by (rule cluster_step.input)
qed

lemma lone_reachable: "reachable (simple_config [1]) lone_opts lone_cluster"
  using lone_steps unfolding reachable_def by blast

lemma lone_led: "led lone_cluster 1 1"
proof -
  have q: "has_quorum (simple_config [1]) {1}" by code_simp
  have "is_voter (simple_config [1]) 1" by code_simp
  moreover have "all_nodes (simple_config [1]) = {1}" by (simp add: all_nodes_def simple_config_def)
  ultimately show ?thesis using q
    by (simp add: led_def lone_cluster_def put_node_def leading_def lone_start_def tick_def raft_new_def Let_def
      promotable_def raft_config_def log_config_def log_bootstrap_def lone_opts_def default_options_def
      start_election_def campaign_def campaign_begin_def stir_def campaign_vote_def tally_def
      become_leader_def reset_progress_for_config_def append_to_own_log_def mark_dirty_def broadcast_append_def replay_def log_append_def)
qed

lemma refines_led:
  assumes "refines C s a" and "led s i t"
  shows "(i, t) \<in> vs_elected a"
proof -
  have "vote_inv C a" using assms(1) by (simp add: refines_def)
  then show ?thesis
    using assms node_invD(13) [OF vote_invD(1), of C a i] by (auto simp: led_def refines_def voter_of_def)
qed

text \<open>
  C2: the implementation refines the election specification, step by step. Every initial
  state of the cluster is related to an initial state of the specification. Every single
  step of the cluster, be it an input, a persist, a delivery, a loss, a refused write or a
  crash, is matched by steps of the specification that lead to a related state. In related
  states the ballots, the durable ballots, the vote requests and the granted votes are the
  same, and everyone who ever led is recorded as elected.
\<close>

theorem cluster_refines_votes:
  "(cluster_init C opts s \<longrightarrow> (\<exists>a. vote_init a \<and> refines C s a)) \<and>
   (cluster_step C opts s s' \<and> refines C s a \<longrightarrow> (\<exists>b. (vote_step C)\<^sup>*\<^sup>* a b \<and> refines C s' b)) \<and>
   (refines C s a \<longrightarrow>
     (\<forall>i. vs_node a i = voter_of (cl_node s i)) \<and>
     (\<forall>i. vs_durable a i = (hs_term (cl_durable s i), hs_vote (cl_durable s i))) \<and>
     vs_reqs a = net_reqs (cl_net s) \<and> vs_resps a = net_resps (cl_net s) \<and>
     (\<forall>i t. led s i t \<longrightarrow> (i, t) \<in> vs_elected a))"
proof (intro conjI impI)
  assume "refines C s a"
  then show "\<forall>i t. led s i t \<longrightarrow> (i, t) \<in> vs_elected a" using refines_led by blast
next
  assume "cluster_init C opts s"
  then show "\<exists>a. vote_init a \<and> refines C s a" by (rule refines_init)
next
  assume "cluster_step C opts s s' \<and> refines C s a"
  then show "\<exists>b. (vote_step C)\<^sup>*\<^sup>* a b \<and> refines C s' b" using refines_step by blast
qed (simp_all add: refines_def)

theorem cluster_refines_votes_witness:
  "\<exists>a b. vote_init a \<and> refines (simple_config [1]) lone_start a \<and> (vote_step (simple_config [1]))\<^sup>*\<^sup>* a b \<and>
     refines (simple_config [1]) lone_cluster b \<and> (1, 1) \<in> vs_elected b"
proof -
  let ?C = "simple_config [1]"
  obtain a where a: "vote_init a" "refines ?C lone_start a"
    using cluster_refines_votes [of ?C lone_opts lone_start] lone_steps(1) by blast
  then obtain b where b: "(vote_step ?C)\<^sup>*\<^sup>* a b" "refines ?C lone_cluster b"
    using cluster_refines_votes [of ?C lone_opts lone_start lone_cluster a] lone_steps(2) by blast
  then have "(1, 1) \<in> vs_elected b" using cluster_refines_votes [of ?C lone_opts lone_cluster _ b] lone_led by blast
  with a b show ?thesis by blast
qed

lemma leader_unique:
  assumes "reachable C opts s" and "led s i t" and "led s j t"
  shows "i = j"
proof -
  obtain a where a: "vote_reachable C a" "refines C s a" using reachable_refines [OF assms(1)] by blast
  have inv: "vote_inv C a" by (rule vote_reachable_inv [OF a(1)])
  from refines_led [OF a(2)] assms(2,3) show ?thesis using vote_safety [OF inv] by blast
qed

text \<open>
  C1: Election Safety. In a cluster of fixed membership, at most one node ever leads in a
  given term, over the whole run: messages may be lost, delayed, duplicated and reordered,
  nodes may crash and restart at any point, and writes of the hard state may fail.
\<close>

theorem election_safety:
  assumes "reachable C opts s" and "led s i t" and "led s j t"
  shows "i = j"
  using assms by (rule leader_unique)

theorem election_safety_witness:
  "led lone_cluster 1 1 \<and> {j. led lone_cluster j 1} = {1}"
  using lone_led election_safety [OF lone_reachable lone_led] by blast

end
