(* ===== verification/Kv_Store.thy ===== *)
theory Kv_Store
  imports Client_Proto
begin

section \<open>The replicated state machine (chronolog/src/kv.rs)\<close>

text \<open>
  The key-value store with per-key version history and the session table that makes retries
  idempotent. Both tables are maps; where the source iterates them (\<open>snapshot\<close>) it does so
  in key order, which is \<open>sorted_list_of_set\<close> of the domain.

  The interface \<open>dedup_machine\<close> states what deduplication at apply time promises: at most
  one session entry changes per step, a repeated request is answered from the table, a stale
  one is refused. Its lemmas give exactly-once behaviour under any interleaving.
\<close>

record kv_version =
  v_version :: index
  v_value :: "bytes option"

record session =
  s_last_seq :: u64
  s_last_outcome :: outcome

record kv_store =
  k_data :: "bytes \<rightharpoonup> kv_version list"
  k_sessions :: "u64 \<rightharpoonup> session"
  k_applied :: index
  k_keep_versions :: nat

definition kv_new :: kv_store where
  "kv_new = \<lparr>k_data = Map.empty, k_sessions = Map.empty, k_applied = 0, k_keep_versions = 16\<rparr>"

definition last_opt :: "'a list \<Rightarrow> 'a option" where
  "last_opt xs = (if xs = [] then None else Some (last xs))"

definition live :: "kv_version list \<Rightarrow> bool" where
  "live vs = (case last_opt vs of None \<Rightarrow> False | Some v \<Rightarrow> v_value v \<noteq> None)"

definition kv_keys :: "kv_store \<Rightarrow> bytes list" where
  "kv_keys kv = filter (\<lambda>k. live (the (k_data kv k))) (sorted_list_of_set (dom (k_data kv)))"

definition kv_len :: "kv_store \<Rightarrow> nat" where
  "kv_len kv = card {k \<in> dom (k_data kv). live (the (k_data kv k))}"

definition kv_get :: "kv_store \<Rightarrow> bytes \<Rightarrow> bytes option" where
  "kv_get kv key = Option.bind (k_data kv key) (\<lambda>vs. Option.bind (last_opt vs) v_value)"

definition kv_get_at :: "kv_store \<Rightarrow> bytes \<Rightarrow> index \<Rightarrow> bytes option" where
  "kv_get_at kv key version =
     Option.bind (k_data kv key) (\<lambda>vs.
       Option.bind (List.find (\<lambda>v. v_version v \<le> version) (rev vs)) v_value)"

definition history :: "kv_store \<Rightarrow> bytes \<Rightarrow> kv_version list" where
  "history kv key = (case k_data kv key of None \<Rightarrow> [] | Some vs \<Rightarrow> vs)"

definition kv_write :: "kv_store \<Rightarrow> bytes \<Rightarrow> bytes option \<Rightarrow> index \<Rightarrow> kv_store" where
  "kv_write kv key val version =
     (let vs = history kv key @ [\<lparr>v_version = version, v_value = val\<rparr>];
          vs' = (if length vs > k_keep_versions kv then drop (length vs - k_keep_versions kv) vs else vs)
      in kv\<lparr>k_data := (k_data kv)(key \<mapsto> vs')\<rparr>)"

definition kv_execute :: "kv_store \<Rightarrow> index \<Rightarrow> op \<Rightarrow> outcome \<times> kv_store" where
  "kv_execute kv index p =
     (case p of
        Get key mode \<Rightarrow> (Value (kv_get kv key), kv)
      | GetAt key version \<Rightarrow> (Value (kv_get_at kv key version), kv)
      | Put key val \<Rightarrow> (Applied index, kv_write kv key (Some val) index)
      | Delete key \<Rightarrow> (Applied index, kv_write kv key None index)
      | Cas key expect val \<Rightarrow>
          (let actual = kv_get kv key in
           if actual = expect then (Applied index, kv_write kv key val index)
           else (CasFailed actual, kv)))"

definition kv_apply :: "kv_store \<Rightarrow> index \<Rightarrow> request \<Rightarrow> outcome \<times> kv_store" where
  "kv_apply kv index rq =
     (let kv = kv\<lparr>k_applied := max (k_applied kv) index\<rparr>;
          serve = (let (out, kv) = kv_execute kv index (rq_op rq) in
            (out, kv\<lparr>k_sessions := (k_sessions kv)(rq_client_id rq \<mapsto>
                     \<lparr>s_last_seq = rq_seq rq, s_last_outcome = out\<rparr>)\<rparr>))
      in case k_sessions kv (rq_client_id rq) of
           Some s \<Rightarrow>
             if rq_seq rq = s_last_seq s then (s_last_outcome s, kv)
             else if rq_seq rq < s_last_seq s then (Unavailable, kv)
             else serve
         | None \<Rightarrow> serve)"

definition decode_command :: "bytes \<Rightarrow> decode_error + request" where
  "decode_command data = request_decode data"

subsection \<open>Snapshots of the store\<close>

definition version_write :: "kv_version \<Rightarrow> writer \<Rightarrow> writer" where
  "version_write v w = w_opt w_bytes (v_value v) (w_u64 (v_version v) w)"

definition key_write :: "kv_store \<Rightarrow> bytes \<Rightarrow> writer \<Rightarrow> writer" where
  "key_write kv k w = w_seq version_write (the (k_data kv k)) (w_bytes k w)"

definition session_write :: "kv_store \<Rightarrow> u64 \<Rightarrow> writer \<Rightarrow> writer" where
  "session_write kv i w =
     (let s = the (k_sessions kv i) in
      w_bytes (response_encode \<lparr>rs_client_id = i, rs_seq = s_last_seq s, rs_outcome = s_last_outcome s\<rparr>)
        (w_u64 (s_last_seq s) (w_u64 i w)))"

definition kv_snapshot :: "kv_store \<Rightarrow> bytes" where
  "kv_snapshot kv =
     w_seq (session_write kv) (sorted_list_of_set (dom (k_sessions kv)))
       (w_seq (key_write kv) (sorted_list_of_set (dom (k_data kv))) (w_u64 (k_applied kv) w_new))"

definition version_read :: "kv_version decoder" where
  "version_read = r_bind r_u64 (\<lambda>n. r_bind (r_opt r_bytes) (\<lambda>val.
     r_return \<lparr>v_version = n, v_value = val\<rparr>))"

definition key_read :: "(bytes \<times> kv_version list) decoder" where
  "key_read = r_bind r_bytes (\<lambda>k. r_bind (r_seq version_read) (\<lambda>vs. r_return (k, vs)))"

definition r_lift :: "decode_error + 'a \<Rightarrow> 'a decoder" where
  "r_lift x = (case x of Inl e \<Rightarrow> r_fail e | Inr a \<Rightarrow> r_return a)"

definition session_read :: "(u64 \<times> session) decoder" where
  "session_read = r_bind r_u64 (\<lambda>i. r_bind r_u64 (\<lambda>n. r_bind r_bytes (\<lambda>b. r_bind (r_lift (response_decode b))
     (\<lambda>resp. r_return (i, \<lparr>s_last_seq = n, s_last_outcome = rs_outcome resp\<rparr>)))))"

definition insert_all :: "('k \<times> 'v) list \<Rightarrow> 'k \<rightharpoonup> 'v" where
  "insert_all kvs = foldl (\<lambda>m (k, v). m(k \<mapsto> v)) Map.empty kvs"

definition kv_read :: "kv_store decoder" where
  "kv_read = r_bind r_u64 (\<lambda>applied. r_bind (r_seq key_read) (\<lambda>data. r_bind (r_seq session_read) (\<lambda>sessions.
     r_return \<lparr>k_data = insert_all data, k_sessions = insert_all sessions, k_applied = applied,
               k_keep_versions = 16\<rparr>)))"

definition kv_restore :: "bytes \<Rightarrow> decode_error + kv_store" where
  "kv_restore buf = decode_all kv_read buf"

subsection \<open>Exactly-once application\<close>

definition run_log :: "('s \<Rightarrow> index \<Rightarrow> request \<Rightarrow> outcome \<times> 's) \<Rightarrow> (index \<times> request) list \<Rightarrow> 's \<Rightarrow> 's" where
  "run_log step rs s = fold (\<lambda>(i, rq) s. snd (step s i rq)) rs s"

locale dedup_machine =
  fixes step :: "'s \<Rightarrow> index \<Rightarrow> request \<Rightarrow> outcome \<times> 's"
    and served :: "'s \<Rightarrow> u64 \<rightharpoonup> session"
    and content :: "'s \<Rightarrow> 'c"
  assumes repeat_served: "served s (rq_client_id rq) = Some t \<Longrightarrow> rq_seq rq = s_last_seq t \<Longrightarrow>
      fst (step s i rq) = s_last_outcome t \<and> served (snd (step s i rq)) = served s \<and>
      content (snd (step s i rq)) = content s"
    and stale_refused: "served s (rq_client_id rq) = Some t \<Longrightarrow> rq_seq rq < s_last_seq t \<Longrightarrow>
      fst (step s i rq) = Unavailable \<and> served (snd (step s i rq)) = served s \<and>
      content (snd (step s i rq)) = content s"
    and fresh_served: "(\<forall>t. served s (rq_client_id rq) = Some t \<longrightarrow> s_last_seq t < rq_seq rq) \<Longrightarrow>
      served (snd (step s i rq)) = (served s)(rq_client_id rq \<mapsto>
        \<lparr>s_last_seq = rq_seq rq, s_last_outcome = fst (step s i rq)\<rparr>)"
begin

lemma served_step:
  assumes "served s c = Some t"
  shows "served (snd (step s i r)) c = Some (if rq_client_id r = c \<and> s_last_seq t < rq_seq r
      then \<lparr>s_last_seq = rq_seq r, s_last_outcome = fst (step s i r)\<rparr> else t)"
proof -
  consider (fresh) "\<forall>t. served s (rq_client_id r) = Some t \<longrightarrow> s_last_seq t < rq_seq r"
    | (same) u where "served s (rq_client_id r) = Some u" "rq_seq r = s_last_seq u"
    | (stale) u where "served s (rq_client_id r) = Some u" "rq_seq r < s_last_seq u"
    by (meson linorder_neqE)
  then show ?thesis
    by cases (use assms fresh_served repeat_served stale_refused in auto)
qed

lemma served_run_grows:
  assumes "served s c = Some t"
  shows "\<exists>u. served (run_log step rs s) c = Some u \<and> s_last_seq t \<le> s_last_seq u"
  using assms unfolding run_log_def
proof (induction rs arbitrary: s t)
  case (Cons x rs)
  obtain i r where x: "x = (i, r)" by fastforce
  show ?case using Cons.IH [OF served_step [OF Cons.prems, of i r]] by (fastforce simp: x split: if_splits)
qed simp

text \<open>A session stays as it is until a newer request of its client comes by.\<close>

lemma served_run:
  assumes "served s c = Some t"
  shows "if \<exists>(i, r) \<in> set rs. rq_client_id r = c \<and> s_last_seq t < rq_seq r
    then \<exists>u. served (run_log step rs s) c = Some u \<and> s_last_seq t < s_last_seq u
    else served (run_log step rs s) c = Some t"
  using assms
proof (induction rs arbitrary: s)
  case (Cons x rs)
  obtain i r where x: "x = (i, r)" by fastforce
  have run: "run_log step (x # rs) s = run_log step rs (snd (step s i r))" by (simp add: run_log_def x)
  show ?case
  proof (cases "rq_client_id r = c \<and> s_last_seq t < rq_seq r")
    case True
    then show ?thesis
      using served_run_grows [OF served_step [OF Cons.prems, of i r], of rs] unfolding run by (auto simp: x)
  next
    case False
    then have "served (snd (step s i r)) c = Some t" using served_step [OF Cons.prems, of i r] by auto
    moreover have "(\<exists>(i, r) \<in> set (x # rs). rq_client_id r = c \<and> s_last_seq t < rq_seq r) \<longleftrightarrow>
        (\<exists>(i, r) \<in> set rs. rq_client_id r = c \<and> s_last_seq t < rq_seq r)" using False by (auto simp: x)
    ultimately show ?thesis unfolding run using Cons.IH by simp
  qed
qed (simp add: run_log_def)

lemma retry_after_interleaving:
  assumes "\<forall>t. served s (rq_client_id rq) = Some t \<longrightarrow> s_last_seq t < rq_seq rq"
  shows "fst (step (run_log step rs (snd (step s i rq))) j rq) =
      (if \<exists>(i, r) \<in> set rs. rq_client_id r = rq_client_id rq \<and> rq_seq rq < rq_seq r
       then Unavailable else fst (step s i rq)) \<and>
    content (snd (step (run_log step rs (snd (step s i rq))) j rq)) = content (run_log step rs (snd (step s i rq)))"
proof -
  have "served (snd (step s i rq)) (rq_client_id rq) =
      Some \<lparr>s_last_seq = rq_seq rq, s_last_outcome = fst (step s i rq)\<rparr>"
    using fresh_served [OF assms] by simp
  from served_run [OF this, of rs] show ?thesis
    using repeat_served [of "run_log step rs (snd (step s i rq))" rq _ j]
      stale_refused [of "run_log step rs (snd (step s i rq))" rq _ j] by (auto split: if_splits)
qed

end

lemma kv_execute_sessions [simp]:
  "k_sessions (snd (kv_execute kv i p)) = k_sessions kv"
  "k_applied (snd (kv_execute kv i p)) = k_applied kv"
  "k_keep_versions (snd (kv_execute kv i p)) = k_keep_versions kv"
  by (simp_all add: kv_execute_def kv_write_def Let_def split: op.split)

interpretation kv_dedup: dedup_machine kv_apply k_sessions k_data
  by unfold_locales
    (auto simp: kv_apply_def Let_def split: option.split prod.split dest!: arg_cong [of _ _ "\<lambda>x. k_sessions (snd x)"])

text \<open>
  C5: exactly once. A fresh request is applied, then the log goes on with any commands of
  any clients, then the request is applied again, wherever in the log it lands. The retry
  never changes the data. It returns the original outcome, unless the client's own newer
  requests have displaced it from the session, and then it is refused as unavailable.
\<close>

theorem retry_applied_once:
  assumes "\<forall>t. k_sessions kv (rq_client_id rq) = Some t \<longrightarrow> s_last_seq t < rq_seq rq"
  shows "fst (kv_apply (run_log kv_apply rs (snd (kv_apply kv i rq))) j rq) =
      (if \<exists>(i, r) \<in> set rs. rq_client_id r = rq_client_id rq \<and> rq_seq rq < rq_seq r
       then Unavailable else fst (kv_apply kv i rq)) \<and>
    k_data (snd (kv_apply (run_log kv_apply rs (snd (kv_apply kv i rq))) j rq)) =
      k_data (run_log kv_apply rs (snd (kv_apply kv i rq)))"
  by (rule kv_dedup.retry_after_interleaving [OF assms])

theorem retry_applied_once_witness:
  "fst (kv_apply (run_log kv_apply [(2, \<lparr>rq_client_id = 9, rq_seq = 1, rq_op = Put [107] [5]\<rparr>)]
     (snd (kv_apply kv_new 1 \<lparr>rq_client_id = 4, rq_seq = 1, rq_op = Cas [107] None (Some [1])\<rparr>))) 3
     \<lparr>rq_client_id = 4, rq_seq = 1, rq_op = Cas [107] None (Some [1])\<rparr>) = Applied 1"
proof -
  let ?rq = "\<lparr>rq_client_id = 4, rq_seq = 1, rq_op = Cas [107] None (Some [1])\<rparr>"
  let ?rs = "[(2, \<lparr>rq_client_id = 9, rq_seq = 1, rq_op = Put [107] [5]\<rparr>)]"
  have "\<forall>t. k_sessions kv_new (rq_client_id ?rq) = Some t \<longrightarrow> s_last_seq t < rq_seq ?rq"
    by (simp add: kv_new_def)
  moreover have "fst (kv_apply kv_new 1 ?rq) = Applied 1"
    by (simp add: kv_apply_def kv_new_def kv_execute_def kv_get_def Let_def)
  ultimately show ?thesis using retry_applied_once [of kv_new ?rq ?rs 1 3] by simp
qed

subsection \<open>The version history\<close>

definition history_ok :: "index \<Rightarrow> kv_version list \<Rightarrow> bool" where
  "history_ok applied vs \<longleftrightarrow> vs \<noteq> [] \<and> length vs \<le> 16 \<and> sorted_wrt (<) (map v_version vs) \<and>
     (\<forall>v\<in>set vs. v_version v \<le> applied)"

definition kv_wf :: "kv_store \<Rightarrow> bool" where
  "kv_wf kv \<longleftrightarrow> finite (dom (k_data kv)) \<and> finite (dom (k_sessions kv)) \<and> k_keep_versions kv = 16 \<and>
     (\<forall>vs\<in>ran (k_data kv). history_ok (k_applied kv) vs)"

lemma kv_new_wf: "kv_wf kv_new"
  by (simp add: kv_wf_def kv_new_def)

definition written :: "kv_version list \<Rightarrow> index \<Rightarrow> bytes option \<Rightarrow> kv_version list" where
  "written vs i val = (if length vs < 16 then vs else tl vs) @ [\<lparr>v_version = i, v_value = val\<rparr>]"

lemma kv_write_eq:
  assumes "k_keep_versions kv = 16" and "length (history kv key) \<le> 16"
  shows "kv_write kv key val i = kv\<lparr>k_data := (k_data kv)(key \<mapsto> written (history kv key) i val)\<rparr>"
proof (cases "length (history kv key) < 16")
  case False
  then have "length (history kv key) = 16" using assms(2) by simp
  then show ?thesis using assms(1) by (simp add: kv_write_def written_def Let_def drop_Suc)
qed (use assms in \<open>simp add: kv_write_def written_def Let_def\<close>)

lemma written_history_ok:
  assumes "history_ok a vs \<or> vs = []" and "a < i"
  shows "history_ok i (written vs i val)"
proof -
  have lt: "\<forall>v\<in>set vs. v_version v < i" using assms by (auto simp: history_ok_def)
  moreover have "\<forall>v\<in>set (tl vs). v_version v < i" using lt by (cases vs) auto
  moreover have "sorted_wrt (<) (map v_version vs)" using assms(1) by (auto simp: history_ok_def)
  then have "sorted_wrt (<) (map v_version (tl vs))" by (cases vs) simp_all
  ultimately show ?thesis
    using assms(1) by (auto simp: history_ok_def written_def sorted_wrt_append less_imp_le)
qed

lemma history_ok_mono: "history_ok a vs \<Longrightarrow> a \<le> b \<Longrightarrow> history_ok b vs"
  by (auto simp: history_ok_def)

lemma kv_write_wf:
  assumes "kv_wf kv" and "k_applied kv < i"
  shows "kv_wf (kv_write (kv\<lparr>k_applied := i\<rparr>) key val i)"
proof -
  let ?old = "history kv key"
  have old: "history_ok (k_applied kv) ?old \<or> ?old = []"
    using assms(1) by (auto simp: history_def kv_wf_def ran_def split: option.splits)
  then have "length ?old \<le> 16" by (auto simp: history_ok_def)
  then have w: "kv_write (kv\<lparr>k_applied := i\<rparr>) key val i =
      kv\<lparr>k_applied := i, k_data := (k_data kv)(key \<mapsto> written ?old i val)\<rparr>"
    using assms(1) kv_write_eq [of "kv\<lparr>k_applied := i\<rparr>" key val i]
    by (simp add: kv_wf_def history_def)
  show ?thesis
    using assms written_history_ok [OF old assms(2)] history_ok_mono [of "k_applied kv" _ i]
    unfolding w by (auto simp: kv_wf_def ran_def)
qed

text \<open>
  C31: applying a command at a new index keeps the store well-formed: each key has between
  one and sixteen versions, in strictly increasing index order, none beyond the applied
  index, and the applied index moves to the new one.
\<close>

theorem apply_keeps_wf:
  assumes "kv_wf kv" and "k_applied kv < i"
  shows "kv_wf (snd (kv_apply kv i rq)) \<and> k_applied (snd (kv_apply kv i rq)) = i"
proof -
  let ?kv = "kv\<lparr>k_applied := i\<rparr>"
  have m: "max (k_applied kv) i = i" using assms(2) by simp
  have wf: "kv_wf ?kv" using assms history_ok_mono [of "k_applied kv" _ i] by (auto simp: kv_wf_def)
  have ex: "kv_wf (snd (kv_execute ?kv i (rq_op rq)))"
    using wf kv_write_wf [OF assms] by (auto simp: kv_execute_def Let_def split: op.split)
  have up: "kv_wf (kv'\<lparr>k_sessions := (k_sessions kv')(c \<mapsto> t)\<rparr>)" if "kv_wf kv'" for kv' c t
    using that by (simp add: kv_wf_def)
  obtain out kv' where run: "kv_execute ?kv i (rq_op rq) = (out, kv')" by (cases "kv_execute ?kv i (rq_op rq)")
  then have "k_applied kv' = i" using kv_execute_sessions(2) [of ?kv i "rq_op rq"] by simp
  then show ?thesis
    using wf up [OF ex] run by (simp add: kv_apply_def m Let_def split: option.split)
qed

theorem apply_keeps_wf_witness:
  "kv_wf (snd (kv_apply kv_new 1 \<lparr>rq_client_id = 4, rq_seq = 1, rq_op = Put [1] [2]\<rparr>))"
proof -
  have "k_applied kv_new < 1" by (simp add: kv_new_def)
  from apply_keeps_wf [OF kv_new_wf this] show ?thesis by blast
qed

lemma find_append:
  "List.find P (xs @ ys) = (case List.find P xs of None \<Rightarrow> List.find P ys | Some x \<Rightarrow> Some x)"
  by (induction xs) auto

lemma find_hit: "x \<in> set xs \<Longrightarrow> P x \<Longrightarrow> List.find P xs \<noteq> None"
  by (induction xs) auto

lemma find_miss: "\<forall>x\<in>set xs. \<not> P x \<Longrightarrow> List.find P xs = None"
  by (induction xs) auto

lemma find_written:
  assumes "sorted_wrt (<) (map v_version vs)" and "length vs \<le> 16"
  shows "List.find (\<lambda>v. v_version v \<le> n) (rev (written vs i val)) =
    (if i \<le> n then Some \<lparr>v_version = i, v_value = val\<rparr>
     else if length vs = 16 \<and> n < v_version (vs ! 1) then None
     else List.find (\<lambda>v. v_version v \<le> n) (rev vs))"
proof (cases "length vs < 16")
  case False
  then obtain a b us where vs: "vs = a # b # us" using assms(2) by (cases vs; cases "tl vs") auto
  show ?thesis
  proof (cases "v_version b \<le> n")
    case True
    then have "List.find (\<lambda>v. v_version v \<le> n) (rev (tl vs)) \<noteq> None"
      using vs by (intro find_hit [of b]) auto
    moreover have "rev vs = rev (tl vs) @ [a]" using vs by simp
    ultimately have "List.find (\<lambda>v. v_version v \<le> n) (rev vs) = List.find (\<lambda>v. v_version v \<le> n) (rev (tl vs))"
      by (auto simp only: find_append split: option.split)
    then show ?thesis using False True vs by (auto simp: written_def)
  next
    case older: False
    have "\<forall>v\<in>set (tl vs). \<not> v_version v \<le> n" using assms(1) older vs by auto
    then have "List.find (\<lambda>v. v_version v \<le> n) (rev (tl vs)) = None" by (intro find_miss) simp
    then show ?thesis using False older vs assms(2) by (auto simp: written_def)
  qed
qed (simp add: written_def)

text \<open>
  C32: reads at a version. After a write at an index, a read at or after that index sees
  the new value, or its absence for a delete. A read at an earlier version sees what it saw
  before, unless the write evicted the version it needs: a key holds sixteen versions, and
  once it is full a read older than the second of them finds nothing. Other keys are
  unaffected.
\<close>

theorem get_at_after_write:
  assumes "kv_wf kv"
  shows "kv_get_at (kv_write kv key val i) key n =
      (if i \<le> n then val
       else if length (history kv key) = 16 \<and> n < v_version (history kv key ! 1) then None
       else kv_get_at kv key n) \<and>
    (\<forall>k. k \<noteq> key \<longrightarrow> kv_get_at (kv_write kv key val i) k m = kv_get_at kv k m)"
proof -
  have len: "length (history kv key) \<le> 16" and sorted: "sorted_wrt (<) (map v_version (history kv key))"
    using assms by (auto simp: history_def kv_wf_def history_ok_def ran_def split: option.splits)
  have w: "kv_write kv key val i = kv\<lparr>k_data := (k_data kv)(key \<mapsto> written (history kv key) i val)\<rparr>"
    using assms len by (intro kv_write_eq) (simp_all add: kv_wf_def)
  have "kv_get_at (kv_write kv key val i) key n =
      Option.bind (List.find (\<lambda>v. v_version v \<le> n) (rev (written (history kv key) i val))) v_value"
    by (simp add: w kv_get_at_def)
  moreover have "kv_get_at kv key n = Option.bind (List.find (\<lambda>v. v_version v \<le> n) (rev (history kv key))) v_value"
    by (simp add: kv_get_at_def history_def split: option.split)
  moreover have "kv_get_at (kv_write kv key val i) k m = kv_get_at kv k m" if "k \<noteq> key" for k
    using that by (simp add: w kv_get_at_def)
  ultimately show ?thesis by (simp add: find_written [OF sorted len])
qed

theorem get_at_after_write_witness:
  "kv_get_at (kv_write kv_new [107] (Some [5]) 5) [107] 9 = Some [5]"
  using get_at_after_write [OF kv_new_wf, of "[107]" "Some [5]" 5 9]
  by (simp add: history_def kv_new_def word_le_nat_alt)

subsection \<open>The specification of the store\<close>

text \<open>
  What a client sees, without histories: a map from keys to values and the session table.
  The version history and its eviction are invisible except to reads at a version, which
  the specification answers from an archive given as an argument, \<open>past\<close>, and which change
  nothing. What the archive holds after a write is the property of the previous section.
\<close>

type_synonym kv_spec = "(bytes \<rightharpoonup> bytes) \<times> (u64 \<rightharpoonup> session)"

fun spec_execute :: "(bytes \<Rightarrow> index \<Rightarrow> bytes option) \<Rightarrow> (bytes \<rightharpoonup> bytes) \<Rightarrow> index \<Rightarrow> op \<Rightarrow> outcome \<times> (bytes \<rightharpoonup> bytes)" where
  "spec_execute past m i (Get key mode) = (Value (m key), m)"
| "spec_execute past m i (GetAt key n) = (Value (past key n), m)"
| "spec_execute past m i (Put key val) = (Applied i, m(key \<mapsto> val))"
| "spec_execute past m i (Delete key) = (Applied i, m(key := None))"
| "spec_execute past m i (Cas key expect val) =
     (if m key = expect then (Applied i, m(key := val)) else (CasFailed (m key), m))"

fun spec_apply :: "(bytes \<Rightarrow> index \<Rightarrow> bytes option) \<Rightarrow> kv_spec \<Rightarrow> index \<Rightarrow> request \<Rightarrow> outcome \<times> kv_spec" where
  "spec_apply past (m, ss) i rq =
     (case ss (rq_client_id rq) of
        Some s \<Rightarrow>
          if rq_seq rq = s_last_seq s then (s_last_outcome s, m, ss)
          else if rq_seq rq < s_last_seq s then (Unavailable, m, ss)
          else (case spec_execute past m i (rq_op rq) of (out, m') \<Rightarrow>
            (out, m', ss(rq_client_id rq \<mapsto> \<lparr>s_last_seq = rq_seq rq, s_last_outcome = out\<rparr>)))
      | None \<Rightarrow> (case spec_execute past m i (rq_op rq) of (out, m') \<Rightarrow>
            (out, m', ss(rq_client_id rq \<mapsto> \<lparr>s_last_seq = rq_seq rq, s_last_outcome = out\<rparr>))))"

definition kv_abs :: "kv_store \<Rightarrow> kv_spec" where
  "kv_abs kv = (kv_get kv, k_sessions kv)"

lemma kv_get_write:
  assumes "0 < k_keep_versions kv"
  shows "kv_get (kv_write kv key val i) = (kv_get kv)(key := val)"
proof
  fix k
  show "kv_get (kv_write kv key val i) k = ((kv_get kv)(key := val)) k"
    using assms by (auto simp: kv_get_def kv_write_def Let_def last_opt_def)
qed

lemma kv_get_upd [simp]:
  "kv_get (kv\<lparr>k_applied := a\<rparr>) = kv_get kv" "kv_get (kv\<lparr>k_sessions := ss\<rparr>) = kv_get kv"
  by (rule ext, simp add: kv_get_def)+

lemma kv_get_at_upd [simp]: "kv_get_at (kv\<lparr>k_applied := a\<rparr>) = kv_get_at kv"
  by (intro ext) (simp add: kv_get_at_def)

lemma kv_execute_refines:
  assumes "0 < k_keep_versions kv"
  shows "spec_execute (kv_get_at kv) (kv_get kv) i p = (fst (kv_execute kv i p), kv_get (snd (kv_execute kv i p)))"
  using assms by (cases p) (auto simp: kv_execute_def kv_get_write Let_def)

text \<open>
  C26: the store refines its specification, for every command, retries included. Applying a
  command to the store gives the outcome that a plain map with a session table gives, and
  leaves the current values and sessions that the plain map has. A read at a version is
  answered from the versions the store retains at that moment, and changes no value.
\<close>

theorem kv_apply_refines:
  assumes "0 < k_keep_versions kv"
  shows "spec_apply (kv_get_at kv) (kv_abs kv) i rq = (fst (kv_apply kv i rq), kv_abs (snd (kv_apply kv i rq)))"
proof -
  let ?kv = "kv\<lparr>k_applied := max (k_applied kv) i\<rparr>"
  obtain out kv' where run: "kv_execute ?kv i (rq_op rq) = (out, kv')" by (cases "kv_execute ?kv i (rq_op rq)")
  have "spec_execute (kv_get_at kv) (kv_get kv) i (rq_op rq) = (out, kv_get kv')"
    using kv_execute_refines [of ?kv i "rq_op rq"] assms run by simp
  moreover have "k_sessions kv' = k_sessions kv"
    using kv_execute_sessions(1) [of ?kv i "rq_op rq"] run by simp
  ultimately show ?thesis
    using run by (auto simp: kv_apply_def kv_abs_def Let_def split: option.split)
qed

theorem kv_apply_refines_witness:
  "spec_apply (kv_get_at kv_new) (kv_abs kv_new) 1 \<lparr>rq_client_id = 4, rq_seq = 1, rq_op = Put [1] [2]\<rparr> =
   (fst (kv_apply kv_new 1 \<lparr>rq_client_id = 4, rq_seq = 1, rq_op = Put [1] [2]\<rparr>),
    kv_abs (snd (kv_apply kv_new 1 \<lparr>rq_client_id = 4, rq_seq = 1, rq_op = Put [1] [2]\<rparr>)))"
  by (rule kv_apply_refines) (simp add: kv_new_def)

subsection \<open>Snapshot and restore\<close>

definition history_fits :: "kv_version list \<Rightarrow> bool" where
  "history_fits vs \<longleftrightarrow> length vs < 2 ^ 32 \<and> (\<forall>v\<in>set vs. pred_option bytes_ok (v_value v))"

definition session_fits :: "session \<Rightarrow> bool" where
  "session_fits t \<longleftrightarrow> outcome_ok (s_last_outcome t) \<and>
     (\<forall>c. bytes_ok (response_encode \<lparr>rs_client_id = c, rs_seq = s_last_seq t, rs_outcome = s_last_outcome t\<rparr>))"

definition kv_fits :: "kv_store \<Rightarrow> bool" where
  "kv_fits kv \<longleftrightarrow> card (dom (k_data kv)) < 2 ^ 32 \<and> card (dom (k_sessions kv)) < 2 ^ 32 \<and>
     (\<forall>k vs. k_data kv k = Some vs \<longrightarrow> bytes_ok k \<and> history_fits vs) \<and>
     (\<forall>c t. k_sessions kv c = Some t \<longrightarrow> session_fits t)"

lemma parses_version: "pred_option bytes_ok (v_value v) \<Longrightarrow> parses version_read (version_write v []) v"
  by (cases "v_value v")
    (simp_all add: version_write_def version_read_def bytes_ok_def encode_simps parse_then)

lemma safe_version [parse_rules]: "safe_decoder version_read"
  unfolding version_read_def by (intro parse_rules)

interpretation version_codec: wire_codec version_write version_read "\<lambda>v. pred_option bytes_ok (v_value v)"
  by unfold_locales (simp_all add: parses_version safe_version, simp_all add: version_write_def encode_simps)

text \<open>The chunk a key and its history, and a session, take in the snapshot.\<close>

definition key_bytes :: "bytes \<times> kv_version list \<Rightarrow> bytes" where
  "key_bytes = (\<lambda>(k, vs). w_seq version_write vs (w_bytes k []))"

definition session_bytes :: "u64 \<times> session \<Rightarrow> bytes" where
  "session_bytes = (\<lambda>(i, t). w_bytes (response_encode \<lparr>rs_client_id = i, rs_seq = s_last_seq t, rs_outcome = s_last_outcome t\<rparr>)
     (w_u64 (s_last_seq t) (w_u64 i [])))"

lemma key_write_eq: "key_write kv k w = w @ key_bytes (k, the (k_data kv k))"
  unfolding key_write_def key_bytes_def by (subst (1 2) version_codec.seq_eq) (simp add: encode_simps)

lemma session_write_eq: "session_write kv i w = w @ session_bytes (i, the (k_sessions kv i))"
  by (simp add: session_write_def session_bytes_def encode_simps Let_def)

lemma parses_key:
  assumes "bytes_ok k" and "history_fits vs"
  shows "parses key_read (key_bytes (k, vs)) (k, vs)"
proof -
  have "parses (r_seq version_read) (w_seq version_write vs []) vs"
    by (rule version_codec.seq_parses) (use assms(2) in \<open>auto simp: history_fits_def\<close>)
  then have "parses (r_bind (r_seq version_read) (\<lambda>vs. r_return (k, vs))) (w_seq version_write vs []) (k, vs)"
    by (rule parses_bind_Nil) (rule parses_return)
  moreover have "key_bytes (k, vs) = le_bytes 4 (word_of_nat (length k) :: u32) @ k @ w_seq version_write vs []"
    unfolding key_bytes_def prod.case by (subst (1 2) version_codec.seq_eq) (simp add: encode_simps)
  ultimately show ?thesis
    using assms(1) by (simp add: key_read_def bytes_ok_def parse_then)
qed

lemma parses_session:
  assumes "session_fits t"
  shows "parses session_read (session_bytes (i, t)) (i, t)"
proof -
  let ?rs = "\<lparr>rs_client_id = i, rs_seq = s_last_seq t, rs_outcome = s_last_outcome t\<rparr>"
  have "response_decode (response_encode ?rs) = Inr ?rs"
    using assms response_codec.decode_encode [of ?rs]
    by (simp add: session_fits_def response_decode_def response_encode_def w_new_def)
  then show ?thesis
    using assms
    by (simp add: session_bytes_def session_read_def session_fits_def bytes_ok_def encode_simps parse_then r_lift_def)
qed

lemma insert_all_map_of: "insert_all kvs = map_of (rev kvs)"
  unfolding insert_all_def
  by (induction kvs rule: rev_induct) (auto simp: case_prod_beta)

lemma insert_all_table:
  assumes "finite (dom m)"
  shows "insert_all (map (\<lambda>k. (k, the (m k))) (sorted_list_of_set (dom m))) = m"
proof -
  have "insert_all (map (\<lambda>k. (k, the (m k))) (sorted_list_of_set (dom m))) = (Some \<circ> (\<lambda>k. the (m k))) |` dom m"
    unfolding insert_all_map_of rev_map using assms by (simp add: map_of_map_restrict)
  also have "\<dots> = m" by (rule ext) (auto simp: restrict_map_def domIff)
  finally show ?thesis .
qed

lemma parses_table:
  assumes "finite (dom m)" and "card (dom m) < 2 ^ 32"
    and "\<And>k v. m k = Some v \<Longrightarrow> parses d (g (k, v)) (k, v)" and "\<And>x. g x \<noteq> []"
  shows "parses (r_seq d) (le_bytes 4 (word_of_nat (card (dom m)) :: u32) @
      concat (map g (map (\<lambda>k. (k, the (m k))) (sorted_list_of_set (dom m)))))
    (map (\<lambda>k. (k, the (m k))) (sorted_list_of_set (dom m)))"
proof -
  let ?xs = "map (\<lambda>k. (k, the (m k))) (sorted_list_of_set (dom m))"
  have "length ?xs = card (dom m)" by simp
  moreover have "parses d (g x) x" if "x \<in> set ?xs" for x
    using that assms(1,3) by auto
  ultimately show ?thesis using parses_seq [of ?xs d g] assms(2,4) by simp
qed

lemma key_bytes_nonempty: "key_bytes x \<noteq> []"
  unfolding key_bytes_def by (cases x, simp, subst version_codec.seq_eq, simp add: encode_simps)

lemma session_bytes_nonempty: "session_bytes x \<noteq> []"
  by (cases x) (simp add: session_bytes_def encode_simps)

lemma kv_snapshot_eq:
  "kv_snapshot kv = le_bytes 8 (k_applied kv) @
     (le_bytes 4 (word_of_nat (card (dom (k_data kv))) :: u32) @
       concat (map key_bytes (map (\<lambda>k. (k, the (k_data kv k))) (sorted_list_of_set (dom (k_data kv)))))) @
     (le_bytes 4 (word_of_nat (card (dom (k_sessions kv))) :: u32) @
       concat (map session_bytes (map (\<lambda>k. (k, the (k_sessions kv k))) (sorted_list_of_set (dom (k_sessions kv))))))"
  unfolding kv_snapshot_def
  by (simp add: w_seq_eq [OF key_write_eq] w_seq_eq [OF session_write_eq] encode_simps w_new_def o_def)

text \<open>
  C25: a snapshot restores to the store it was taken from, version histories, applied index
  and session table included, so a retry still in flight is recognised after a restore.
\<close>

theorem kv_restore_snapshot:
  assumes "kv_wf kv" and "kv_fits kv"
  shows "kv_restore (kv_snapshot kv) = Inr kv"
proof -
  let ?ds = "map (\<lambda>k. (k, the (k_data kv k))) (sorted_list_of_set (dom (k_data kv)))"
  let ?ss = "map (\<lambda>k. (k, the (k_sessions kv k))) (sorted_list_of_set (dom (k_sessions kv)))"
  have fin: "finite (dom (k_data kv))" "finite (dom (k_sessions kv))" and keep: "k_keep_versions kv = 16"
    using assms(1) by (auto simp: kv_wf_def)
  have d: "parses (r_seq key_read) (le_bytes 4 (word_of_nat (card (dom (k_data kv))) :: u32) @ concat (map key_bytes ?ds)) ?ds"
    using assms(2) parses_key by (intro parses_table [OF fin(1)] key_bytes_nonempty) (auto simp: kv_fits_def)
  have s: "parses (r_seq session_read) (le_bytes 4 (word_of_nat (card (dom (k_sessions kv))) :: u32) @ concat (map session_bytes ?ss)) ?ss"
    using assms(2) parses_session by (intro parses_table [OF fin(2)] session_bytes_nonempty) (auto simp: kv_fits_def)
  have "kv = \<lparr>k_data = insert_all ?ds, k_sessions = insert_all ?ss, k_applied = k_applied kv, k_keep_versions = 16\<rparr>"
    using keep by (simp add: insert_all_table [OF fin(1)] insert_all_table [OF fin(2)])
  then have "parses kv_read (kv_snapshot kv) kv"
    unfolding kv_read_def kv_snapshot_eq
    by (intro parses_bind [OF parses_u64] parses_bind [OF d] parses_bind_Nil [OF s])
      (simp add: parse_then)
  then show ?thesis unfolding kv_restore_def by (rule parses_decode_all(2))
qed

theorem kv_restore_snapshot_witness:
  "kv_restore (kv_snapshot \<lparr>k_data = [[7] \<mapsto> [\<lparr>v_version = 1, v_value = Some [5]\<rparr>]], k_sessions = Map.empty, k_applied = 1, k_keep_versions = 16\<rparr>) =
     Inr \<lparr>k_data = [[7] \<mapsto> [\<lparr>v_version = 1, v_value = Some [5]\<rparr>]], k_sessions = Map.empty, k_applied = 1, k_keep_versions = 16\<rparr>"
  by (rule kv_restore_snapshot)
    (simp_all add: kv_wf_def kv_fits_def history_ok_def history_fits_def bytes_ok_def)

end
