(* ===== verification/Sim_Time.thy ===== *)
theory Sim_Time
  imports Chrono_Prelude "HOL-Library.Signed_Division"
begin

section \<open>Virtual time and node clocks\<close>

text \<open>
  The arithmetic of \<open>time.rs\<close> (saturating nanoseconds, signed offsets) and the clock of one
  simulated node from \<open>kernel.rs\<close>: the drifting monotonic clock, the skewed wall clock and the
  conversion of a sleep on the node's own clock to true time. Signed 64-bit values are words
  read with \<open>sint\<close>; the 128-bit intermediates never overflow, so they are integers, and Rust's
  division is the truncating \<open>sdiv\<close>. Display of times is not modelled.
\<close>

type_synonym nanos = u64

definition NANOS_PER_MICRO :: u64 where "NANOS_PER_MICRO = 1000"
definition NANOS_PER_MILLI :: u64 where "NANOS_PER_MILLI = 1000000"
definition NANOS_PER_SEC :: u64 where "NANOS_PER_SEC = 1000000000"

definition sat_add :: "u64 \<Rightarrow> u64 \<Rightarrow> u64" where
  "sat_add a b = (if unat a + unat b < 2 ^ 64 then a + b else - 1)"

definition sat_sub :: "u64 \<Rightarrow> u64 \<Rightarrow> u64" where
  "sat_sub a b = (if b \<le> a then a - b else 0)"

definition sat_mul :: "u64 \<Rightarrow> u64 \<Rightarrow> u64" where
  "sat_mul a b = (if unat a * unat b < 2 ^ 64 then a * b else - 1)"

definition from_millis :: "u64 \<Rightarrow> nanos" where "from_millis ms = sat_mul ms NANOS_PER_MILLI"
definition from_micros :: "u64 \<Rightarrow> nanos" where "from_micros us = sat_mul us NANOS_PER_MICRO"
definition from_secs :: "u64 \<Rightarrow> nanos" where "from_secs s = sat_mul s NANOS_PER_SEC"
definition as_millis :: "nanos \<Rightarrow> u64" where "as_millis n = n div NANOS_PER_MILLI"
definition as_secs :: "nanos \<Rightarrow> u64" where "as_secs n = n div NANOS_PER_SEC"

definition time_offset :: "nanos \<Rightarrow> 64 word \<Rightarrow> nanos" where
  "time_offset n delta =
     (if 0 \<le> sint delta then sat_add n delta else sat_sub n (word_of_int \<bar>sint delta\<bar>))"

definition clamp_u64 :: "int \<Rightarrow> u64" where
  "clamp_u64 x = word_of_int (min (max x 0) (2 ^ 64 - 1))"

definition apply_drift :: "nanos \<Rightarrow> int \<Rightarrow> nanos" where
  "apply_drift t p = (if p = 0 then t else clamp_u64 (uint t + (uint t * p) sdiv 1000000))"

record clock_state =
  c_skew :: "64 word"
  c_drift :: "64 word"

definition clock_monotonic :: "clock_state \<Rightarrow> nanos \<Rightarrow> nanos" where
  "clock_monotonic c now = apply_drift now (sint (c_drift c))"

definition clock_now :: "clock_state \<Rightarrow> nanos \<Rightarrow> nanos" where
  "clock_now c now = time_offset (apply_drift now (sint (c_drift c))) (c_skew c)"

text \<open>A sleep of \<open>dur\<close> on a clock that drifts; the division by zero of a stopped clock panics.\<close>

definition sleep_true :: "nanos \<Rightarrow> int \<Rightarrow> nanos option" where
  "sleep_true dur p =
     (if p = 0 then Some dur
      else if 1000000 + p = 0 then None
      else Some (word_of_int (max ((uint dur * 1000000) sdiv (1000000 + p)) 0)))"

definition clock_sleep :: "clock_state \<Rightarrow> nanos \<Rightarrow> nanos \<Rightarrow> nanos option" where
  "clock_sleep c now dur = map_option (sat_add now) (sleep_true dur (sint (c_drift c)))"

subsection \<open>The monotonic clock\<close>

lemma unat_sat_add: "unat (sat_add a b) = min (unat a + unat b) (2 ^ 64 - 1)"
proof (cases "unat a + unat b < 2 ^ 64")
  case True
  then have "unat (a + b) = unat a + unat b" by (simp add: unat_word_ariths)
  then show ?thesis using True by (simp add: sat_add_def)
qed (simp add: sat_add_def unsigned_minus_1_eq_mask mask_eq_exp_minus_1)

lemma uint_clamp: "uint (clamp_u64 x) = min (max x 0) (2 ^ 64 - 1)"
  by (simp add: clamp_u64_def uint_word_of_int)

lemma clamp_mono: "x \<le> y \<Longrightarrow> clamp_u64 x \<le> clamp_u64 y"
  unfolding word_le_def uint_clamp by (intro min.mono max.mono) simp_all

lemma sdiv_pos:
  fixes a b :: int
  assumes "0 < b"
  shows "a sdiv b = (if 0 \<le> a then a div b else - ((- a) div b))"
  using assms by (auto simp: signed_divide_int_def sgn_if)

lemma drift_mono_int:
  fixes t u p :: int
  assumes "- 1000000 \<le> p" and "0 \<le> t" and "t \<le> u"
  shows "t + (t * p) sdiv 1000000 \<le> u + (u * p) sdiv 1000000"
proof (cases "0 \<le> p")
  case True
  then have "t * p \<le> u * p" and "0 \<le> t * p" using assms by (simp_all add: mult_right_mono)
  then have "(t * p) div 1000000 \<le> (u * p) div 1000000" by (simp add: zdiv_mono1)
  then show ?thesis using assms \<open>0 \<le> t * p\<close> \<open>t * p \<le> u * p\<close> by (simp add: sdiv_pos)
next
  case False
  define q where "q = - p"
  have q: "0 < q" "q \<le> 1000000" using assms False by (simp_all add: q_def)
  have neg: "(x * p) sdiv 1000000 = - ((x * q) div 1000000)" if "0 \<le> x" for x
  proof -
    have "x * p = - (x * q)" by (simp add: q_def)
    then show ?thesis using that q by (auto simp: sdiv_pos zero_le_mult_iff mult_le_0_iff)
  qed
  have "u * q \<le> t * q + (u - t) * 1000000"
    using mult_left_mono [of q 1000000 "u - t"] q assms by (simp add: algebra_simps)
  then have "(u * q) div 1000000 \<le> (t * q + (u - t) * 1000000) div 1000000" by (rule zdiv_mono1) simp
  then have "(u * q) div 1000000 \<le> (t * q) div 1000000 + (u - t)" by simp
  then show ?thesis using neg [of t] neg [of u] assms by simp
qed

text \<open>
  C37: The monotonic clock of a node never steps backwards: for every drift down to a stopped
  crystal, later true time never reads as an earlier local time, rounding and clamping included.
\<close>

theorem clock_monotonic_mono:
  assumes "- 1000000 \<le> sint (c_drift c)" and "t \<le> u"
  shows "clock_monotonic c t \<le> clock_monotonic c u"
proof -
  have "uint t \<le> uint u" using assms(2) by (simp add: word_le_def)
  then show ?thesis
    using drift_mono_int [OF assms(1), of "uint t" "uint u"] assms(2)
    by (simp add: clock_monotonic_def apply_drift_def clamp_mono)
qed

theorem clock_monotonic_mono_witness:
  "clock_monotonic \<lparr>c_skew = 0, c_drift = - 200\<rparr> 5000 \<le> clock_monotonic \<lparr>c_skew = 0, c_drift = - 200\<rparr> 10000
   \<and> clock_monotonic \<lparr>c_skew = 0, c_drift = - 200\<rparr> 10000 = 9998"
  using clock_monotonic_mono [of "\<lparr>c_skew = 0, c_drift = - 200\<rparr>" 5000 10000]
  by (simp add: clock_monotonic_def apply_drift_def clamp_u64_def sdiv_pos)

text \<open>
  A clock that runs fast does not wait out a short sleep: the conversion to true time rounds
  down, so a one-nanosecond sleep ends with no time elapsed on the sleeper's own clock.
\<close>

lemma sleep_ends_early:
  "let c = \<lparr>c_skew = 0, c_drift = 200\<rparr> in
     clock_sleep c 1000 1 = Some 1000 \<and> clock_monotonic c 1000 - clock_monotonic c 1000 < 1"
  by (simp add: clock_sleep_def sleep_true_def sat_add_def sdiv_pos)

end
