(* ===== verification/Sim_Trace.thy ===== *)
theory Sim_Trace
  imports Raft_Types Sim_Time
begin

section \<open>The event trace and its rolling hash\<close>

text \<open>
  The file \<open>trace.rs\<close>: the events of a run, the FNV-1a hash they are folded into, and the
  recorder with its three retention modes and its checkpoints. Text is a byte string, a
  \<open>usize\<close> is a 64-bit word. The \<open>Display\<close> implementations are not modelled.

  The lemmas show that the hash does not depend on the retention mode, that the byte stream
  behind it determines the recorded entries, and that FNV-1a never forgets a difference in one
  byte.
\<close>

datatype drop_reason = Partitioned | RandomLoss | NodeDown | NodeGone

fun drop_tag :: "drop_reason \<Rightarrow> u8" where
  "drop_tag Partitioned = 0"
| "drop_tag RandomLoss = 1"
| "drop_tag NodeDown = 2"
| "drop_tag NodeGone = 3"

datatype event =
    Boot node_id
  | Spawn node_id u64
  | Poll node_id u64
  | TaskDone node_id u64
  | Sleep node_id u64 u64
  | Send node_id node_id u64 u64
  | Deliver node_id node_id u64 u64
  | Dropped node_id node_id u64 drop_reason
  | Duplicated node_id node_id u64
  | Corrupted node_id node_id u64 u64
  | DiskWrite node_id u64 u64 u64
  | DiskRead node_id u64 u64 u64
  | Fsync node_id u64 u64
  | Truncate node_id u64 u64
  | TornWrite node_id u64 u64 u64 u64
  | LostWrite node_id u64 u64 u64
  | Enospc node_id u64
  | Crash node_id
  | Restart node_id
  | Partition node_id node_id bool
  | Heal node_id node_id
  | Pause node_id u64
  | Resume node_id
  | ClockStep node_id u64
  | Note node_id bytes

fun event_tag :: "event \<Rightarrow> u8" where
  "event_tag (Boot _) = 1"
| "event_tag (Spawn _ _) = 2"
| "event_tag (Poll _ _) = 3"
| "event_tag (TaskDone _ _) = 4"
| "event_tag (Sleep _ _ _) = 5"
| "event_tag (Send _ _ _ _) = 6"
| "event_tag (Deliver _ _ _ _) = 7"
| "event_tag (Dropped _ _ _ _) = 8"
| "event_tag (Duplicated _ _ _) = 9"
| "event_tag (Corrupted _ _ _ _) = 10"
| "event_tag (DiskWrite _ _ _ _) = 11"
| "event_tag (DiskRead _ _ _ _) = 12"
| "event_tag (Fsync _ _ _) = 13"
| "event_tag (Truncate _ _ _) = 14"
| "event_tag (TornWrite _ _ _ _ _) = 15"
| "event_tag (LostWrite _ _ _ _) = 16"
| "event_tag (Enospc _ _) = 17"
| "event_tag (Crash _) = 18"
| "event_tag (Restart _) = 19"
| "event_tag (Partition _ _ _) = 20"
| "event_tag (Heal _ _) = 21"
| "event_tag (Pause _ _) = 22"
| "event_tag (Resume _) = 23"
| "event_tag (ClockStep _ _) = 24"
| "event_tag (Note _ _) = 25"

fun event_node :: "event \<Rightarrow> node_id option" where
  "event_node (Boot a) = Some a"
| "event_node (Spawn a _) = Some a"
| "event_node (Poll a _) = Some a"
| "event_node (TaskDone a _) = Some a"
| "event_node (Sleep a _ _) = Some a"
| "event_node (Send a _ _ _) = Some a"
| "event_node (Deliver a _ _ _) = Some a"
| "event_node (Dropped a _ _ _) = Some a"
| "event_node (Duplicated a _ _) = Some a"
| "event_node (Corrupted a _ _ _) = Some a"
| "event_node (DiskWrite a _ _ _) = Some a"
| "event_node (DiskRead a _ _ _) = Some a"
| "event_node (Fsync a _ _) = Some a"
| "event_node (Truncate a _ _) = Some a"
| "event_node (TornWrite a _ _ _ _) = Some a"
| "event_node (LostWrite a _ _ _) = Some a"
| "event_node (Enospc a _) = Some a"
| "event_node (Crash a) = Some a"
| "event_node (Restart a) = Some a"
| "event_node (Partition a _ _) = Some a"
| "event_node (Heal a _) = Some a"
| "event_node (Pause a _) = Some a"
| "event_node (Resume a) = Some a"
| "event_node (ClockStep a _) = Some a"
| "event_node (Note a _) = Some a"

subsection \<open>FNV-1a\<close>

definition fnv_new :: u64 where
  "fnv_new = 0xcbf29ce484222325"

definition fnv_byte :: "u8 \<Rightarrow> u64 \<Rightarrow> u64" where
  "fnv_byte b h = (h XOR ucast b) * 0x100000001b3"

definition fnv_u64 :: "u64 \<Rightarrow> u64 \<Rightarrow> u64" where
  "fnv_u64 v h = fold (\<lambda>i. fnv_byte (ucast (drop_bit (i * 8) v))) [0..<8] h"

definition fnv_bytes :: "bytes \<Rightarrow> u64 \<Rightarrow> u64" where
  "fnv_bytes bs h = fold fnv_byte bs (fnv_u64 (word_of_nat (length bs)) h)"

fun event_body :: "event \<Rightarrow> u64 \<Rightarrow> u64" where
  "event_body (Boot a) h = fnv_u64 (ucast a) h"
| "event_body (Spawn a b) h = fnv_u64 b (fnv_u64 (ucast a) h)"
| "event_body (Poll a b) h = fnv_u64 b (fnv_u64 (ucast a) h)"
| "event_body (TaskDone a b) h = fnv_u64 b (fnv_u64 (ucast a) h)"
| "event_body (Sleep a b c) h = fnv_u64 c (fnv_u64 b (fnv_u64 (ucast a) h))"
| "event_body (Send a b c d) h = fnv_u64 d (fnv_u64 c (fnv_u64 (ucast b) (fnv_u64 (ucast a) h)))"
| "event_body (Deliver a b c d) h = fnv_u64 d (fnv_u64 c (fnv_u64 (ucast b) (fnv_u64 (ucast a) h)))"
| "event_body (Dropped a b c d) h = fnv_byte (drop_tag d) (fnv_u64 c (fnv_u64 (ucast b) (fnv_u64 (ucast a) h)))"
| "event_body (Duplicated a b c) h = fnv_u64 c (fnv_u64 (ucast b) (fnv_u64 (ucast a) h))"
| "event_body (Corrupted a b c d) h = fnv_u64 d (fnv_u64 c (fnv_u64 (ucast b) (fnv_u64 (ucast a) h)))"
| "event_body (DiskWrite a b c d) h = fnv_u64 d (fnv_u64 c (fnv_u64 b (fnv_u64 (ucast a) h)))"
| "event_body (DiskRead a b c d) h = fnv_u64 d (fnv_u64 c (fnv_u64 b (fnv_u64 (ucast a) h)))"
| "event_body (Fsync a b c) h = fnv_u64 c (fnv_u64 b (fnv_u64 (ucast a) h))"
| "event_body (Truncate a b c) h = fnv_u64 c (fnv_u64 b (fnv_u64 (ucast a) h))"
| "event_body (TornWrite a b c d e) h = fnv_u64 e (fnv_u64 d (fnv_u64 c (fnv_u64 b (fnv_u64 (ucast a) h))))"
| "event_body (LostWrite a b c d) h = fnv_u64 d (fnv_u64 c (fnv_u64 b (fnv_u64 (ucast a) h)))"
| "event_body (Enospc a b) h = fnv_u64 b (fnv_u64 (ucast a) h)"
| "event_body (Crash a) h = fnv_u64 (ucast a) h"
| "event_body (Restart a) h = fnv_u64 (ucast a) h"
| "event_body (Partition a b c) h = fnv_byte (of_bool c) (fnv_u64 (ucast b) (fnv_u64 (ucast a) h))"
| "event_body (Heal a b) h = fnv_u64 (ucast b) (fnv_u64 (ucast a) h)"
| "event_body (Pause a b) h = fnv_u64 b (fnv_u64 (ucast a) h)"
| "event_body (Resume a) h = fnv_u64 (ucast a) h"
| "event_body (ClockStep a b) h = fnv_u64 b (fnv_u64 (ucast a) h)"
| "event_body (Note a b) h = fnv_bytes b (fnv_u64 (ucast a) h)"

definition event_feed :: "event \<Rightarrow> u64 \<Rightarrow> u64" where
  "event_feed e h = event_body e (fnv_byte (event_tag e) h)"

subsection \<open>The recorder\<close>

datatype trace_mode = HashOnly | Full | Tail nat

record trace_entry =
  t_at :: nanos
  t_seq :: u64
  t_event :: event

record recorder =
  rec_mode :: trace_mode
  rec_hash :: u64
  rec_count :: u64
  rec_entries :: "trace_entry list"
  rec_checkpoints :: "(u64 \<times> u64) list"
  rec_every :: u64

definition recorder_new :: "trace_mode \<Rightarrow> recorder" where
  "recorder_new mode = \<lparr>rec_mode = mode, rec_hash = fnv_new, rec_count = 0, rec_entries = [],
     rec_checkpoints = [], rec_every = 1024\<rparr>"

definition keep_last :: "nat \<Rightarrow> 'a list \<Rightarrow> 'a list" where
  "keep_last n xs = drop (length xs - n) xs"

definition retain :: "trace_mode \<Rightarrow> trace_entry list \<Rightarrow> trace_entry \<Rightarrow> trace_entry list" where
  "retain mode es e = (case mode of
       HashOnly \<Rightarrow> es
     | Full \<Rightarrow> es @ [e]
     | Tail n \<Rightarrow> if n > 0 then keep_last (n - 1) es @ [e] else es)"

definition record_event :: "recorder \<Rightarrow> nanos \<Rightarrow> u64 \<Rightarrow> event \<Rightarrow> recorder" where
  "record_event r at seq ev =
     (let h = event_feed ev (fnv_u64 seq (fnv_u64 at (rec_hash r)));
          n = rec_count r + 1;
          cps = (if n mod rec_every r = 0 then rec_checkpoints r @ [(n, h)] else rec_checkpoints r)
      in r\<lparr>rec_hash := h, rec_count := n,
           rec_entries := retain (rec_mode r) (rec_entries r) \<lparr>t_at = at, t_seq = seq, t_event = ev\<rparr>,
           rec_checkpoints := cps\<rparr>)"

fun zip_divergence :: "(u64 \<times> u64) list \<Rightarrow> (u64 \<times> u64) list \<Rightarrow> u64 option" where
  "zip_divergence (x # xs) (y # ys) = (if x \<noteq> y then Some (fst x) else zip_divergence xs ys)"
| "zip_divergence _ _ = None"

definition first_divergence :: "recorder \<Rightarrow> recorder \<Rightarrow> u64 option" where
  "first_divergence a b = (case zip_divergence (rec_checkpoints a) (rec_checkpoints b) of
       Some n \<Rightarrow> Some n
     | None \<Rightarrow> if rec_hash a \<noteq> rec_hash b
               then Some (if rec_checkpoints a = [] then 0 else fst (last (rec_checkpoints a)))
               else None)"

definition record_all :: "recorder \<Rightarrow> trace_entry list \<Rightarrow> recorder" where
  "record_all = foldl (\<lambda>r e. record_event r (t_at e) (t_seq e) (t_event e))"

subsection \<open>The bytes behind the hash\<close>

fun event_payload :: "event \<Rightarrow> bytes" where
  "event_payload (Boot a) = le_bytes 8 (ucast a :: u64)"
| "event_payload (Spawn a b) = le_bytes 8 (ucast a :: u64) @ le_bytes 8 b"
| "event_payload (Poll a b) = le_bytes 8 (ucast a :: u64) @ le_bytes 8 b"
| "event_payload (TaskDone a b) = le_bytes 8 (ucast a :: u64) @ le_bytes 8 b"
| "event_payload (Sleep a b c) = le_bytes 8 (ucast a :: u64) @ le_bytes 8 b @ le_bytes 8 c"
| "event_payload (Send a b c d) = le_bytes 8 (ucast a :: u64) @ le_bytes 8 (ucast b :: u64) @ le_bytes 8 c @ le_bytes 8 d"
| "event_payload (Deliver a b c d) = le_bytes 8 (ucast a :: u64) @ le_bytes 8 (ucast b :: u64) @ le_bytes 8 c @ le_bytes 8 d"
| "event_payload (Dropped a b c d) = le_bytes 8 (ucast a :: u64) @ le_bytes 8 (ucast b :: u64) @ le_bytes 8 c @ [drop_tag d]"
| "event_payload (Duplicated a b c) = le_bytes 8 (ucast a :: u64) @ le_bytes 8 (ucast b :: u64) @ le_bytes 8 c"
| "event_payload (Corrupted a b c d) = le_bytes 8 (ucast a :: u64) @ le_bytes 8 (ucast b :: u64) @ le_bytes 8 c @ le_bytes 8 d"
| "event_payload (DiskWrite a b c d) = le_bytes 8 (ucast a :: u64) @ le_bytes 8 b @ le_bytes 8 c @ le_bytes 8 d"
| "event_payload (DiskRead a b c d) = le_bytes 8 (ucast a :: u64) @ le_bytes 8 b @ le_bytes 8 c @ le_bytes 8 d"
| "event_payload (Fsync a b c) = le_bytes 8 (ucast a :: u64) @ le_bytes 8 b @ le_bytes 8 c"
| "event_payload (Truncate a b c) = le_bytes 8 (ucast a :: u64) @ le_bytes 8 b @ le_bytes 8 c"
| "event_payload (TornWrite a b c d e) = le_bytes 8 (ucast a :: u64) @ le_bytes 8 b @ le_bytes 8 c @ le_bytes 8 d @ le_bytes 8 e"
| "event_payload (LostWrite a b c d) = le_bytes 8 (ucast a :: u64) @ le_bytes 8 b @ le_bytes 8 c @ le_bytes 8 d"
| "event_payload (Enospc a b) = le_bytes 8 (ucast a :: u64) @ le_bytes 8 b"
| "event_payload (Crash a) = le_bytes 8 (ucast a :: u64)"
| "event_payload (Restart a) = le_bytes 8 (ucast a :: u64)"
| "event_payload (Partition a b c) = le_bytes 8 (ucast a :: u64) @ le_bytes 8 (ucast b :: u64) @ [of_bool c]"
| "event_payload (Heal a b) = le_bytes 8 (ucast a :: u64) @ le_bytes 8 (ucast b :: u64)"
| "event_payload (Pause a b) = le_bytes 8 (ucast a :: u64) @ le_bytes 8 b"
| "event_payload (Resume a) = le_bytes 8 (ucast a :: u64)"
| "event_payload (ClockStep a b) = le_bytes 8 (ucast a :: u64) @ le_bytes 8 b"
| "event_payload (Note a b) = le_bytes 8 (ucast a :: u64) @ le_bytes 8 (word_of_nat (length b) :: u64) @ b"

definition entry_stream :: "trace_entry \<Rightarrow> bytes" where
  "entry_stream e = le_bytes 8 (t_at e) @ le_bytes 8 (t_seq e) @ [event_tag (t_event e)] @ event_payload (t_event e)"

lemma fnv_u64_bytes: "fnv_u64 v h = fold fnv_byte (le_bytes 8 v) h"
proof -
  have "le_bytes 8 v = map (\<lambda>i. ucast (drop_bit (i * 8) v)) [0..<8]"
    by (rule nth_equalityI) (simp_all add: nth_le_bytes mult.commute)
  then show ?thesis unfolding fnv_u64_def by (simp add: fold_map comp_def)
qed

lemma event_feed_bytes: "event_feed e h = fold fnv_byte (event_tag e # event_payload e) h"
  by (cases e) (simp_all add: event_feed_def fnv_u64_bytes fnv_bytes_def)

lemma record_hash_bytes:
  "rec_hash (record_event r (t_at e) (t_seq e) (t_event e)) = fold fnv_byte (entry_stream e) (rec_hash r)"
  by (simp add: record_event_def entry_stream_def event_feed_bytes fnv_u64_bytes Let_def)

lemma record_all_hash: "rec_hash (record_all r es) = fold fnv_byte (concat (map entry_stream es)) (rec_hash r)"
  by (induction es arbitrary: r) (simp_all add: record_all_def record_hash_bytes)

subsection \<open>Retention does not touch the hash\<close>

lemma keep_last_snoc: "0 < n \<Longrightarrow> keep_last n (xs @ [x]) = keep_last (n - 1) xs @ [x]"
  by (cases n) (simp_all add: keep_last_def Suc_diff_le)

lemma keep_last_keep_last: "m \<le> n \<Longrightarrow> keep_last m (keep_last n xs) = keep_last m xs"
  by (simp add: keep_last_def) (rule arg_cong [where f = "\<lambda>k. drop k xs"], arith)

definition retained :: "trace_mode \<Rightarrow> trace_entry list \<Rightarrow> trace_entry list" where
  "retained mode es = (case mode of HashOnly \<Rightarrow> [] | Full \<Rightarrow> es | Tail n \<Rightarrow> keep_last n es)"

lemma retain_retained: "retain mode (retained mode es) e = retained mode (es @ [e])"
  by (cases mode) (auto simp: retain_def retained_def keep_last_snoc keep_last_keep_last, simp add: keep_last_def)

lemma record_all_snoc:
  "record_all r (es @ [e]) = record_event (record_all r es) (t_at e) (t_seq e) (t_event e)"
  by (simp add: record_all_def)

lemma trace_entry_eta [simp]: "\<lparr>t_at = t_at e, t_seq = t_seq e, t_event = t_event e\<rparr> = e"
  by (cases e) simp

lemma record_all_retained:
  "rec_entries (record_all (recorder_new mode) es) = retained mode es \<and> rec_mode (record_all (recorder_new mode) es) = mode"
proof (induction es rule: rev_induct)
  case Nil
  then show ?case by (cases mode) (simp_all add: record_all_def recorder_new_def retained_def keep_last_def)
next
  case (snoc e es)
  then show ?case
    by (simp add: record_all_snoc record_event_def Let_def retain_retained)
qed

subsection \<open>The stream determines the entries\<close>

lemma le_bytes_inject: "LENGTH('a::len) = 8 * n \<Longrightarrow> le_bytes n (v :: 'a word) = le_bytes n w \<longleftrightarrow> v = w"
  by (metis from_le_bytes_le_bytes)

lemma le_bytes_8_append [simp]:
  "le_bytes 8 (v :: u64) @ xs = le_bytes 8 w @ ys \<longleftrightarrow> v = w \<and> xs = ys"
  by (simp add: le_bytes_inject [where n = 8])

lemma ucast_node_inject [simp]: "(ucast (a :: node_id) :: u64) = ucast b \<longleftrightarrow> a = b"
proof -
  have cast_back: "(ucast (ucast x :: u64) :: node_id) = x" for x :: node_id
    by (rule bit_word_eqI) (simp add: bit_simps)
  show ?thesis by (metis cast_back)
qed

definition event_ok :: "event \<Rightarrow> bool" where
  "event_ok e = (case e of Note _ bs \<Rightarrow> length bs < 2 ^ 64 | _ \<Rightarrow> True)"

lemma drop_tag_inject [simp]: "drop_tag a = drop_tag b \<longleftrightarrow> a = b"
  by (cases a; cases b) simp_all

lemma of_bool_inject [simp]: "(of_bool a :: u8) = of_bool b \<longleftrightarrow> a = b"
  by simp

lemma event_payload_same:
  assumes "event_tag e = event_tag e'" and "event_payload e @ r = event_payload e' @ r'"
    and "event_ok e" and "event_ok e'"
  shows "e = e' \<and> r = r'"
proof (cases e)
  case (Note n bs)
  then obtain n' bs' where e': "e' = Note n' bs'" using assms(1) by (cases e') simp_all
  have "n = n'" and len: "(word_of_nat (length bs) :: u64) = word_of_nat (length bs')" and rest: "bs @ r = bs' @ r'"
    using assms(2) Note e' by simp_all
  moreover have "length bs < 2 ^ 64" and "length bs' < 2 ^ 64" using assms(3,4) Note e' by (simp_all add: event_ok_def)
  then have "unat (word_of_nat (length bs) :: u64) = length bs"
    and "unat (word_of_nat (length bs') :: u64) = length bs'" by (simp_all add: unat_of_nat)
  then have "length bs = length bs'" using len by metis
  ultimately show ?thesis using Note e' by simp
qed (use assms(1,2) in \<open>cases e'; simp\<close>)+

lemma entry_stream_inject:
  assumes "entry_stream e @ r = entry_stream e' @ r'" and "event_ok (t_event e)" and "event_ok (t_event e')"
  shows "e = e' \<and> r = r'"
proof -
  have "t_at e = t_at e'" "t_seq e = t_seq e'" and same: "event_tag (t_event e) = event_tag (t_event e')"
    "event_payload (t_event e) @ r = event_payload (t_event e') @ r'"
    using assms(1) by (simp_all add: entry_stream_def)
  moreover have "t_event e = t_event e' \<and> r = r'" using same assms(2,3) by (rule event_payload_same)
  ultimately show ?thesis by (cases e; cases e') simp
qed

lemma entry_stream_not_Nil [simp]: "entry_stream e \<noteq> []"
  by (simp add: entry_stream_def)

lemma stream_inject:
  assumes "concat (map entry_stream es) = concat (map entry_stream es')"
    and "list_all (event_ok \<circ> t_event) es" and "list_all (event_ok \<circ> t_event) es'"
  shows "es = es'"
  using assms
proof (induction es arbitrary: es')
  case Nil
  then show ?case by (cases es') simp_all
next
  case (Cons e es)
  then obtain e' es'' where es': "es' = e' # es''" by (cases es') simp_all
  have "e = e' \<and> concat (map entry_stream es) = concat (map entry_stream es'')"
    using Cons.prems es' by (intro entry_stream_inject) simp_all
  then show ?case using Cons es' by simp
qed

subsection \<open>FNV-1a keeps every difference in one byte\<close>

lemma fnv_prime_inverse: "(0x100000001b3 :: u64) * 0xce965057aff6957b = 1"
  by simp

lemma fnv_mult_cancel: "x * (0x100000001b3 :: u64) = y * 0x100000001b3 \<longleftrightarrow> x = y"
proof
  assume "x * (0x100000001b3 :: u64) = y * 0x100000001b3"
  then have "x * 0x100000001b3 * 0xce965057aff6957b = y * 0x100000001b3 * 0xce965057aff6957b" by (simp only:)
  then show "x = y" by (simp only: mult.assoc fnv_prime_inverse mult_1_right)
qed (simp only:)

lemma fnv_byte_state: "fnv_byte b h = fnv_byte b h' \<longleftrightarrow> h = h'"
  unfolding fnv_byte_def fnv_mult_cancel by (rule xor_right_cancel)

lemma ucast_u8_u64_inject: "(ucast (b :: u8) :: u64) = ucast b' \<longleftrightarrow> b = b'"
proof -
  have cast_back: "(ucast (ucast x :: u64) :: u8) = x" for x :: u8
    by (rule bit_word_eqI) (simp add: bit_simps)
  show ?thesis by (metis cast_back)
qed

lemma fnv_byte_byte: "fnv_byte b h = fnv_byte b' h \<longleftrightarrow> b = b'"
  unfolding fnv_byte_def fnv_mult_cancel xor_left_cancel by (rule ucast_u8_u64_inject)

lemma fnv_fold_state: "fold fnv_byte bs h = fold fnv_byte bs h' \<longleftrightarrow> h = h'"
  by (induction bs arbitrary: h h') (simp_all add: fnv_byte_state)

lemma fnv_fold_update:
  assumes "i < length bs"
  shows "fold fnv_byte (bs[i := b]) h = fold fnv_byte bs h \<longleftrightarrow> bs[i := b] = bs"
proof -
  have "fold fnv_byte bs h = fold fnv_byte (take i bs @ bs ! i # drop (Suc i) bs) h"
    using assms by (simp only: id_take_nth_drop [symmetric])
  moreover have "fold fnv_byte (bs[i := b]) h = fold fnv_byte (take i bs @ b # drop (Suc i) bs) h"
    using assms by (simp only: upd_conv_take_nth_drop)
  ultimately have "fold fnv_byte (bs[i := b]) h = fold fnv_byte bs h \<longleftrightarrow> b = bs ! i"
    by (simp add: fnv_fold_state fnv_byte_byte)
  also have "\<dots> \<longleftrightarrow> bs[i := b] = bs" using assms by (metis list_update_id nth_list_update_eq)
  finally show ?thesis .
qed

text \<open>
  C38: Two runs whose recorded byte streams differ in one byte at most (a task picked, a length,
  a time, a node that differs in one byte, or an event of another kind with the same fields)
  have equal trace hashes exactly when they recorded the same entries: the serialisation is
  unambiguous and the hash never forgets such a divergence.
\<close>

theorem trace_hash_sensitive:
  assumes "concat (map entry_stream es') = (concat (map entry_stream es))[i := b]"
    and "i < length (concat (map entry_stream es))"
    and "list_all (event_ok \<circ> t_event) es" and "list_all (event_ok \<circ> t_event) es'"
  shows "rec_hash (record_all r es') = rec_hash (record_all r es) \<longleftrightarrow> es' = es"
proof -
  have "rec_hash (record_all r es') = rec_hash (record_all r es)
      \<longleftrightarrow> concat (map entry_stream es') = concat (map entry_stream es)"
    unfolding record_all_hash assms(1) using assms(2) by (rule fnv_fold_update)
  also have "\<dots> \<longleftrightarrow> es' = es" using stream_inject [OF _ assms(4,3)] by auto
  finally show ?thesis .
qed

definition poll_at :: "u64 \<Rightarrow> trace_entry" where
  "poll_at task = \<lparr>t_at = 1, t_seq = 0, t_event = Poll 0 task\<rparr>"

theorem trace_hash_sensitive_witness:
  "rec_hash (record_all (recorder_new HashOnly) [poll_at 2]) \<noteq> rec_hash (record_all (recorder_new HashOnly) [poll_at 1])"
proof -
  have "concat (map entry_stream [poll_at 2]) = (concat (map entry_stream [poll_at 1]))[25 := 2]"
    and "25 < length (concat (map entry_stream [poll_at 1]))"
    and "list_all (event_ok \<circ> t_event) [poll_at 1]" and "list_all (event_ok \<circ> t_event) [poll_at 2]"
    by code_simp+
  from trace_hash_sensitive [OF this] show ?thesis by (simp only: list.inject poll_at_def) simp
qed

end
