(* ===== verification/Sim_Rng.thy ===== *)
theory Sim_Rng
  imports Chrono_Prelude
begin

section \<open>Deterministic randomness and virtual time\<close>

text \<open>
  The files \<open>rng.rs\<close> and \<open>time.rs\<close> of \<open>chrono-sim\<close>: the SplitMix64 seeder, the xoshiro256**
  generator, the integer-only sampling helpers of \<open>RngExt\<close>, the weighted latency
  distribution, and saturating virtual time.

  A draw takes the generator state and gives the new one. The rejection loop of \<open>below\<close>
  has no bound in the code, so it is a \<open>partial_function (option)\<close>: a generator that never
  leaves the rejected zone is the value \<open>None\<close>. Everything that draws inherits the option.
  The lemmas show what a draw that returns gives, that one accepted value anywhere ahead in
  the stream is enough for \<open>below\<close> to return, and that \<open>shuffle\<close> only permutes.
\<close>

subsection \<open>Generators\<close>

definition rotate_left :: "u64 \<Rightarrow> nat \<Rightarrow> u64" where
  "rotate_left x n = push_bit n x OR drop_bit (64 - n) x"

definition splitmix_next :: "u64 \<Rightarrow> u64 \<times> u64" where
  "splitmix_next s =
     (let s = s + 0x9E3779B97F4A7C15;
          z = s;
          z = (z XOR drop_bit 30 z) * 0xBF58476D1CE4E5B9;
          z = (z XOR drop_bit 27 z) * 0x94D049BB133111EB
      in (z XOR drop_bit 31 z, s))"

record xoshiro =
  s0 :: u64
  s1 :: u64
  s2 :: u64
  s3 :: u64

definition from_seed :: "u64 \<Rightarrow> xoshiro" where
  "from_seed seed =
     (let (a, sm) = splitmix_next seed; (b, sm) = splitmix_next sm;
          (c, sm) = splitmix_next sm; (d, sm) = splitmix_next sm
      in \<lparr>s0 = a, s1 = b, s2 = c, s3 = d\<rparr>)"

definition next_u64 :: "xoshiro \<Rightarrow> u64 \<times> xoshiro" where
  "next_u64 g =
     (let result = rotate_left (s1 g * 5) 7 * 9;
          t = push_bit 17 (s1 g);
          a2 = s2 g XOR s0 g;
          a3 = s3 g XOR s1 g;
          a1 = s1 g XOR a2;
          a0 = s0 g XOR a3;
          a2 = a2 XOR t;
          a3 = rotate_left a3 45
      in (result, \<lparr>s0 = a0, s1 = a1, s2 = a2, s3 = a3\<rparr>))"

definition JUMP :: "u64 list" where
  "JUMP = [0x180EC6D33CFD0ABA, 0xD5A61266F0C9392C, 0xA9582618E03FC9AA, 0x39ABDC4529B1661C]"

definition xor_state :: "xoshiro \<Rightarrow> xoshiro \<Rightarrow> xoshiro" where
  "xor_state a g = \<lparr>s0 = s0 a XOR s0 g, s1 = s1 a XOR s1 g, s2 = s2 a XOR s2 g, s3 = s3 a XOR s3 g\<rparr>"

definition jump_bit :: "u64 \<Rightarrow> nat \<Rightarrow> xoshiro \<times> xoshiro \<Rightarrow> xoshiro \<times> xoshiro" where
  "jump_bit j b = (\<lambda>(acc, g).
     (if drop_bit b j AND 1 = 1 then xor_state acc g else acc, snd (next_u64 g)))"

definition jump :: "xoshiro \<Rightarrow> xoshiro" where
  "jump g = fst (fold (\<lambda>j. fold (jump_bit j) [0..<64]) JUMP (\<lparr>s0 = 0, s1 = 0, s2 = 0, s3 = 0\<rparr>, g))"

definition rng_fork :: "xoshiro \<Rightarrow> xoshiro \<times> xoshiro" where
  "rng_fork g = (let child = jump g; next_parent = jump child in (child, next_parent))"

subsection \<open>Sampling\<close>

type_synonym 'a rand = "xoshiro \<Rightarrow> ('a \<times> xoshiro) option"

definition rand_return :: "'a \<Rightarrow> 'a rand" where
  "rand_return x = (\<lambda>g. Some (x, g))"

definition rand_bind :: "'a rand \<Rightarrow> ('a \<Rightarrow> 'b rand) \<Rightarrow> 'b rand" where
  "rand_bind m f = (\<lambda>g. case m g of None \<Rightarrow> None | Some (x, g') \<Rightarrow> f x g')"

definition below_zone :: "u64 \<Rightarrow> u64" where
  "below_zone n = (- 1) - ((- 1) mod n) - 1"

partial_function (option) below_loop :: "u64 \<Rightarrow> u64 \<Rightarrow> xoshiro \<Rightarrow> (u64 \<times> xoshiro) option" where
  "below_loop zone n g =
     (let (v, g') = next_u64 g in if v \<le> zone then Some (v mod n, g') else below_loop zone n g')"

definition below :: "u64 \<Rightarrow> u64 rand" where
  "below n = (\<lambda>g. if n \<le> 1 then Some (0, g) else below_loop (below_zone n) n g)"

definition range_of :: "u64 \<Rightarrow> u64 \<Rightarrow> u64 rand" where
  "range_of lo hi = (if hi \<le> lo then rand_return lo
     else rand_bind (below (hi - lo)) (\<lambda>v. rand_return (lo + v)))"

definition chance :: "u32 \<Rightarrow> u32 \<Rightarrow> bool rand" where
  "chance num den = (if num = 0 then rand_return False
     else if num \<ge> den then rand_return True
     else rand_bind (below (ucast den)) (\<lambda>v. rand_return (v < ucast num)))"

definition ppm :: "u32 \<Rightarrow> bool rand" where
  "ppm p = chance p 1000000"

definition pick_index :: "nat \<Rightarrow> nat option rand" where
  "pick_index len = (if len = 0 then rand_return None
     else rand_bind (below (word_of_nat len)) (\<lambda>v. rand_return (Some (unat v))))"

definition swap :: "'a list \<Rightarrow> nat \<Rightarrow> nat \<Rightarrow> 'a list" where
  "swap xs i j = xs[i := xs ! j, j := xs ! i]"

primrec shuffle_down :: "nat \<Rightarrow> 'a list \<Rightarrow> 'a list rand" where
  "shuffle_down 0 xs = rand_return xs"
| "shuffle_down (Suc i) xs =
     rand_bind (below (word_of_nat (Suc i) + 1)) (\<lambda>j. shuffle_down i (swap xs (Suc i) (unat j)))"

definition shuffle :: "'a list \<Rightarrow> 'a list rand" where
  "shuffle xs = (if length xs < 2 then rand_return xs else shuffle_down (length xs - 1) xs)"

fun weighted_walk :: "nat \<Rightarrow> u64 \<Rightarrow> u32 list \<Rightarrow> nat option" where
  "weighted_walk i r [] = None"
| "weighted_walk i r (w # ws) = (if r < ucast w then Some i else weighted_walk (i + 1) (r - ucast w) ws)"

definition weighted_index :: "u32 list \<Rightarrow> nat rand" where
  "weighted_index weights =
     (let total = sum_list (map (ucast :: u32 \<Rightarrow> u64) weights) in
      if total = 0 then rand_return 0
      else rand_bind (below total) (\<lambda>r. rand_return
             (case weighted_walk 0 r weights of Some i \<Rightarrow> i | None \<Rightarrow> length weights - 1)))"

type_synonym latency_dist = "(u32 \<times> u64 \<times> u64) list"

fun bucket_walk :: "u64 \<Rightarrow> latency_dist \<Rightarrow> (u64 \<times> u64) option" where
  "bucket_walk r [] = None"
| "bucket_walk r ((w, lo, hi) # bs) = (if r < ucast w then Some (lo, hi) else bucket_walk (r - ucast w) bs)"

definition latency_sample :: "latency_dist \<Rightarrow> u64 rand" where
  "latency_sample buckets =
     (let total = sum_list (map (\<lambda>b. ucast (fst b) :: u64) buckets) in
      if total = 0 then rand_return (fst (snd (hd buckets)))
      else rand_bind (below total) (\<lambda>r.
             case bucket_walk r buckets of
               Some (lo, hi) \<Rightarrow> range_of lo hi
             | None \<Rightarrow> (case last buckets of (_, lo, hi) \<Rightarrow> range_of lo hi)))"

definition latency_fixed :: "u64 \<Rightarrow> latency_dist" where
  "latency_fixed nanos = [(1, nanos, nanos + 1)]"

definition latency_uniform :: "u64 \<Rightarrow> u64 \<Rightarrow> latency_dist" where
  "latency_uniform lo hi = [(1, lo, max hi (lo + 1))]"

definition latency_max :: "latency_dist \<Rightarrow> u64" where
  "latency_max buckets = fold (\<lambda>b m. max (snd (snd b)) m) buckets 0"

subsection \<open>What a draw gives\<close>

lemma rand_bind_Some:
  "rand_bind m f g = Some (y, g'') \<longleftrightarrow> (\<exists>x g'. m g = Some (x, g') \<and> f x g' = Some (y, g''))"
  by (auto simp: rand_bind_def split: option.splits)

lemma rand_return_Some [simp]: "rand_return x g = Some (y, g') \<longleftrightarrow> y = x \<and> g' = g"
  by (auto simp: rand_return_def)

lemma below_loop_bound:
  assumes "below_loop zone n g = Some (v, g')" and "n \<noteq> 0"
  shows "v < n"
proof -
  have "\<And>zone' n' g r. below_loop zone' n' g = Some r \<Longrightarrow> n' \<noteq> 0 \<longrightarrow> fst r < n'"
    by (rule below_loop.raw_induct) (auto split: prod.splits if_splits simp: word_mod_less_divisor word_gt_0)
  from this [OF assms(1)] assms(2) show ?thesis by simp
qed

lemma below_bound:
  assumes "below n g = Some (v, g')" and "n \<noteq> 0"
  shows "v < n"
  using assms below_loop_bound
  by (auto simp: below_def split: if_splits) (simp add: word_neq_0_conv)

lemma range_bound:
  assumes "range_of lo hi g = Some (v, g')"
  shows "if lo < hi then lo \<le> v \<and> v < hi else v = lo"
proof (cases "lo < hi")
  case True
  then have "hi - lo \<noteq> 0" by auto
  moreover have "rand_bind (below (hi - lo)) (\<lambda>v. rand_return (lo + v)) g = Some (v, g')"
    using assms True by (simp add: range_of_def not_le [symmetric])
  ultimately obtain u where u: "u < hi - lo" and v: "v = lo + u"
    by (auto simp: rand_bind_Some dest: below_bound)
  have "unat u + unat lo < unat hi" using u True by (simp add: word_less_nat_alt unat_sub_if_size less_diff_conv)
  then have "unat v = unat lo + unat u" using v unat_bound [of hi] by (simp add: unat_word_ariths)
  then show ?thesis using \<open>unat u + unat lo < unat hi\<close> True by (simp add: word_less_nat_alt word_le_nat_alt)
qed (use assms in \<open>auto simp: range_of_def rand_bind_Some not_le split: if_splits\<close>)

subsection \<open>When the rejection loop returns\<close>

primrec draw_state :: "nat \<Rightarrow> xoshiro \<Rightarrow> xoshiro" where
  "draw_state 0 g = g"
| "draw_state (Suc k) g = draw_state k (snd (next_u64 g))"

lemma below_loop_returns:
  assumes "fst (next_u64 (draw_state k g)) \<le> zone"
  shows "\<exists>r. below_loop zone n g = Some r"
  using assms
proof (induction k arbitrary: g)
  case 0
  then show ?case by (subst below_loop.simps) (auto split: prod.splits)
next
  case (Suc k)
  obtain v g' where n: "next_u64 g = (v, g')" by fastforce
  with Suc have "\<exists>r. below_loop zone n g' = Some r" by simp
  then show ?case using n by (subst below_loop.simps) auto
qed

subsection \<open>No residue is favoured\<close>

lemma largest_multiple:
  fixes M N :: nat
  assumes "1 < N" and "N \<le> M"
  shows "M mod N < M" and "M - M mod N = N * (M div N)"
proof -
  have "M mod N < N" using assms(1) by simp
  then show "M mod N < M" using assms(2) by (rule less_le_trans)
  show "M - M mod N = N * (M div N)" by (rule minus_mod_eq_mult_div)
qed

lemma below_zone_multiple:
  assumes "1 < n"
  shows "unat (below_zone n) + 1 = unat n * ((2 ^ 64 - 1) div unat n)"
proof -
  define M :: nat where "M = 2 ^ 64 - 1"
  have M: "unat (- 1 :: u64) = M" by (simp add: M_def unsigned_minus_1_eq_mask mask_eq_exp_minus_1)
  have n: "1 < unat n" using assms by (simp add: word_less_nat_alt)
  moreover have "unat n \<le> M" using unat_bound [of n] by (simp add: M_def)
  ultimately have lt: "M mod unat n < M" and eq: "M - M mod unat n = unat n * (M div unat n)"
    by (rule largest_multiple)+
  have r: "unat ((- 1 :: u64) mod n) = M mod unat n" by (simp only: unat_mod M)
  have "(- 1 :: u64) mod n \<le> - 1" using lt by (simp only: word_le_nat_alt r M)
  then have a: "unat ((- 1 :: u64) - (- 1) mod n) = M - M mod unat n"
    by (simp only: unat_sub r M)
  then have "(- 1 :: u64) - (- 1) mod n \<noteq> 0" using lt by (metis unat_0 zero_less_diff less_irrefl)
  then have "unat (below_zone n) = unat ((- 1 :: u64) - (- 1) mod n) - 1"
    unfolding below_zone_def by (rule unat_minus_one)
  then show ?thesis unfolding a M_def [symmetric] eq [symmetric] using lt by linarith
qed

lemma card_residues:
  assumes "r < n"
  shows "card {x :: nat. x < n * q \<and> x mod n = r} = q"
proof -
  have "{x. x < n * q \<and> x mod n = r} = (\<lambda>k. n * k + r) ` {..<q}"
  proof (intro equalityI subsetI)
    fix x assume x: "x \<in> {x. x < n * q \<and> x mod n = r}"
    then have "x div n < q" using assms by (simp add: less_mult_imp_div_less mult.commute)
    moreover have "x = n * (x div n) + r" using x mult_div_mod_eq [of n x] by simp
    ultimately show "x \<in> (\<lambda>k. n * k + r) ` {..<q}" by blast
  next
    fix x assume "x \<in> (\<lambda>k. n * k + r) ` {..<q}"
    then obtain k where k: "k < q" and x: "x = n * k + r" by auto
    have "n * k + r < n * Suc k" using assms by simp
    also have "\<dots> \<le> n * q" using k by (intro mult_le_mono2) simp
    finally show "x \<in> {x. x < n * q \<and> x mod n = r}" using x assms by simp
  qed
  moreover have "inj_on (\<lambda>k. n * k + r) {..<q}" using assms by (auto simp: inj_on_def)
  ultimately show ?thesis by (simp add: card_image)
qed

lemma accepted_draws:
  assumes "1 < n" and "r < n"
  shows "card {v. v \<le> below_zone n \<and> v mod n = r} = (2 ^ 64 - 1) div unat n"
proof -
  define q :: nat where "q = (2 ^ 64 - 1) div unat n"
  let ?S = "{v. v \<le> below_zone n \<and> v mod n = r}"
  have zone: "v \<le> below_zone n \<longleftrightarrow> unat v < unat n * q" for v
    using below_zone_multiple [OF assms(1)] unfolding q_def [symmetric] word_le_nat_alt by linarith
  have small: "x < 2 ^ 64" if "x < unat n * q" for x :: nat
    using that below_zone_multiple [OF assms(1)] unat_bound [of "below_zone n"] unfolding q_def [symmetric] by simp
  have "unat ` ?S = {x. x < unat n * q \<and> x mod unat n = unat r}"
  proof (intro equalityI subsetI)
    fix x assume "x \<in> unat ` ?S"
    then show "x \<in> {x. x < unat n * q \<and> x mod unat n = unat r}" using zone by (auto simp: unat_mod)
  next
    fix x assume x: "x \<in> {x. x < unat n * q \<and> x mod unat n = unat r}"
    then have u: "unat (word_of_nat x :: u64) = x" using small by (simp add: unat_of_nat)
    then have "(word_of_nat x :: u64) \<in> ?S" using x zone by (simp add: word_unat_eq_iff unat_mod)
    then show "x \<in> unat ` ?S" using u by (intro image_eqI) simp_all
  qed
  moreover have "card (unat ` ?S) = card ?S"
    by (rule card_image) (simp add: inj_on_def word_unat_eq_iff)
  ultimately have "card ?S = card {x. x < unat n * q \<and> x mod unat n = unat r}" by (simp only:)
  also have "\<dots> = q" using assms(2) by (intro card_residues) (simp add: word_less_nat_alt)
  finally show ?thesis by (simp only: q_def)
qed

lemma accepted_some:
  fixes n :: u64
  assumes "1 < n"
  shows "0 < (2 ^ 64 - 1 :: nat) div unat n"
proof -
  have "unat n \<le> 2 ^ 64 - 1" using unat_bound [of n] by simp
  moreover have "0 < unat n" using assms by (simp add: word_less_nat_alt)
  ultimately show ?thesis by (simp only: div_greater_zero_iff)
qed

subsection \<open>Which draw is returned\<close>

text \<open>The \<open>k\<close>-th raw draw from a generator state, counted from zero.\<close>

definition raw_draw :: "nat \<Rightarrow> xoshiro \<Rightarrow> u64" where
  "raw_draw k g = fst (next_u64 (draw_state k g))"

definition first_accepted :: "u64 \<Rightarrow> xoshiro \<Rightarrow> nat \<Rightarrow> bool" where
  "first_accepted zone g k \<longleftrightarrow> raw_draw k g \<le> zone \<and> (\<forall>j<k. zone < raw_draw j g)"

lemma raw_draw_Suc: "raw_draw (Suc k) g = raw_draw k (snd (next_u64 g))"
  by (simp add: raw_draw_def)

lemma raw_draw_ahead:
  "next_u64 g = (v, g') \<Longrightarrow> v \<le> zone \<Longrightarrow> \<exists>k. raw_draw k g \<le> zone"
  "next_u64 g = (v, g') \<Longrightarrow> \<exists>k. raw_draw k g' \<le> zone \<Longrightarrow> \<exists>k. raw_draw k g \<le> zone"
  by (metis draw_state.simps(1) fst_conv raw_draw_def) (metis raw_draw_Suc snd_conv)

lemma first_accepted_Suc:
  "zone < raw_draw 0 g \<Longrightarrow> first_accepted zone g (Suc k) \<longleftrightarrow> first_accepted zone (snd (next_u64 g)) k"
  by (auto simp: first_accepted_def raw_draw_Suc less_Suc_eq_0_disj)

lemma below_loop_first:
  assumes "first_accepted zone g k"
  shows "below_loop zone n g = Some (raw_draw k g mod n, draw_state (Suc k) g)"
  using assms
proof (induction k arbitrary: g)
  case 0
  then show ?case by (subst below_loop.simps) (auto simp: first_accepted_def raw_draw_def split: prod.splits)
next
  case (Suc k)
  obtain v g' where n: "next_u64 g = (v, g')" by fastforce
  have v: "zone < v" using Suc.prems n by (auto simp: first_accepted_def raw_draw_def)
  then have "first_accepted zone g' k" using Suc.prems n first_accepted_Suc [of zone g k] by (simp add: raw_draw_def)
  from Suc.IH [OF this] v n show ?case by (subst below_loop.simps) (auto simp: raw_draw_Suc not_le)
qed

lemma below_loop_accepts:
  assumes "below_loop zone n g = Some r"
  shows "\<exists>k. first_accepted zone g k"
proof -
  have "\<And>zone' n' g r. below_loop zone' n' g = Some r \<Longrightarrow> \<exists>k. raw_draw k g \<le> zone'"
    by (rule below_loop.raw_induct) (auto split: prod.splits if_splits intro: raw_draw_ahead)
  from this [OF assms] obtain k where "raw_draw k g \<le> zone" by blast
  then have "first_accepted zone g (LEAST k. raw_draw k g \<le> zone)"
    unfolding first_accepted_def by (metis LeastI not_less_Least not_le)
  then show ?thesis by blast
qed

text \<open>
  C36: Rejection sampling is exact and unbiased. For a bound n above 1, below(n) returns the
  first raw draw that lies in the acceptance zone, reduced modulo n, and leaves the generator
  just after that draw: it returns this and nothing else, and it returns whenever such a draw
  exists. Among the raw 64-bit values in the zone every residue r below n occurs equally often,
  (2^64 - 1) div n times and at least once, so no result is favoured.
\<close>

theorem below_unbiased:
  assumes "1 < n" and "r < n"
  shows "(below n g = Some (x, g') \<longleftrightarrow>
      (\<exists>k. first_accepted (below_zone n) g k \<and> x = raw_draw k g mod n \<and> g' = draw_state (Suc k) g)) \<and>
    card {v. v \<le> below_zone n \<and> v mod n = r} = (2 ^ 64 - 1) div unat n \<and> 0 < (2 ^ 64 - 1) div unat n"
proof -
  have "below n g = below_loop (below_zone n) n g" using assms(1) by (auto simp: below_def not_le)
  then have "below n g = Some (x, g') \<longleftrightarrow>
      (\<exists>k. first_accepted (below_zone n) g k \<and> x = raw_draw k g mod n \<and> g' = draw_state (Suc k) g)"
    using below_loop_first [of "below_zone n" g _ n] below_loop_accepts [of "below_zone n" n g]
    by (metis option.inject prod.inject)
  then show ?thesis using accepted_draws [OF assms] accepted_some [OF assms(1)] by blast
qed

theorem below_unbiased_witness:
  "below 7 \<lparr>s0 = 0, s1 = 1, s2 = 0, s3 = 0\<rparr> = Some (6, draw_state 1 \<lparr>s0 = 0, s1 = 1, s2 = 0, s3 = 0\<rparr>) \<and>
   card {v. v \<le> below_zone 7 \<and> v mod 7 = 6} = 2635249153387078802"
proof -
  let ?g = "\<lparr>s0 = 0, s1 = 1, s2 = 0, s3 = 0\<rparr>"
  have q: "(2 ^ 64 - 1) div unat (7 :: u64) = 2635249153387078802" by simp
  have lt: "1 < (7 :: u64)" "6 < (7 :: u64)" by simp_all
  have d: "raw_draw 0 ?g = 5760" by (simp add: raw_draw_def next_u64_def Let_def rotate_left_def)
  have "unat (below_zone 7) + 1 = 7 * 2635249153387078802" using below_zone_multiple [OF lt(1)] by simp
  then have "first_accepted (below_zone 7) ?g 0" by (simp add: first_accepted_def d word_le_nat_alt)
  moreover have "raw_draw 0 ?g mod 7 = 6" by (simp add: d)
  ultimately have "\<exists>k. first_accepted (below_zone 7) ?g k \<and> 6 = raw_draw k ?g mod 7 \<and> draw_state 1 ?g = draw_state (Suc k) ?g"
    by (intro exI [of _ 0]) simp
  with below_unbiased [OF lt, of ?g 6 "draw_state 1 ?g"] show ?thesis unfolding q by blast
qed

subsection \<open>Shuffling and latencies\<close>

lemma mset_swap_at: "i < length xs \<Longrightarrow> j < length xs \<Longrightarrow> mset (swap xs i j) = mset xs"
  unfolding swap_def by (rule mset_swap)

lemma shuffle_down_perm:
  assumes "shuffle_down i xs g = Some (ys, g')" and "i < length xs" and "length xs \<le> 2 ^ 63"
  shows "mset ys = mset xs"
  using assms
proof (induction i arbitrary: xs g)
  case 0
  then show ?case by simp
next
  case (Suc i)
  then obtain j g1 where j: "below (word_of_nat (Suc i) + 1) g = Some (j, g1)"
    and rest: "shuffle_down i (swap xs (Suc i) (unat j)) g1 = Some (ys, g')"
    by (auto simp: rand_bind_Some)
  have "Suc i + 1 < 2 ^ 64" using Suc.prems by simp
  then have u: "unat (word_of_nat (Suc i) + 1 :: u64) = Suc i + 1"
    using unat_plus_one [of "word_of_nat (Suc i) :: u64"] by (simp add: unat_of_nat del: of_nat_Suc)
  then have "(word_of_nat (Suc i) + 1 :: u64) \<noteq> 0" by (metis Suc_eq_plus1 nat.distinct(1) unat_0)
  then have "unat j < Suc i + 1" using below_bound [OF j] u by (simp add: word_less_nat_alt del: of_nat_Suc)
  then have "unat j < length xs" using Suc.prems by simp
  moreover have "mset ys = mset (swap xs (Suc i) (unat j))"
    using Suc.IH [OF rest] Suc.prems by (simp add: swap_def)
  ultimately show ?case using Suc.prems by (simp add: mset_swap_at)
qed

lemma shuffle_perm:
  assumes "shuffle xs g = Some (ys, g')" and "length xs \<le> 2 ^ 63"
  shows "mset ys = mset xs"
  using assms shuffle_down_perm [of "length xs - 1" xs]
  by (auto simp: shuffle_def split: if_splits)

definition latency_ok :: "latency_dist \<Rightarrow> bool" where
  "latency_ok bs \<longleftrightarrow> bs \<noteq> [] \<and> (\<forall>(w, lo, hi) \<in> set bs. lo < hi)"

lemma bucket_walk_in: "bucket_walk r bs = Some (lo, hi) \<Longrightarrow> \<exists>w. (w, lo, hi) \<in> set bs"
  by (induction r bs rule: bucket_walk.induct) (auto split: if_splits)

lemma fold_max_ge:
  fixes f :: "'a \<Rightarrow> u64"
  shows "m \<le> fold (\<lambda>b. max (f b)) bs m" and "b \<in> set bs \<Longrightarrow> f b \<le> fold (\<lambda>b. max (f b)) bs m"
proof (induction bs arbitrary: m)
  case (Cons a bs)
  { case 1 show ?case using Cons(1) [of "max (f a) m"] by simp }
  { case 2 then show ?case using Cons(1) [of "max (f a) m"] Cons(2) [of "max (f a) m"] by auto }
qed simp_all

text \<open>
  Every sampled latency lies inside one of the buckets of the distribution, hence strictly
  below its max(), which is the bound the liveness watchdog waits for.
\<close>

lemma latency_sample_bound:
  assumes "latency_ok bs" and "latency_sample bs g = Some (v, g')"
  shows "(\<exists>w lo hi. (w, lo, hi) \<in> set bs \<and> lo \<le> v \<and> v < hi) \<and> v < latency_max bs"
proof -
  have bucket: "(\<exists>w lo hi. (w, lo, hi) \<in> set bs \<and> lo \<le> v \<and> v < hi)"
  proof (cases "sum_list (map (\<lambda>b. ucast (fst b) :: u64) bs) = 0")
    case True
    then obtain w lo hi bs' where "bs = (w, lo, hi) # bs'" and "v = lo" and "lo < hi"
      using assms by (cases bs) (auto simp: latency_sample_def latency_ok_def)
    then show ?thesis by force
  next
    case False
    then obtain r g1 where walk: "(case bucket_walk r bs of Some (lo, hi) \<Rightarrow> range_of lo hi
        | None \<Rightarrow> (case last bs of (_, lo, hi) \<Rightarrow> range_of lo hi)) g1 = Some (v, g')"
      using assms(2) by (auto simp: latency_sample_def Let_def rand_bind_Some)
    then obtain w lo hi where in_bs: "(w, lo, hi) \<in> set bs" and range: "range_of lo hi g1 = Some (v, g')"
      using assms(1) last_in_set [of bs]
      by (cases "bucket_walk r bs"; cases "last bs") (auto simp: latency_ok_def dest!: bucket_walk_in)
    moreover have "lo < hi" using assms(1) in_bs by (auto simp: latency_ok_def)
    ultimately show ?thesis using range_bound [OF range] by auto
  qed
  then show ?thesis
    using fold_max_ge(2) [of _ bs "\<lambda>b. snd (snd b)" 0] unfolding latency_max_def by force
qed

end
