(* ===== verification/Sim_Disk.thy ===== *)
theory Sim_Disk
  imports Sim_Fault Sim_Trace "HOL-Library.Char_ord"
begin

section \<open>The simulated disk\<close>

text \<open>
  The files of one simulated node, from \<open>kernel.rs\<close>: what is on the platter, what the page
  cache shows and the operations in between, with the calls of \<open>File\<close> and \<open>Storage\<close> and the
  power loss that decides the fate of every operation not covered by an fsync.

  A call is a function from the disk to a result and the new disk; an I/O error is the left
  summand. Byte offsets and counts are natural numbers, file names are strings. The call to
  fsync has two halves, because writes may arrive while it waits; \<open>fsync\<close> is the two in a row.
  Timers, statistics and trace events around these calls belong to the kernel.

  Two levels describe a power loss. \<open>power_loss\<close> draws the fates from the generator, as the code
  does; \<open>lands\<close> relates a file to everything that may be found on it afterwards. Every drawn
  outcome is one of these, so what holds for all of \<open>lands\<close> holds for every seed.
\<close>

datatype io_error =
    DiskFull
  | Eio string
  | NotContiguous u64 u64

type_synonym ('s, 'a) io = "'s \<Rightarrow> (io_error + 'a) \<times> 's"

definition io_return :: "'a \<Rightarrow> ('s, 'a) io" where
  "io_return x = (\<lambda>s. (Inr x, s))"

definition io_fail :: "io_error \<Rightarrow> ('s, 'a) io" where
  "io_fail e = (\<lambda>s. (Inl e, s))"

definition io_bind :: "('s, 'a) io \<Rightarrow> ('a \<Rightarrow> ('s, 'b) io) \<Rightarrow> ('s, 'b) io" where
  "io_bind m f = (\<lambda>s. case m s of (Inl e, s') \<Rightarrow> (Inl e, s') | (Inr x, s') \<Rightarrow> f x s')"

definition is_enospc :: "io_error \<Rightarrow> bool" where
  "is_enospc e \<longleftrightarrow> e = DiskFull"

subsection \<open>Files\<close>

datatype pending_op =
    OpWrite nat bytes
  | OpTruncate nat

record file_state =
  fs_id :: u64
  fs_durable :: bytes
  fs_view :: bytes
  fs_pending :: "pending_op list"

definition name_bytes :: "string \<Rightarrow> bytes" where
  "name_bytes name = map (\<lambda>c. word_of_nat (of_char c)) name"

definition file_new :: "string \<Rightarrow> file_state" where
  "file_new name = \<lparr>fs_id = fnv_bytes (name_bytes name) fnv_new, fs_durable = [], fs_view = [], fs_pending = []\<rparr>"

definition resize_zero :: "bytes \<Rightarrow> nat \<Rightarrow> bytes" where
  "resize_zero buf n = (if length buf < n then buf @ replicate (n - length buf) 0 else buf)"

definition splice :: "bytes \<Rightarrow> nat \<Rightarrow> bytes \<Rightarrow> bytes" where
  "splice buf off data =
     (let buf = resize_zero buf off;
          fin = off + length data;
          buf = resize_zero buf fin
      in take off buf @ data @ drop fin buf)"

fun apply_op :: "pending_op \<Rightarrow> bytes \<Rightarrow> bytes" where
  "apply_op (OpWrite off data) buf = splice buf off data"
| "apply_op (OpTruncate n) buf = take n buf"

record node_disk =
  nd_up :: bool
  nd_files :: "string \<rightharpoonup> file_state"
  nd_used :: nat

definition disk_new :: node_disk where
  "disk_new = \<lparr>nd_up = True, nd_files = Map.empty, nd_used = 0\<rparr>"

definition put_file :: "node_disk \<Rightarrow> string \<Rightarrow> file_state \<Rightarrow> node_disk" where
  "put_file d name f = d\<lparr>nd_files := (nd_files d)(name \<mapsto> f)\<rparr>"

definition file_len :: "node_disk \<Rightarrow> string \<Rightarrow> nat" where
  "file_len d name = (case nd_files d name of None \<Rightarrow> 0 | Some f \<Rightarrow> length (fs_view f))"

definition open_file :: "string \<Rightarrow> (node_disk, unit) io" where
  "open_file name = (\<lambda>d. (Inr (), case nd_files d name of
       None \<Rightarrow> put_file d name (file_new name) | Some _ \<Rightarrow> d))"

definition list_files :: "(node_disk, string list) io" where
  "list_files = (\<lambda>d. (Inr (sorted_list_of_set (dom (nd_files d))), d))"

definition remove_file :: "string \<Rightarrow> (node_disk, unit) io" where
  "remove_file name = (\<lambda>d. (Inr (), case nd_files d name of
       None \<Rightarrow> d
     | Some f \<Rightarrow> d\<lparr>nd_files := (nd_files d)(name := None), nd_used := nd_used d - length (fs_view f)\<rparr>))"

definition sync_dir :: "(node_disk, unit) io" where
  "sync_dir = io_return ()"

definition write_at :: "nat option \<Rightarrow> string \<Rightarrow> nat \<Rightarrow> bytes \<Rightarrow> (node_disk, unit) io" where
  "write_at quota name off data = (\<lambda>d.
     if \<not> nd_up d then (Inl (Eio ''node down''), d)
     else let growth = off + length data - file_len d name in
       if (case quota of None \<Rightarrow> False | Some limit \<Rightarrow> nd_used d + growth > limit) then (Inl DiskFull, d)
       else let d = d\<lparr>nd_used := nd_used d + growth\<rparr> in
         case nd_files d name of
           None \<Rightarrow> (Inl (Eio ''file closed''), d)
         | Some f \<Rightarrow> (Inr (), put_file d name
             (f\<lparr>fs_view := splice (fs_view f) off data, fs_pending := fs_pending f @ [OpWrite off data]\<rparr>)))"

definition read_at :: "string \<Rightarrow> nat \<Rightarrow> nat \<Rightarrow> (node_disk, bytes) io" where
  "read_at name off len = (\<lambda>d. case nd_files d name of
       None \<Rightarrow> (Inl (Eio ''file gone''), d)
     | Some f \<Rightarrow> (let start = min off (length (fs_view f));
                     fin = min (start + len) (length (fs_view f))
                 in (Inr (take (fin - start) (drop start (fs_view f))), d)))"

definition fsync_begin :: "string \<Rightarrow> (node_disk, nat) io" where
  "fsync_begin name = (\<lambda>d. case nd_files d name of
       None \<Rightarrow> (Inl (Eio ''file gone''), d)
     | Some f \<Rightarrow> (Inr (length (fs_pending f)), d))"

definition fsync_end :: "string \<Rightarrow> nat \<Rightarrow> (node_disk, unit) io" where
  "fsync_end name covered = (\<lambda>d.
     if \<not> nd_up d then (Inl (Eio ''crashed during fsync''), d)
     else case nd_files d name of
       None \<Rightarrow> (Inl (Eio ''file gone''), d)
     | Some f \<Rightarrow> (let k = min covered (length (fs_pending f))
                 in (Inr (), put_file d name
                      (f\<lparr>fs_durable := fold apply_op (take k (fs_pending f)) (fs_durable f),
                         fs_pending := drop k (fs_pending f)\<rparr>))))"

text \<open>
  The delay between the two halves is awaited in the code; other calls of the node can run in
  it, and the tests of the second half are for them. The driver awaits each sync before it
  does anything else, so its composition runs them back to back. A power cut between them finds
  the same disk as one before the sync.
\<close>

definition fsync :: "string \<Rightarrow> (node_disk, unit) io" where
  "fsync name = io_bind (fsync_begin name) (fsync_end name)"

definition truncate_file :: "string \<Rightarrow> nat \<Rightarrow> (node_disk, unit) io" where
  "truncate_file name to = (\<lambda>d. case nd_files d name of
       None \<Rightarrow> (Inl (Eio ''file gone''), d)
     | Some f \<Rightarrow> (let freed = length (fs_view f) - to
                 in (Inr (), (put_file d name
                      (f\<lparr>fs_view := take to (fs_view f), fs_pending := fs_pending f @ [OpTruncate to]\<rparr>))
                      \<lparr>nd_used := nd_used d - freed\<rparr>)))"

subsection \<open>Power loss\<close>

datatype fate = Landed | Lost | Torn nat

definition keep_bytes :: "nat \<Rightarrow> nat \<Rightarrow> nat \<Rightarrow> nat \<Rightarrow> nat" where
  "keep_bytes sector off len keep_sectors =
     (if keep_sectors = 0 then 0
      else min ((off div sector + keep_sectors) * sector - off) len)"

definition op_fate :: "disk_policy \<Rightarrow> pending_op \<Rightarrow> fate rand" where
  "op_fate pol op = (case op of
       OpTruncate _ \<Rightarrow> rand_bind (ppm (dk_lost_write_ppm pol)) (\<lambda>l. rand_return (if l then Lost else Landed))
     | OpWrite off data \<Rightarrow> rand_bind (ppm (dk_lost_write_ppm pol)) (\<lambda>l.
         if l then rand_return Lost
         else rand_bind (ppm (dk_torn_write_ppm pol)) (\<lambda>t.
           if t \<and> length data > 0 then
             let sector = max (dk_sector_size pol) 1;
                 sectors = (off + length data - 1) div sector - off div sector + 1
             in rand_bind (below (word_of_nat sectors)) (\<lambda>k.
                  rand_return (Torn (keep_bytes sector off (length data) (unat k))))
           else rand_return Landed)))"

fun land :: "fate \<Rightarrow> pending_op \<Rightarrow> bytes \<Rightarrow> bytes" where
  "land Landed op buf = apply_op op buf"
| "land (Torn k) (OpWrite off data) buf = (if k > 0 then splice buf off (take k data) else buf)"
| "land _ _ buf = buf"

primrec lose_ops :: "disk_policy \<Rightarrow> pending_op list \<Rightarrow> bytes \<Rightarrow> bytes rand" where
  "lose_ops pol [] buf = rand_return buf"
| "lose_ops pol (op # ops) buf = rand_bind (op_fate pol op) (\<lambda>fate. lose_ops pol ops (land fate op buf))"

definition settle :: "file_state \<Rightarrow> bytes \<Rightarrow> file_state" where
  "settle f buf = f\<lparr>fs_durable := buf, fs_view := buf, fs_pending := []\<rparr>"

definition power_loss_file :: "disk_policy \<Rightarrow> file_state \<Rightarrow> file_state rand" where
  "power_loss_file pol f = rand_bind (lose_ops pol (fs_pending f) (fs_durable f)) (\<lambda>buf. rand_return (settle f buf))"

primrec power_loss_names :: "disk_policy \<Rightarrow> string list \<Rightarrow> node_disk \<Rightarrow> node_disk rand" where
  "power_loss_names pol [] d = rand_return d"
| "power_loss_names pol (name # names) d = (case nd_files d name of
       None \<Rightarrow> power_loss_names pol names d
     | Some f \<Rightarrow> rand_bind (power_loss_file pol f) (\<lambda>f'. power_loss_names pol names (put_file d name f')))"

definition power_loss :: "disk_policy \<Rightarrow> node_disk \<Rightarrow> node_disk rand" where
  "power_loss pol d = power_loss_names pol (sorted_list_of_set (dom (nd_files d))) d"

definition crash_disk :: "disk_policy \<Rightarrow> node_disk \<Rightarrow> node_disk rand" where
  "crash_disk pol d = (if \<not> nd_up d then rand_return d else power_loss pol (d\<lparr>nd_up := False\<rparr>))"

definition boot_disk :: "node_disk \<Rightarrow> node_disk" where
  "boot_disk d = d\<lparr>nd_up := True\<rparr>"

subsection \<open>Splicing\<close>

lemma length_resize_zero [simp]: "length (resize_zero buf n) = max (length buf) n"
  by (simp add: resize_zero_def)

lemma take_resize_zero: "n \<le> length buf \<Longrightarrow> take n (resize_zero buf m) = take n buf"
  by (simp add: resize_zero_def)

lemma length_splice [simp]: "length (splice buf off data) = max (length buf) (off + length data)"
  by (simp add: splice_def Let_def max_def)

lemma splice_end: "splice buf (length buf) data = buf @ data"
  by (simp add: splice_def resize_zero_def Let_def)

lemma take_splice: "n \<le> length buf \<Longrightarrow> n \<le> off \<Longrightarrow> take n (splice buf off data) = take n buf"
  by (simp add: splice_def Let_def take_resize_zero min_def)

lemma splice_full: "length buf \<le> length data \<Longrightarrow> splice buf 0 data = data"
  by (simp add: splice_def resize_zero_def Let_def)

subsection \<open>Everything a power loss may leave\<close>

primrec outcomes :: "pending_op list \<Rightarrow> bytes \<Rightarrow> bytes set" where
  "outcomes [] buf = {buf}"
| "outcomes (op # ops) buf = (\<Union>fate. outcomes ops (land fate op buf))"

definition lands :: "file_state \<Rightarrow> file_state \<Rightarrow> bool" where
  "lands f f' \<longleftrightarrow> (\<exists>buf \<in> outcomes (fs_pending f) (fs_durable f). f' = settle f buf)"

definition disk_lands :: "node_disk \<Rightarrow> node_disk \<Rightarrow> bool" where
  "disk_lands d d' \<longleftrightarrow> nd_used d' = nd_used d \<and> rel_fun (=) (rel_option lands) (nd_files d) (nd_files d')"

lemma rel_option_refl_on: "(\<And>x. o1 = Some x \<Longrightarrow> R x x) \<Longrightarrow> rel_option R o1 o1"
  by (cases o1) simp_all

lemma lose_ops_outcomes: "lose_ops pol ops buf g = Some (buf', g') \<Longrightarrow> buf' \<in> outcomes ops buf"
  by (induction ops arbitrary: buf g) (auto simp: rand_bind_Some)

lemma power_loss_file_lands: "power_loss_file pol f g = Some (f', g') \<Longrightarrow> lands f f'"
  by (auto simp: power_loss_file_def lands_def rand_bind_Some dest: lose_ops_outcomes)

lemma power_loss_names_files:
  assumes "power_loss_names pol names d g = Some (d', g')" and "distinct names"
  shows "nd_used d' = nd_used d \<and> nd_up d' = nd_up d \<and>
    (\<forall>n. if n \<in> set names then rel_option lands (nd_files d n) (nd_files d' n) else nd_files d' n = nd_files d n)"
  using assms
proof (induction names arbitrary: d g)
  case Nil
  then show ?case by simp
next
  case (Cons name names)
  show ?case
  proof (cases "nd_files d name")
    case None
    then show ?thesis using Cons by (auto split: if_splits)
  next
    case (Some f)
    then obtain f' g1 where f': "power_loss_file pol f g = Some (f', g1)"
      and rest: "power_loss_names pol names (put_file d name f') g1 = Some (d', g')"
      using Cons.prems by (auto simp: rand_bind_Some)
    have name: "nd_files d' name = Some f'" using Cons.IH [OF rest] Cons.prems by (simp add: put_file_def)
    show ?thesis using Cons.IH [OF rest] Cons.prems name Some power_loss_file_lands [OF f']
      by (auto simp: put_file_def split: if_splits)
  qed
qed

lemma power_loss_lands:
  assumes "power_loss pol d g = Some (d', g')" and "finite (dom (nd_files d))"
  shows "disk_lands d d' \<and> nd_up d' = nd_up d"
proof -
  have "nd_used d' = nd_used d \<and> nd_up d' = nd_up d \<and>
      (\<forall>n. if n \<in> dom (nd_files d) then rel_option lands (nd_files d n) (nd_files d' n) else nd_files d' n = nd_files d n)"
    using power_loss_names_files [OF assms(1) [unfolded power_loss_def]] assms(2) by simp
  then have "rel_option lands (nd_files d n) (nd_files d' n)" for n
    by (cases "nd_files d n") (auto simp: domIff dest: spec [of _ n] split: if_splits)
  then show ?thesis using \<open>_ \<and> _\<close> by (simp add: disk_lands_def rel_fun_def)
qed

lemma disk_lands_file: "disk_lands d d' \<Longrightarrow> rel_option lands (nd_files d n) (nd_files d' n)"
  by (simp add: disk_lands_def rel_fun_def)

lemma disk_lands_dom: "disk_lands d d' \<Longrightarrow> dom (nd_files d') = dom (nd_files d)"
proof (rule set_eqI)
  fix n assume "disk_lands d d'"
  from disk_lands_file [OF this, of n] show "n \<in> dom (nd_files d') \<longleftrightarrow> n \<in> dom (nd_files d)"
    by (cases "nd_files d n"; cases "nd_files d' n") auto
qed

subsection \<open>The page cache and the durability barrier\<close>

text \<open>The page cache shows the platter with every operation in between applied in order.\<close>

definition file_ok :: "file_state \<Rightarrow> bool" where
  "file_ok f \<longleftrightarrow> fs_view f = fold apply_op (fs_pending f) (fs_durable f)"

text \<open>
  The accounting is exact as long as the disk is only used through its calls; a power cut does
  not adjust it (see the end of this theory).
\<close>

definition disk_ok :: "node_disk \<Rightarrow> bool" where
  "disk_ok d \<longleftrightarrow> finite (dom (nd_files d)) \<and> (\<forall>f \<in> ran (nd_files d). file_ok f) \<and>
     nd_used d = (\<Sum>n \<in> dom (nd_files d). file_len d n)"

lemma file_ok_simps [simp]:
  "file_ok (file_new name)"
  "file_ok (settle f buf)"
  "file_ok f \<Longrightarrow> file_ok (f\<lparr>fs_view := splice (fs_view f) off data, fs_pending := fs_pending f @ [OpWrite off data]\<rparr>)"
  "file_ok f \<Longrightarrow> file_ok (f\<lparr>fs_view := take to (fs_view f), fs_pending := fs_pending f @ [OpTruncate to]\<rparr>)"
  by (simp_all add: file_ok_def file_new_def settle_def)

lemma file_ok_drain:
  "file_ok f \<Longrightarrow> file_ok (f\<lparr>fs_durable := fold apply_op (take k (fs_pending f)) (fs_durable f), fs_pending := drop k (fs_pending f)\<rparr>)"
  unfolding file_ok_def
  by simp (metis append_take_drop_id comp_apply fold_append)

lemma used_update:
  assumes "finite (dom fs)" and "n \<in> dom fs"
  shows "(\<Sum>m \<in> dom fs. if m = n then x else g m) = (\<Sum>m \<in> dom fs. g m) - g n + (x :: nat)"
proof -
  have "(\<Sum>m \<in> dom fs. if m = n then x else g m) = x + (\<Sum>m \<in> dom fs - {n}. if m = n then x else g m)"
    using assms by (subst sum.remove [of _ n]) auto
  also have "(\<Sum>m \<in> dom fs - {n}. if m = n then x else g m) = (\<Sum>m \<in> dom fs - {n}. g m)"
    by (rule sum.cong) auto
  also have "\<dots> = (\<Sum>m \<in> dom fs. g m) - g n" using assms by (simp add: sum_diff1_nat)
  finally show ?thesis by simp
qed

lemma file_len_put: "file_len (put_file d n f) m = (if m = n then length (fs_view f) else file_len d m)"
  by (simp add: file_len_def put_file_def)

lemma file_len_used [simp]: "file_len (d\<lparr>nd_used := u\<rparr>) m = file_len d m"
  by (simp add: file_len_def)

lemma file_len_le_sum:
  assumes "finite (dom (nd_files d))"
  shows "file_len d n \<le> (\<Sum>m \<in> dom (nd_files d). file_len d m)"
proof (cases "n \<in> dom (nd_files d)")
  case True
  then show ?thesis using assms by (simp add: member_le_sum)
qed (simp add: file_len_def domIff)

lemma disk_ok_put:
  assumes "disk_ok d" and "file_ok f" and "n \<in> dom (nd_files d)"
    and "u = nd_used d - file_len d n + length (fs_view f)"
  shows "disk_ok ((put_file d n f)\<lparr>nd_used := u\<rparr>)"
proof -
  have fin: "finite (dom (nd_files d))" using assms(1) by (simp add: disk_ok_def)
  have dom: "dom (nd_files (put_file d n f)) = dom (nd_files d)" using assms(3) by (auto simp: put_file_def)
  have "(\<Sum>m \<in> dom (nd_files d). file_len (put_file d n f) m) = nd_used d - file_len d n + length (fs_view f)"
    using used_update [OF fin assms(3)] assms(1) by (simp add: file_len_put disk_ok_def)
  moreover have "\<forall>f' \<in> ran (nd_files (put_file d n f)). file_ok f'"
    using assms(1,2) by (auto simp: disk_ok_def put_file_def ran_def)
  ultimately show ?thesis using fin dom assms(4) by (simp add: disk_ok_def)
qed

lemma disk_ok_fileD: "disk_ok d \<Longrightarrow> nd_files d n = Some f \<Longrightarrow> file_ok f"
  by (auto simp: disk_ok_def ran_def)

lemma open_file_ok: "disk_ok d \<Longrightarrow> disk_ok (snd (open_file n d))"
proof (cases "nd_files d n")
  case None
  assume ok: "disk_ok d"
  have dom: "dom (nd_files (put_file d n (file_new n))) = insert n (dom (nd_files d))" by (auto simp: put_file_def)
  have "(\<Sum>m \<in> dom (nd_files d). file_len (put_file d n (file_new n)) m) = (\<Sum>m \<in> dom (nd_files d). file_len d m)"
    using None by (intro sum.cong) (auto simp: file_len_put)
  moreover have "n \<notin> dom (nd_files d)" using None by (simp add: domIff)
  ultimately have "(\<Sum>m \<in> insert n (dom (nd_files d)). file_len (put_file d n (file_new n)) m) = nd_used d"
    using ok by (simp add: disk_ok_def file_len_put file_new_def)
  moreover have "nd_used (put_file d n (file_new n)) = nd_used d" by (simp add: put_file_def)
  moreover have "\<forall>f' \<in> ran (nd_files (put_file d n (file_new n))). file_ok f'"
    using ok by (auto simp: disk_ok_def put_file_def ran_def)
  ultimately show ?thesis using ok None dom by (simp add: open_file_def disk_ok_def)
qed (simp add: open_file_def)

lemma remove_file_ok: "disk_ok d \<Longrightarrow> disk_ok (snd (remove_file n d))"
proof (cases "nd_files d n")
  case (Some f)
  assume ok: "disk_ok d"
  let ?fs = "(nd_files d)(n := None)"
  have "(\<Sum>m \<in> dom (nd_files d) - {n}. file_len (d\<lparr>nd_files := ?fs, nd_used := u\<rparr>) m)
      = (\<Sum>m \<in> dom (nd_files d) - {n}. file_len d m)" for u
    by (rule sum.cong) (auto simp: file_len_def)
  also have "\<dots> = nd_used d - length (fs_view f)"
    using ok Some by (simp add: disk_ok_def sum_diff1_nat domIff file_len_def)
  finally show ?thesis using ok Some
    by (auto simp: remove_file_def disk_ok_def ran_def split: if_splits)
qed (simp add: remove_file_def)

lemma write_at_ok:
  assumes "disk_ok d" and "n \<in> dom (nd_files d)"
  shows "disk_ok (snd (write_at quota n off data d))"
proof -
  obtain f where f: "nd_files d n = Some f" using assms(2) by auto
  let ?f = "f\<lparr>fs_view := splice (fs_view f) off data, fs_pending := fs_pending f @ [OpWrite off data]\<rparr>"
  have "file_ok ?f" using disk_ok_fileD [OF assms(1) f] by simp
  moreover have "length (fs_view f) \<le> nd_used d"
    using assms(1) f file_len_le_sum [of d n] by (simp add: disk_ok_def file_len_def)
  moreover have "file_len d n = length (fs_view f)" using f by (simp add: file_len_def)
  ultimately have "disk_ok ((put_file d n ?f)\<lparr>nd_used := nd_used d + (off + length data - file_len d n)\<rparr>)"
    using assms by (intro disk_ok_put) auto
  moreover have "(put_file d n ?f)\<lparr>nd_used := u\<rparr> = put_file (d\<lparr>nd_used := u\<rparr>) n ?f" for u
    by (simp add: put_file_def)
  ultimately show ?thesis using assms(1) f by (simp add: write_at_def Let_def split: option.split)
qed

lemma truncate_file_ok: "disk_ok d \<Longrightarrow> disk_ok (snd (truncate_file n to d))"
proof (cases "nd_files d n")
  case (Some f)
  assume ok: "disk_ok d"
  have "file_ok (f\<lparr>fs_view := take to (fs_view f), fs_pending := fs_pending f @ [OpTruncate to]\<rparr>)"
    using disk_ok_fileD [OF ok Some] by simp
  moreover have "length (fs_view f) \<le> nd_used d"
    using ok Some file_len_le_sum [of d n] by (simp add: disk_ok_def file_len_def)
  moreover have "file_len d n = length (fs_view f)" using Some by (simp add: file_len_def)
  ultimately show ?thesis using ok Some by (auto simp: truncate_file_def Let_def domIff intro!: disk_ok_put)
qed (simp add: truncate_file_def)

lemma fsync_end_ok: "disk_ok d \<Longrightarrow> disk_ok (snd (fsync_end n k d))"
proof (cases "nd_files d n")
  case (Some f)
  assume ok: "disk_ok d"
  let ?k = "min k (length (fs_pending f))"
  let ?f = "f\<lparr>fs_durable := fold apply_op (take ?k (fs_pending f)) (fs_durable f), fs_pending := drop ?k (fs_pending f)\<rparr>"
  have "disk_ok ((put_file d n ?f)\<lparr>nd_used := nd_used d\<rparr>)"
    using ok Some file_ok_drain [OF disk_ok_fileD [OF ok Some]] file_len_le_sum [of d n]
    by (intro disk_ok_put) (auto simp: file_len_def disk_ok_def)
  moreover have "(put_file d n ?f)\<lparr>nd_used := nd_used d\<rparr> = put_file d n ?f" by (simp add: put_file_def)
  ultimately show ?thesis using ok Some by (simp add: fsync_end_def Let_def)
qed (simp add: fsync_end_def)

lemma fsync_ok: "disk_ok d \<Longrightarrow> disk_ok (snd (fsync n d))"
  using fsync_end_ok by (auto simp: fsync_def io_bind_def fsync_begin_def split: option.splits)

text \<open>The part of consistency that a power loss keeps: it says nothing of the space in use.\<close>

definition files_ok :: "node_disk \<Rightarrow> bool" where
  "files_ok d \<longleftrightarrow> finite (dom (nd_files d)) \<and> (\<forall>f \<in> ran (nd_files d). file_ok f)"

lemma files_ok_fileD: "files_ok d \<Longrightarrow> nd_files d n = Some f \<Longrightarrow> file_ok f"
  by (auto simp: files_ok_def ran_def)

lemma files_ok_put: "files_ok d \<Longrightarrow> file_ok f \<Longrightarrow> files_ok (put_file d n f)"
  by (auto simp: files_ok_def put_file_def ran_def)

lemma files_ok_used [simp]: "files_ok (d\<lparr>nd_used := u\<rparr>) \<longleftrightarrow> files_ok d"
  by (simp add: files_ok_def)

lemma open_file_files_ok: "files_ok d \<Longrightarrow> files_ok (snd (open_file n d))"
  by (auto simp: open_file_def intro: files_ok_put split: option.split)

lemma remove_file_files_ok: "files_ok d \<Longrightarrow> files_ok (snd (remove_file n d))"
  by (auto simp: remove_file_def files_ok_def ran_def split: option.split if_splits)

lemma write_at_files_ok: "files_ok d \<Longrightarrow> files_ok (snd (write_at quota n off data d))"
  using files_ok_fileD [of d n] by (auto simp: write_at_def Let_def intro!: files_ok_put split: option.split)

lemma truncate_file_files_ok: "files_ok d \<Longrightarrow> files_ok (snd (truncate_file n to d))"
  using files_ok_fileD [of d n] by (auto simp: truncate_file_def Let_def intro!: files_ok_put split: option.split)

lemma fsync_files_ok: "files_ok d \<Longrightarrow> files_ok (snd (fsync n d))"
  using files_ok_fileD [of d n]
  by (auto simp: fsync_def io_bind_def fsync_begin_def fsync_end_def Let_def file_ok_def intro!: files_ok_put split: option.split)

lemma disk_lands_files_ok:
  assumes "disk_lands d d'" and "finite (dom (nd_files d))"
  shows "files_ok d'"
proof -
  have "file_ok f'" if "nd_files d' n = Some f'" for n f'
    using disk_lands_file [OF assms(1), of n] that by (cases "nd_files d n") (auto simp: lands_def)
  then show ?thesis using assms disk_lands_dom [OF assms(1)] by (auto simp: files_ok_def ran_def)
qed

text \<open>
  A write to a file that has been removed fails, but only after its whole extent has been
  charged to the space in use.
\<close>

lemma write_at_removed:
  assumes "n \<notin> dom (nd_files d)"
  shows "nd_files (snd (write_at quota n off data d)) = nd_files d"
    and "nd_used (snd (write_at quota n off data d)) = nd_used d +
      (if nd_up d \<and> (case quota of None \<Rightarrow> True | Some limit \<Rightarrow> nd_used d + (off + length data) \<le> limit)
       then off + length data else 0)"
  using assms by (auto simp: write_at_def file_len_def domIff Let_def split: option.splits)

text \<open>
  C35: The calls of the simulated disk keep it consistent, whether they succeed or fail: the
  page cache of each file is the platter with the pending operations applied in order, and the
  space in use that the quota is charged against is exactly the sum of the lengths of the
  files. The one exception is a write to a file that has been removed. It changes no file, but
  when the node is up and the quota allows it, the failed call has been charged for the extent
  it would have written, and that is all the accounting is off by.
\<close>

theorem disk_calls_consistent:
  assumes "disk_ok d"
  shows "disk_ok (snd (open_file m d)) \<and> disk_ok (snd (remove_file m d)) \<and>
    disk_ok (snd (truncate_file m to d)) \<and> disk_ok (snd (fsync m d)) \<and>
    (if m \<in> dom (nd_files d) then disk_ok (snd (write_at quota m off data d))
     else nd_files (snd (write_at quota m off data d)) = nd_files d \<and>
       nd_used (snd (write_at quota m off data d)) = nd_used d +
         (if nd_up d \<and> (case quota of None \<Rightarrow> True | Some limit \<Rightarrow> nd_used d + (off + length data) \<le> limit)
          then off + length data else 0))"
  using assms open_file_ok remove_file_ok write_at_ok truncate_file_ok fsync_ok write_at_removed by simp

definition small_disk :: node_disk where
  "small_disk = snd (write_at None ''a'' 2 [7, 8] (snd (open_file ''a'' disk_new)))"

lemma small_disk_eq:
  "small_disk = \<lparr>nd_up = True, nd_files = [''a'' \<mapsto> \<lparr>fs_id = fnv_bytes (name_bytes ''a'') fnv_new,
     fs_durable = [], fs_view = [0, 0, 7, 8], fs_pending = [OpWrite 2 [7, 8]]\<rparr>], nd_used = 4\<rparr>"
  by (simp add: small_disk_def open_file_def disk_new_def put_file_def file_new_def write_at_def file_len_def
      splice_def resize_zero_def numeral_eq_Suc)

lemma small_disk_ok: "disk_ok small_disk"
  unfolding small_disk_def by (intro write_at_ok open_file_ok) (auto simp: disk_ok_def disk_new_def open_file_def put_file_def)

theorem disk_calls_consistent_witness:
  "disk_ok (snd (truncate_file ''a'' 1 small_disk)) \<and> nd_used (snd (truncate_file ''a'' 1 small_disk)) = 1 \<and>
   nd_used (snd (write_at None ''b'' 3 [1] small_disk)) = 8"
proof (intro conjI)
  show "disk_ok (snd (truncate_file ''a'' 1 small_disk))" using disk_calls_consistent [OF small_disk_ok] by blast
  show "nd_used (snd (write_at None ''b'' 3 [1] small_disk)) = 8"
    using disk_calls_consistent [OF small_disk_ok, of "''b''" 0 None 3 "[1]"] by (simp add: small_disk_eq)
qed (simp add: small_disk_eq truncate_file_def put_file_def)

lemma fsync_durable:
  assumes "file_ok f" and "nd_files d n = Some f" and "nd_up d"
  shows "fsync n d = (Inr (), put_file d n (f\<lparr>fs_durable := fs_view f, fs_pending := []\<rparr>))"
  using assms by (simp add: fsync_def io_bind_def fsync_begin_def fsync_end_def Let_def file_ok_def)

lemma lands_settled:
  assumes "lands f f'" and "fs_pending f = []"
  shows "fs_view f' = fs_durable f" and "fs_durable f' = fs_durable f" and "fs_pending f' = []"
  using assms by (auto simp: lands_def settle_def)

text \<open>
  C34: An fsync is a durability barrier. Once it returns, every write and truncation that had
  been accepted on the file survives a crash at that point, for every policy and every seed:
  the file then reads exactly as it did before, and so does every other synced file.
\<close>

theorem fsync_barrier:
  assumes "disk_ok d" and "nd_up d" and "nd_files d n = Some f"
    and "fsync n d = (res, d')" and "crash_disk pol d' g = Some (d'', g')"
  shows "res = Inr () \<and> (\<exists>f''. nd_files d'' n = Some f'' \<and> fs_view f'' = fs_view f \<and> fs_pending f'' = [])"
proof -
  let ?f = "f\<lparr>fs_durable := fs_view f, fs_pending := []\<rparr>"
  have res: "res = Inr ()" and d': "d' = put_file d n ?f"
    using assms(4) fsync_durable [OF disk_ok_fileD [OF assms(1,3)] assms(3,2)] by simp_all
  have "finite (dom (nd_files d'))" using assms(1) d' by (simp add: disk_ok_def put_file_def)
  moreover have "power_loss pol (d'\<lparr>nd_up := False\<rparr>) g = Some (d'', g')"
    using assms(5) d' assms(2) by (simp add: crash_disk_def put_file_def)
  ultimately have "disk_lands (d'\<lparr>nd_up := False\<rparr>) d''" using power_loss_lands by fastforce
  then have "rel_option lands (Some ?f) (nd_files d'' n)"
    using disk_lands_file [of "d'\<lparr>nd_up := False\<rparr>" d'' n] d' by (simp add: put_file_def)
  then show ?thesis using res lands_settled [of ?f] by (cases "nd_files d'' n") auto
qed

lemma power_loss_names_settled:
  assumes "\<forall>f \<in> ran (nd_files d). fs_pending f = [] \<and> fs_view f = fs_durable f"
  shows "power_loss_names pol names d g = Some (d, g)"
  using assms
proof (induction names)
  case (Cons n names)
  show ?case
  proof (cases "nd_files d n")
    case (Some f)
    then have "settle f (fs_durable f) = f" and "fs_pending f = []"
      using Cons.prems by (auto simp: settle_def ranI)
    moreover have "put_file d n f = d" using Some by (simp add: put_file_def map_upd_triv)
    ultimately show ?thesis using Some Cons by (simp add: rand_bind_def power_loss_file_def rand_return_def)
  qed (use Cons in simp)
qed (simp add: rand_return_def)

theorem fsync_barrier_witness:
  "\<exists>f''. nd_files (fst (the (crash_disk default_disk (snd (fsync ''a'' small_disk)) (from_seed 1)))) ''a'' = Some f''
     \<and> fs_view f'' = [0, 0, 7, 8]"
proof -
  let ?f = "\<lparr>fs_id = fnv_bytes (name_bytes ''a'') fnv_new, fs_durable = [], fs_view = [0, 0, 7, 8], fs_pending = [OpWrite 2 [7, 8]]\<rparr>"
  let ?d = "put_file small_disk ''a'' (?f\<lparr>fs_durable := [0, 0, 7, 8], fs_pending := []\<rparr>)"
  have f: "nd_files small_disk ''a'' = Some ?f" and up: "nd_up small_disk" by (simp_all add: small_disk_eq)
  have sync: "fsync ''a'' small_disk = (Inr (), ?d)"
    using fsync_durable [OF disk_ok_fileD [OF small_disk_ok f] f up] by simp
  have crash: "crash_disk default_disk ?d (from_seed 1) = Some (?d\<lparr>nd_up := False\<rparr>, from_seed 1)"
    using power_loss_names_settled [of "?d\<lparr>nd_up := False\<rparr>" default_disk "[''a'']" "from_seed 1"]
    by (simp add: crash_disk_def power_loss_def small_disk_eq put_file_def ran_def)
  have "fst (the (crash_disk default_disk (snd (fsync ''a'' small_disk)) (from_seed 1))) = ?d\<lparr>nd_up := False\<rparr>"
    by (simp only: sync crash snd_conv option.sel fst_conv)
  then show ?thesis using fsync_barrier [OF small_disk_ok up f sync crash] by auto
qed

text \<open>
  The accounting is lost in a power loss: the files shrink, the space in use does not. On a disk
  that loses every unsynced write, four bytes written and lost stay charged to a file that is
  now empty, and a node at its quota then reports a full disk although no file holds a byte.
\<close>

lemma power_loss_leaks_space:
  fixes g :: xoshiro
  defines "pol \<equiv> default_disk\<lparr>dk_lost_write_ppm := 1000000\<rparr>"
  shows "\<exists>d. crash_disk pol small_disk g = Some (d, g) \<and> file_len d ''a'' = 0 \<and> nd_used d = 4 \<and>
    \<not> disk_ok d \<and> fst (write_at (Some 4) ''a'' 0 [1] (boot_disk d)) = Inl DiskFull"
proof -
  let ?f = "\<lparr>fs_id = fnv_bytes (name_bytes ''a'') fnv_new, fs_durable = [], fs_view = [], fs_pending = []\<rparr>"
  let ?d = "\<lparr>nd_up = False, nd_files = [''a'' \<mapsto> ?f], nd_used = 4\<rparr>"
  have "crash_disk pol small_disk g = Some (?d, g)"
    by (simp add: crash_disk_def small_disk_eq power_loss_def power_loss_file_def rand_bind_def op_fate_def
        pol_def ppm_certain rand_return_def settle_def put_file_def)
  moreover have "file_len ?d ''a'' = 0" and "\<not> disk_ok ?d" by (simp_all add: file_len_def disk_ok_def)
  moreover have "fst (write_at (Some 4) ''a'' 0 [1] (boot_disk ?d)) = Inl DiskFull"
    by (simp add: write_at_def boot_disk_def file_len_def)
  ultimately show ?thesis by auto
qed

text \<open>A crash never removes a file, created with or without a directory sync.\<close>

lemma power_loss_keeps_files:
  assumes "crash_disk pol d g = Some (d', g')" and "finite (dom (nd_files d))"
  shows "dom (nd_files d') = dom (nd_files d)"
proof (cases "nd_up d")
  case True
  then have "disk_lands (d\<lparr>nd_up := False\<rparr>) d'"
    using assms power_loss_lands [of pol "d\<lparr>nd_up := False\<rparr>" g d' g'] by (simp add: crash_disk_def)
  then show ?thesis using disk_lands_dom by fastforce
qed (use assms in \<open>simp add: crash_disk_def\<close>)

end
