(* ===== verification/Wal.thy ===== *)
theory Wal
  imports Crc32c Sim_Disk "HOL-Library.Product_Lexorder"
begin

section \<open>The write-ahead log\<close>

text \<open>
  The file \<open>wal.rs\<close> over the simulated disk: segment files of checksummed records, the
  double-buffered hard state, the alternating snapshot slots, and recovery.

  The state of an operation is the log in memory together with the disk of the node; \<open>quota\<close> is
  the disk quota of the fault policy. A segment refers to its file by name. The loop over a
  segment's records is a function on the rest of the buffer, the loop over the segments at
  recovery a recursion over the sorted names. Sizes and offsets are natural numbers.
\<close>

definition HEADER :: nat where "HEADER = 8"
definition MAX_RECORD :: u32 where "MAX_RECORD = 32 * 1024 * 1024"
definition STATE_SLOT :: nat where "STATE_SLOT = 4096"

record wal_options =
  wo_segment_bytes :: nat
  wo_compact_slack_bytes :: nat

definition default_wal_options :: wal_options where
  "default_wal_options = \<lparr>wo_segment_bytes = 1048576, wo_compact_slack_bytes = 262144\<rparr>"

datatype tail_reason =
    Clean
  | ShortHeader
  | ShortBody
  | BadRecordChecksum
  | Undecodable
  | IndexGap index index
  | BadRecordLength

record segment =
  sg_name :: string
  sg_first :: index
  sg_last :: index
  sg_size :: nat
  sg_offsets :: "nat list"
  sg_dirty :: bool

definition seg_is_empty :: "segment \<Rightarrow> bool" where
  "seg_is_empty s \<longleftrightarrow> sg_last s < sg_first s"

subsection \<open>File names\<close>

definition digit :: "nat \<Rightarrow> char" where
  "digit n = char_of (48 + n)"

fun decimal :: "nat \<Rightarrow> string" where
  "decimal n = (if n < 10 then [digit n] else decimal (n div 10) @ [digit (n mod 10)])"

declare decimal.simps [simp del]

definition pad_zero :: "nat \<Rightarrow> string \<Rightarrow> string" where
  "pad_zero n s = replicate (n - length s) (digit 0) @ s"

definition name_for :: "index \<Rightarrow> string" where
  "name_for first = ''wal-'' @ pad_zero 20 (decimal (unat first)) @ ''.seg''"

definition strip_prefix :: "string \<Rightarrow> string \<Rightarrow> string option" where
  "strip_prefix p s = (if take (length p) s = p then Some (drop (length p) s) else None)"

definition strip_suffix :: "string \<Rightarrow> string \<Rightarrow> string option" where
  "strip_suffix p s = (if length p \<le> length s \<and> drop (length s - length p) s = p
     then Some (take (length s - length p) s) else None)"

definition digit_value :: "char \<Rightarrow> nat option" where
  "digit_value c = (if 48 \<le> (of_char c :: nat) \<and> (of_char c :: nat) \<le> 57 then Some (of_char c - 48) else None)"

text \<open>Parsing a \<open>u64\<close>: an optional plus sign, then at least one digit, without overflow.\<close>

fun parse_digits :: "nat \<Rightarrow> string \<Rightarrow> nat option" where
  "parse_digits acc [] = Some acc"
| "parse_digits acc (c # cs) = (case digit_value c of
     None \<Rightarrow> None
   | Some v \<Rightarrow> if acc * 10 + v < 2 ^ 64 then parse_digits (acc * 10 + v) cs else None)"

definition parse_u64 :: "string \<Rightarrow> u64 option" where
  "parse_u64 s =
     (let s = (if length s > 1 \<and> hd s = CHR ''+'' then tl s else s)
      in if s = [] then None else map_option word_of_nat (parse_digits 0 s))"

definition index_from_name :: "string \<Rightarrow> index option" where
  "index_from_name name =
     Option.bind (strip_prefix ''wal-'' name) (\<lambda>s. Option.bind (strip_suffix ''.seg'' s) parse_u64)"

definition snapshot_name :: "nat \<Rightarrow> string" where
  "snapshot_name slot = ''snapshot.'' @ decimal slot"

subsection \<open>Records\<close>

definition wal_frame :: "bytes \<Rightarrow> bytes" where
  "wal_frame body = le_bytes 4 (word_of_nat (length body) :: u32) @ le_bytes 4 (crc32c body) @ body"

definition header_len :: "bytes \<Rightarrow> u32" where
  "header_len buf = from_le_bytes (take 4 buf)"

definition header_crc :: "bytes \<Rightarrow> u32" where
  "header_crc buf = from_le_bytes (take 4 (drop 4 buf))"

function scan_records :: "bytes \<Rightarrow> index \<Rightarrow> entry list \<times> tail_reason \<times> nat" where
  "scan_records buf expected =
     (if buf = [] then ([], Clean, 0)
      else if length buf < HEADER then ([], ShortHeader, 0)
      else let len = header_len buf; crc = header_crc buf in
        if len = 0 \<or> len > MAX_RECORD then ([], BadRecordLength, 0)
        else if HEADER + unat len > length buf then ([], ShortBody, 0)
        else let body = take (unat len) (drop HEADER buf) in
          if crc32c body \<noteq> crc then ([], BadRecordChecksum, 0)
          else case entry_decode (r_new body) of
            Inl _ \<Rightarrow> ([], Undecodable, 0)
          | Inr (e, _) \<Rightarrow>
              if e_index e \<noteq> expected then ([], IndexGap expected (e_index e), 0)
              else let (es, reason, n) = scan_records (drop (HEADER + unat len) buf) (e_index e + 1)
                   in (e # es, reason, HEADER + unat len + n))"
  by pat_completeness auto

termination
  by (relation "measure (\<lambda>(buf, _). length buf)") (auto simp: HEADER_def)

declare scan_records.simps [simp del]

definition scan_segment :: "string \<Rightarrow> index \<Rightarrow> index option \<Rightarrow> node_disk \<Rightarrow> entry list \<times> tail_reason \<times> nat" where
  "scan_segment name first prev d = (case read_at name 0 (file_len d name) d of
       (Inl _, _) \<Rightarrow> ([], ShortHeader, 0)
     | (Inr buf, _) \<Rightarrow> scan_records buf (case prev of Some i \<Rightarrow> i + 1 | None \<Rightarrow> first))"

definition state_decode :: "(u64 \<times> hard_state) decoder" where
  "state_decode = r_bind r_u64 (\<lambda>sq. r_bind r_u64 (\<lambda>t. r_bind r_u64 (\<lambda>c. r_bind (r_opt r_u32) (\<lambda>v.
     r_return (sq, \<lparr>hs_term = t, hs_vote = v, hs_commit = c\<rparr>)))))"

definition state_encode :: "u64 \<Rightarrow> hard_state \<Rightarrow> bytes" where
  "state_encode sq hs = w_opt w_u32 (hs_vote hs) (w_u64 (hs_commit hs) (w_u64 (hs_term hs) (w_u64 sq w_new)))"

definition read_state_slot :: "node_disk \<Rightarrow> nat \<Rightarrow> (u64 \<times> hard_state) option" where
  "read_state_slot d slot =
     (let at = slot * STATE_SLOT in
      case fst (read_at ''state'' at HEADER d) of
        Inl _ \<Rightarrow> None
      | Inr header \<Rightarrow>
          if length header < HEADER then None
          else let len = header_len header; crc = header_crc header in
            if len = 0 \<or> len > 256 then None
            else case fst (read_at ''state'' (at + HEADER) (unat len) d) of
                Inl _ \<Rightarrow> None
              | Inr body \<Rightarrow>
                  if length body \<noteq> unat len \<or> crc32c body \<noteq> crc then None
                  else case state_decode (r_new body) of Inl _ \<Rightarrow> None | Inr (x, _) \<Rightarrow> Some x)"

definition better_state :: "(u64 \<times> hard_state) option \<Rightarrow> hard_state \<times> u64 \<Rightarrow> hard_state \<times> u64" where
  "better_state slot best = (case slot of
       None \<Rightarrow> best
     | Some (sq, hs) \<Rightarrow> if sq \<ge> snd best then (hs, sq) else best)"

definition read_hard_state :: "node_disk \<Rightarrow> hard_state \<times> u64" where
  "read_hard_state d = fold (\<lambda>slot. better_state (read_state_slot d slot)) [0, 1] (default_hard_state, 0)"

definition snapshot_body_decode :: "(u64 \<times> snapshot) decoder" where
  "snapshot_body_decode = r_bind r_u64 (\<lambda>sq. r_bind snapshot_decode (\<lambda>sn. r_return (sq, sn)))"

definition parse_snapshot :: "bytes \<Rightarrow> (u64 \<times> snapshot) option" where
  "parse_snapshot buf =
     (if length buf < HEADER then None
      else let len = header_len buf; crc = header_crc buf in
        if len = 0 \<or> len > MAX_RECORD \<or> HEADER + unat len > length buf then None
        else let body = take (unat len) (drop HEADER buf) in
          if crc32c body \<noteq> crc then None
          else case snapshot_body_decode (r_new body) of Inl _ \<Rightarrow> None | Inr (x, _) \<Rightarrow> Some x)"

definition read_snapshot :: "node_disk \<Rightarrow> string \<Rightarrow> (u64 \<times> snapshot) option" where
  "read_snapshot d name =
     (if file_len d name < HEADER then None
      else case fst (read_at name 0 (file_len d name) d) of
             Inl _ \<Rightarrow> None
           | Inr buf \<Rightarrow> parse_snapshot buf)"

subsection \<open>The log\<close>

record wal_stats =
  ws_appends :: u64
  ws_entries_written :: u64
  ws_bytes_written :: u64
  ws_fsyncs :: u64
  ws_truncations :: u64
  ws_rollovers :: u64
  ws_segments_deleted :: u64
  ws_snapshots_written :: u64

definition default_wal_stats :: wal_stats where
  "default_wal_stats = \<lparr>ws_appends = 0, ws_entries_written = 0, ws_bytes_written = 0, ws_fsyncs = 0,
     ws_truncations = 0, ws_rollovers = 0, ws_segments_deleted = 0, ws_snapshots_written = 0\<rparr>"

record wal =
  w_opts :: wal_options
  w_segments :: "segment list"
  w_state_seq :: u64
  w_snapshot_slot :: nat
  w_snapshot_seq :: u64
  w_stats :: wal_stats

type_synonym wal_disk = "wal \<times> node_disk"

definition on_disk :: "(node_disk, 'a) io \<Rightarrow> (wal_disk, 'a) io" where
  "on_disk m = (\<lambda>(w, d). case m d of (r, d') \<Rightarrow> (r, (w, d')))"

definition on_wal :: "(wal \<Rightarrow> wal) \<Rightarrow> (wal_disk, unit) io" where
  "on_wal f = (\<lambda>(w, d). (Inr (), (f w, d)))"

definition io_ignore :: "('s, 'a) io \<Rightarrow> ('s, unit) io" where
  "io_ignore m = (\<lambda>s. (Inr (), snd (m s)))"

definition wal_first_index :: "wal \<Rightarrow> index" where
  "wal_first_index w = (case w_segments w of [] \<Rightarrow> 1 | s # _ \<Rightarrow> sg_first s)"

definition wal_last_index :: "wal \<Rightarrow> index" where
  "wal_last_index w = (if w_segments w = [] then sat_sub (wal_first_index w) 1 else sg_last (last (w_segments w)))"

definition total_bytes :: "wal \<Rightarrow> nat" where
  "total_bytes w = sum_list (map sg_size (w_segments w))"

definition segment_count :: "wal \<Rightarrow> nat" where
  "segment_count w = length (w_segments w)"

definition segment_new :: "index \<Rightarrow> segment" where
  "segment_new first = \<lparr>sg_name = name_for first, sg_first = first, sg_last = sat_sub first 1, sg_size = 0,
     sg_offsets = [], sg_dirty = False\<rparr>"

definition open_segment :: "index \<Rightarrow> (wal_disk, unit) io" where
  "open_segment first =
     io_bind (on_disk (open_file (name_for first))) (\<lambda>_.
     io_bind (io_ignore (on_disk (truncate_file (name_for first) 0))) (\<lambda>_.
     io_bind (on_wal (\<lambda>w. w\<lparr>w_segments := w_segments w @ [segment_new first]\<rparr>)) (\<lambda>_.
     on_disk sync_dir)))"

definition update_last :: "(segment \<Rightarrow> segment) \<Rightarrow> wal \<Rightarrow> wal" where
  "update_last f w = w\<lparr>w_segments := butlast (w_segments w) @ [f (last (w_segments w))]\<rparr>"

definition bump_stats :: "(wal_stats \<Rightarrow> wal_stats) \<Rightarrow> (wal_disk, unit) io" where
  "bump_stats f = on_wal (\<lambda>w. w\<lparr>w_stats := f (w_stats w)\<rparr>)"

text \<open>Writing one record at the end of the active segment. The log always has one.\<close>

definition write_record :: "nat option \<Rightarrow> entry \<Rightarrow> (wal_disk, unit) io" where
  "write_record quota e = (\<lambda>(w, d).
     let rec = wal_frame (entry_to_bytes e);
         at = sg_size (last (w_segments w));
         name = sg_name (last (w_segments w))
     in io_bind (on_wal (update_last (\<lambda>s. s\<lparr>sg_dirty := True\<rparr>))) (\<lambda>_.
        io_bind (on_disk (write_at quota name at rec)) (\<lambda>_.
        io_bind (on_wal (update_last (\<lambda>s. s\<lparr>sg_last := e_index e, sg_size := sg_size s + length rec,
                                            sg_offsets := sg_offsets s @ [at]\<rparr>))) (\<lambda>_.
        bump_stats (\<lambda>t. t\<lparr>ws_entries_written := ws_entries_written t + 1,
                          ws_bytes_written := ws_bytes_written t + word_of_nat (length rec)\<rparr>)))) (w, d))"

definition append_one :: "nat option \<Rightarrow> entry \<Rightarrow> (wal_disk, unit) io" where
  "append_one quota e = (\<lambda>(w, d).
     let expected = wal_last_index w + 1 in
     if e_index e \<noteq> expected then (Inl (NotContiguous (e_index e) expected), (w, d))
     else if (if w_segments w = [] then 0 else sg_size (last (w_segments w))) \<ge> wo_segment_bytes (w_opts w)
     then io_bind (bump_stats (\<lambda>t. t\<lparr>ws_rollovers := ws_rollovers t + 1\<rparr>)) (\<lambda>_.
          io_bind (open_segment (e_index e)) (\<lambda>_. write_record quota e)) (w, d)
     else write_record quota e (w, d))"

primrec append_entries :: "nat option \<Rightarrow> entry list \<Rightarrow> (wal_disk, unit) io" where
  "append_entries quota [] = io_return ()"
| "append_entries quota (e # es) = io_bind (append_one quota e) (\<lambda>_. append_entries quota es)"

definition append_inner :: "nat option \<Rightarrow> entry list \<Rightarrow> (wal_disk, unit) io" where
  "append_inner quota es =
     io_bind (bump_stats (\<lambda>t. t\<lparr>ws_appends := ws_appends t + 1\<rparr>)) (\<lambda>_. append_entries quota es)"

primrec remove_segments :: "segment list \<Rightarrow> (wal_disk, unit) io" where
  "remove_segments [] = io_return ()"
| "remove_segments (s # ss) =
     io_bind (on_disk (remove_file (sg_name s))) (\<lambda>_.
     io_bind (bump_stats (\<lambda>t. t\<lparr>ws_segments_deleted := ws_segments_deleted t + 1\<rparr>)) (\<lambda>_. remove_segments ss))"

definition reset_to :: "index \<Rightarrow> (wal_disk, unit) io" where
  "reset_to idx = (\<lambda>(w, d).
     io_bind (remove_segments (w_segments w)) (\<lambda>_. open_segment (idx + 1)) (w\<lparr>w_segments := []\<rparr>, d))"

fun pop_segments :: "index \<Rightarrow> segment list \<Rightarrow> (wal_disk, unit) io" where
  "pop_segments from (s # s' # ss) =
     (if sg_first s \<ge> from
      then io_bind (on_wal (\<lambda>w. w\<lparr>w_segments := butlast (w_segments w)\<rparr>)) (\<lambda>_.
           io_bind (on_disk (remove_file (sg_name s))) (\<lambda>_.
           io_bind (bump_stats (\<lambda>t. t\<lparr>ws_segments_deleted := ws_segments_deleted t + 1\<rparr>)) (\<lambda>_.
           pop_segments from (s' # ss))))
      else io_return ())"
| "pop_segments from _ = io_return ()"

definition cut_segment :: "index \<Rightarrow> (wal_disk, unit) io" where
  "cut_segment from = (\<lambda>(w, d).
     if w_segments w \<noteq> [] \<and> from \<le> sg_last (last (w_segments w)) then
       let s = last (w_segments w);
           keep = unat (sat_sub from (sg_first s));
           cut = (if keep < length (sg_offsets s) then sg_offsets s ! keep else sg_size s)
       in io_bind (on_disk (truncate_file (sg_name s) cut)) (\<lambda>_.
          io_bind (on_wal (update_last (\<lambda>s. s\<lparr>
            sg_last := (if keep = 0 then sat_sub (sg_first s) 1 else sg_first s + word_of_nat keep - 1),
            sg_size := cut, sg_offsets := take keep (sg_offsets s)\<rparr>))) (\<lambda>_.
          io_bind (on_disk (fsync (sg_name s))) (\<lambda>_.
          io_bind (on_wal (update_last (\<lambda>s. s\<lparr>sg_dirty := False\<rparr>))) (\<lambda>_.
          bump_stats (\<lambda>t. t\<lparr>ws_fsyncs := ws_fsyncs t + 1\<rparr>))))) (w, d)
     else (Inr (), (w, d)))"

definition wal_truncate_from :: "index \<Rightarrow> (wal_disk, unit) io" where
  "wal_truncate_from from = (\<lambda>(w, d).
     if from > wal_last_index w then (Inr (), (w, d))
     else if from \<le> wal_first_index w then reset_to (sat_sub from 1) (w, d)
     else io_bind (bump_stats (\<lambda>t. t\<lparr>ws_truncations := ws_truncations t + 1\<rparr>)) (\<lambda>_.
          io_bind (pop_segments from (rev (w_segments w))) (\<lambda>_. cut_segment from)) (w, d))"

definition wal_append :: "nat option \<Rightarrow> entry list \<Rightarrow> (wal_disk, unit) io" where
  "wal_append quota es = (\<lambda>(w, d).
     if es = [] then (Inr (), (w, d))
     else let rollback_to = wal_last_index w in
       case append_inner quota es (w, d) of
         (Inr _, s) \<Rightarrow> (Inr (), s)
       | (Inl err, s) \<Rightarrow> (Inl err, snd (wal_truncate_from (rollback_to + 1) s)))"

text \<open>The barrier: every segment written since the last one, in order.\<close>

primrec sync_segments :: "nat \<Rightarrow> bool \<Rightarrow> (wal_disk, bool) io" where
  "sync_segments 0 synced = io_return synced"
| "sync_segments (Suc k) synced = (\<lambda>(w, d).
     let i = length (w_segments w) - Suc k; s = w_segments w ! i in
     if sg_dirty s
     then io_bind (on_disk (fsync (sg_name s))) (\<lambda>_.
          io_bind (on_wal (\<lambda>w. w\<lparr>w_segments := (w_segments w)[i := s\<lparr>sg_dirty := False\<rparr>]\<rparr>)) (\<lambda>_.
          sync_segments k True)) (w, d)
     else sync_segments k synced (w, d))"

definition wal_sync :: "(wal_disk, unit) io" where
  "wal_sync = (\<lambda>(w, d). io_bind (sync_segments (length (w_segments w)) False) (\<lambda>synced.
     if synced then bump_stats (\<lambda>t. t\<lparr>ws_fsyncs := ws_fsyncs t + 1\<rparr>) else io_return ()) (w, d))"

definition save_hard_state :: "nat option \<Rightarrow> hard_state \<Rightarrow> (wal_disk, unit) io" where
  "save_hard_state quota hs =
     io_bind (on_wal (\<lambda>w. w\<lparr>w_state_seq := w_state_seq w + 1\<rparr>)) (\<lambda>_. \<lambda>(w, d).
       let slot = unat (w_state_seq w mod 2) * STATE_SLOT in
       io_bind (on_disk (write_at quota ''state'' slot (wal_frame (state_encode (w_state_seq w) hs)))) (\<lambda>_.
       io_bind (on_disk (fsync ''state'')) (\<lambda>_.
       bump_stats (\<lambda>t. t\<lparr>ws_fsyncs := ws_fsyncs t + 1\<rparr>))) (w, d))"

definition save_snapshot :: "nat option \<Rightarrow> snapshot \<Rightarrow> (wal_disk, unit) io" where
  "save_snapshot quota snap =
     io_bind (on_wal (\<lambda>w. w\<lparr>w_snapshot_seq := w_snapshot_seq w + 1\<rparr>)) (\<lambda>_. \<lambda>(w, d).
       let name = snapshot_name (w_snapshot_slot w);
           body = snapshot_encode snap (w_u64 (w_snapshot_seq w) w_new)
       in io_bind (on_disk (open_file name)) (\<lambda>_.
          io_bind (on_disk (truncate_file name 0)) (\<lambda>_.
          io_bind (on_disk (write_at quota name 0 (wal_frame body))) (\<lambda>_.
          io_bind (on_disk (fsync name)) (\<lambda>_.
          io_bind (on_disk sync_dir) (\<lambda>_.
          io_bind (on_wal (\<lambda>w. w\<lparr>w_snapshot_slot := 1 - w_snapshot_slot w\<rparr>)) (\<lambda>_.
          bump_stats (\<lambda>t. t\<lparr>ws_snapshots_written := ws_snapshots_written t + 1, ws_fsyncs := ws_fsyncs t + 1\<rparr>))))))) (w, d))"

text \<open>How many whole segments a compaction drops.\<close>

fun compact_keep :: "wal_options \<Rightarrow> nat \<Rightarrow> index \<Rightarrow> nat \<Rightarrow> segment list \<Rightarrow> nat" where
  "compact_keep opts tot through freed (s # s' # ss) =
     (if sg_last s < through \<and> \<not> tot - freed - sg_size s < wo_compact_slack_bytes opts
      then Suc (compact_keep opts tot through (freed + sg_size s) (s' # ss))
      else 0)"
| "compact_keep opts tot through freed _ = 0"

definition wal_compact_through :: "index \<Rightarrow> (wal_disk, unit) io" where
  "wal_compact_through through = (\<lambda>(w, d).
     let k = compact_keep (w_opts w) (total_bytes w) through 0 (w_segments w) in
     io_bind (remove_segments (take k (w_segments w))) (\<lambda>_.
       if k > 0 then on_disk sync_dir else io_return ()) (w\<lparr>w_segments := drop k (w_segments w)\<rparr>, d))"

definition wal_read :: "index \<Rightarrow> (wal_disk, entry option) io" where
  "wal_read idx = (\<lambda>(w, d).
     case find (\<lambda>s. \<not> seg_is_empty s \<and> idx \<ge> sg_first s \<and> idx \<le> sg_last s) (w_segments w) of
       None \<Rightarrow> (Inr None, (w, d))
     | Some s \<Rightarrow>
         let slot = unat (idx - sg_first s) in
         if slot \<ge> length (sg_offsets s) then (Inr None, (w, d))
         else let at = sg_offsets s ! slot in
           case read_at (sg_name s) at HEADER d of
             (Inl e, _) \<Rightarrow> (Inl e, (w, d))
           | (Inr header, _) \<Rightarrow>
               if length header < HEADER then (Inr None, (w, d))
               else let len = header_len header in
                 if len = 0 \<or> len > MAX_RECORD then (Inr None, (w, d))
                 else case read_at (sg_name s) (at + HEADER) (unat len) d of
                     (Inl e, _) \<Rightarrow> (Inl e, (w, d))
                   | (Inr body, _) \<Rightarrow>
                       if length body \<noteq> unat len \<or> crc32c body \<noteq> header_crc header then (Inr None, (w, d))
                       else (Inr (case entry_decode (r_new body) of Inl _ \<Rightarrow> None | Inr (e, _) \<Rightarrow> Some e), (w, d)))"

subsection \<open>Recovery\<close>

record recovery =
  ry_segments :: "segment list"
  ry_entries :: "entry list"
  ry_tail :: tail_reason
  ry_truncated :: u64

record recovered =
  rc_wal :: wal
  rc_hard_state :: hard_state
  rc_snapshot :: "snapshot option"
  rc_entries :: "entry list"
  rc_tail :: tail_reason
  rc_truncated :: u64

primrec running_offsets :: "nat \<Rightarrow> entry list \<Rightarrow> nat list" where
  "running_offsets n [] = []"
| "running_offsets n (e # es) = n # running_offsets (n + HEADER + length (entry_to_bytes e)) es"

definition recover_segment :: "index \<times> string \<Rightarrow> recovery \<Rightarrow> (node_disk, recovery) io" where
  "recover_segment = (\<lambda>(first, name) ry.
     io_bind (open_file name) (\<lambda>_. \<lambda>d.
       if ry_tail ry \<noteq> Clean then (Inr ry, snd (remove_file name d))
       else let expected = (if ry_entries ry = [] then first else e_index (last (ry_entries ry)) + 1) in
         if first \<noteq> expected \<and> ry_entries ry \<noteq> []
         then (Inr (ry\<lparr>ry_tail := IndexGap expected first\<rparr>), snd (remove_file name d))
         else let (es, tail, valid) = scan_segment name first
                    (if ry_entries ry = [] then None else Some (e_index (last (ry_entries ry)))) d;
                  seg = \<lparr>sg_name = name, sg_first = first,
                         sg_last = (if es = [] then sat_sub first 1 else e_index (last es)),
                         sg_size = valid, sg_offsets = running_offsets 0 es, sg_dirty = False\<rparr>;
                  ry' = ry\<lparr>ry_segments := ry_segments ry @ [seg], ry_entries := ry_entries ry @ es,
                           ry_tail := tail, ry_truncated := ry_truncated ry + (if tail = Clean then 0 else 1)\<rparr>
              in if tail = Clean then (Inr ry', d)
                 else (Inr ry', snd (fsync name (snd (truncate_file name valid d))))))"

primrec recover_segments :: "(index \<times> string) list \<Rightarrow> recovery \<Rightarrow> (node_disk, recovery) io" where
  "recover_segments [] ry = io_return ry"
| "recover_segments (x # xs) ry = io_bind (recover_segment x ry) (recover_segments xs)"

definition better_snapshot :: "nat \<Rightarrow> (u64 \<times> snapshot) option \<Rightarrow> snapshot option \<times> u64 \<times> nat \<Rightarrow> snapshot option \<times> u64 \<times> nat" where
  "better_snapshot slot r best = (case r of
       None \<Rightarrow> best
     | Some (sq, sn) \<Rightarrow> if sq \<ge> fst (snd best) then (Some sn, sq, 1 - slot) else best)"

definition recover_snapshot :: "(node_disk, snapshot option \<times> u64 \<times> nat) io" where
  "recover_snapshot =
     io_bind (open_file (snapshot_name 0)) (\<lambda>_. \<lambda>d.
       let b0 = better_snapshot 0 (read_snapshot d (snapshot_name 0)) (None, 0, 0) in
       io_bind (open_file (snapshot_name 1)) (\<lambda>_. \<lambda>d.
         (Inr (better_snapshot 1 (read_snapshot d (snapshot_name 1)) b0), d)) d)"

definition segment_names :: "string list \<Rightarrow> (index \<times> string) list" where
  "segment_names names = sort (List.map_filter (\<lambda>n. map_option (\<lambda>i. (i, n)) (index_from_name n)) names)"

definition wal_assemble ::
  "wal_options \<Rightarrow> hard_state \<Rightarrow> u64 \<Rightarrow> snapshot option \<Rightarrow> u64 \<Rightarrow> nat \<Rightarrow> recovery \<Rightarrow> (node_disk, recovered) io" where
  "wal_assemble opts hs state_seq snapshot snapshot_seq slot ry = (\<lambda>d.
     let snap_index = (case snapshot of None \<Rightarrow> 0 | Some sn \<Rightarrow> sn_last_index sn);
         entries = (if snap_index > 0 then filter (\<lambda>e. e_index e > snap_index) (ry_entries ry) else ry_entries ry);
         w = \<lparr>w_opts = opts, w_segments = ry_segments ry, w_state_seq = state_seq, w_snapshot_slot = slot,
              w_snapshot_seq = snapshot_seq, w_stats = default_wal_stats\<rparr>
     in case (if w_segments w = [] then open_segment (snap_index + 1) (w, d) else (Inr (), (w, d))) of
          (Inl e, (w, d)) \<Rightarrow> (Inl e, d)
        | (Inr _, (w, d)) \<Rightarrow>
            (Inr \<lparr>rc_wal = w\<lparr>w_stats := (w_stats w)\<lparr>ws_truncations := ry_truncated ry\<rparr>\<rparr>, rc_hard_state = hs,
                  rc_snapshot = snapshot, rc_entries = entries, rc_tail = ry_tail ry,
                  rc_truncated = ry_truncated ry\<rparr>, d))"

definition wal_open :: "wal_options \<Rightarrow> (node_disk, recovered) io" where
  "wal_open opts =
     io_bind (open_file ''state'') (\<lambda>_. \<lambda>d.
       let (hs, state_seq) = read_hard_state d in
       io_bind recover_snapshot (\<lambda>(snapshot, snapshot_seq, slot).
       io_bind list_files (\<lambda>names.
       io_bind (recover_segments (segment_names names)
                 \<lparr>ry_segments = [], ry_entries = [], ry_tail = Clean, ry_truncated = 0\<rparr>)
               (wal_assemble opts hs state_seq snapshot snapshot_seq slot))) d)"

end
