(* ===== verification/Wal_Names.thy ===== *)
theory Wal_Names
  imports Wal
begin

section \<open>Segment file names\<close>

text \<open>
  The names under which the log finds its segments again after a restart: the name made from a
  first index parses back to that index, so names are distinct, and no other file of the log is
  taken for a segment.
\<close>

lemma of_char_digit: "n < 10 \<Longrightarrow> of_char (digit n) = (48 + n :: nat)"
  by (simp add: digit_def)

lemma digit_value_digit [simp]: "n < 10 \<Longrightarrow> digit_value (digit n) = Some n"
  by (simp add: digit_value_def of_char_digit)

lemma parse_digits_append:
  "parse_digits acc (xs @ ys) = Option.bind (parse_digits acc xs) (\<lambda>a. parse_digits a ys)"
  by (induction acc xs rule: parse_digits.induct) (auto split: option.split)

lemma parse_zeros [simp]: "parse_digits 0 (replicate k (digit 0)) = Some 0"
  by (induction k) simp_all

lemma parse_decimal: "n < 2 ^ 64 \<Longrightarrow> parse_digits 0 (decimal n) = Some n"
proof (induction n rule: decimal.induct)
  case (1 n)
  show ?case
  proof (cases "n < 10")
    case True
    then show ?thesis using 1(2) by (subst decimal.simps) simp
  next
    case False
    have "n div 10 * 10 + n mod 10 = n" by simp
    then show ?thesis using 1 False by (subst decimal.simps) (simp add: parse_digits_append)
  qed
qed

lemma decimal_not_Nil [simp]: "decimal n \<noteq> []"
  by (subst decimal.simps) simp

lemma decimal_digits: "set (decimal n) \<subseteq> digit ` {..<10}"
proof (induction n rule: decimal.induct)
  case (1 n)
  show ?case
  proof (cases "n < 10")
    case True
    then show ?thesis by (auto simp: decimal.simps [of n])
  next
    case False
    then show ?thesis using 1 by (auto simp: decimal.simps [of n])
  qed
qed

lemma digit_not_plus: "k < 10 \<Longrightarrow> digit k \<noteq> CHR ''+''"
proof
  assume "k < 10" and "digit k = CHR ''+''"
  then have "of_char (CHR ''+'') = (48 + k :: nat)" using of_char_digit by metis
  then show False by simp
qed

lemma parse_padded: "parse_u64 (pad_zero 20 (decimal (unat i))) = Some i"
proof -
  let ?s = "pad_zero 20 (decimal (unat i))"
  have "hd ?s \<in> set ?s" by (rule hd_in_set) (simp add: pad_zero_def)
  moreover have "set ?s \<subseteq> digit ` {..<10}"
    using decimal_digits [of "unat i"] by (auto simp: pad_zero_def set_replicate_conv_if)
  ultimately have "hd ?s \<noteq> CHR ''+''" using digit_not_plus by force
  moreover have "unat i < 2 ^ 64" using unat_bound [of i] by simp
  then have "parse_digits 0 ?s = Some (unat i)"
    using parse_decimal by (simp add: pad_zero_def parse_digits_append)
  ultimately show ?thesis by (simp add: parse_u64_def Let_def pad_zero_def)
qed

lemma index_from_name_for [simp]: "index_from_name (name_for i) = Some i"
  by (simp add: index_from_name_def name_for_def strip_prefix_def strip_suffix_def parse_padded)

lemma name_for_inject [simp]: "name_for i = name_for j \<longleftrightarrow> i = j"
  using index_from_name_for by (metis option.inject)

lemma other_names [simp]:
  "index_from_name ''state'' = None" "index_from_name (snapshot_name k) = None"
  by (simp_all add: index_from_name_def strip_prefix_def snapshot_name_def)

lemma name_for_not_state [simp]: "name_for i \<noteq> ''state''" "''state'' \<noteq> name_for i"
  "name_for i \<noteq> snapshot_name k" "snapshot_name k \<noteq> name_for i"
  using index_from_name_for [of i] other_names by (metis option.discI)+

lemma snapshot_name_not_state [simp]: "snapshot_name k \<noteq> ''state''"
  by (simp add: snapshot_name_def)

lemma snapshot_names_differ: "snapshot_name 0 \<noteq> snapshot_name 1"
  by (simp add: snapshot_name_def decimal.simps digit_def)

end
