(* ===== verification/Wal_Rep.thy ===== *)
theory Wal_Rep
  imports Wal_Names
begin

section \<open>What the log in memory says about the disk\<close>

text \<open>
  The representation of the write-ahead log: each segment holds the entries of a contiguous run
  of indices, a synced part that is on the platter and an unsynced part that is only in the page
  cache, written in order. The lemmas show that scanning reads back what was written and that
  every operation keeps the representation with the entries it should have.
\<close>

definition rec_bytes :: "entry \<Rightarrow> bytes" where
  "rec_bytes e = wal_frame (entry_to_bytes e)"

definition recs :: "entry list \<Rightarrow> bytes" where
  "recs es = concat (map rec_bytes es)"

definition rec_ok :: "entry \<Rightarrow> bool" where
  "rec_ok e \<longleftrightarrow> entry_ok e \<and> length (entry_to_bytes e) \<le> unat MAX_RECORD"

fun consecutive :: "index \<Rightarrow> entry list \<Rightarrow> bool" where
  "consecutive i [] = True"
| "consecutive i (e # es) = (e_index e = i \<and> consecutive (i + 1) es)"

lemma recs_simps [simp]: "recs [] = []" "recs (e # es) = rec_bytes e @ recs es" "recs (es @ es') = recs es @ recs es'"
  by (simp_all add: recs_def)

lemma length_rec_bytes: "length (rec_bytes e) = HEADER + length (entry_to_bytes e)"
  by (simp add: rec_bytes_def wal_frame_def HEADER_def)

lemma rec_bytes_not_Nil [simp]: "rec_bytes e \<noteq> []" "0 < length (rec_bytes e)"
  using length_rec_bytes [of e] by (auto simp: HEADER_def)

lemma recs_eq_Nil [simp]: "recs es = [] \<longleftrightarrow> es = []"
  by (cases es) simp_all

lemma consecutive_append:
  "consecutive i (xs @ ys) \<longleftrightarrow> consecutive i xs \<and> consecutive (i + word_of_nat (length xs)) ys"
  by (induction xs arbitrary: i) (auto simp: algebra_simps)

lemma consecutive_last:
  "consecutive i xs \<Longrightarrow> xs \<noteq> [] \<Longrightarrow> e_index (last xs) = i + word_of_nat (length xs) - 1"
  by (induction xs arbitrary: i) auto

lemma length_take_le: "length b \<le> unat MAX_RECORD \<Longrightarrow> unat (word_of_nat (length b) :: u32) = length b"
  by (simp add: MAX_RECORD_def unat_of_nat)

lemma header_frame:
  assumes "length b \<le> unat MAX_RECORD"
  shows "header_len (wal_frame b @ rest) = word_of_nat (length b)"
    and "header_crc (wal_frame b @ rest) = crc32c b"
    and "take (length b) (drop HEADER (wal_frame b @ rest)) = b"
    and "drop (HEADER + length b) (wal_frame b @ rest) = rest"
  by (simp_all add: header_len_def header_crc_def wal_frame_def HEADER_def from_le_bytes_le_bytes)

lemma scan_record:
  assumes "rec_ok e" and "e_index e = i"
  shows "scan_records (rec_bytes e @ rest) i =
    (let (es, reason, n) = scan_records rest (i + 1) in (e # es, reason, length (rec_bytes e) + n))"
proof -
  let ?b = "entry_to_bytes e" and ?buf = "rec_bytes e @ rest"
  have len: "length ?b \<le> unat MAX_RECORD" using assms by (simp add: rec_ok_def)
  note u = length_take_le [OF len]
  note h = header_frame [OF len, of rest, folded rec_bytes_def]
  have pos: "0 < length ?b" by simp
  have "header_len ?buf \<noteq> 0" using pos h(1) u by (metis gr_implies_not0 unat_0)
  moreover have "\<not> header_len ?buf > MAX_RECORD" using len h(1) u by (simp add: word_less_nat_alt not_less)
  moreover have "entry_decode (r_new ?b) = Inr (e, \<lparr>rbuf = ?b, rpos = length ?b\<rparr>)"
    using parsesD [OF parses_entry, of e "[]" "[]"] assms(1) by (simp add: rec_ok_def r_new_def)
  ultimately show ?thesis
    using assms h u length_rec_bytes [of e]
    by (subst scan_records.simps) (simp add: Let_def split: prod.split)
qed

lemma scan_recs:
  assumes "list_all rec_ok es" and "consecutive i es"
  shows "scan_records (recs es @ rest) i =
    (let (es', reason, n) = scan_records rest (i + word_of_nat (length es)) in (es @ es', reason, length (recs es) + n))"
  using assms
proof (induction es arbitrary: i)
  case Nil
  then show ?case by (simp split: prod.split)
next
  case (Cons e es)
  then have ih: "scan_records (recs es @ rest) (i + 1) =
      (let (es', reason, n) = scan_records rest (i + 1 + word_of_nat (length es)) in (es @ es', reason, length (recs es) + n))"
    by simp
  have "scan_records (recs (e # es) @ rest) i =
      (let (es', reason, n) = scan_records (recs es @ rest) (i + 1) in (e # es', reason, length (rec_bytes e) + n))"
    using Cons.prems scan_record [of e i "recs es @ rest"] by simp
  then show ?case unfolding ih by (simp add: Let_def algebra_simps split: prod.split)
qed

lemma scan_recs_exact:
  assumes "list_all rec_ok es" and "consecutive i es"
  shows "scan_records (recs es) i = (es, Clean, length (recs es))"
proof -
  have "scan_records [] j = ([], Clean, 0)" for j by (subst scan_records.simps) simp
  then show ?thesis using scan_recs [OF assms, of "[]"] by simp
qed

lemma scan_consecutive: "scan_records buf i = (es, reason, n) \<Longrightarrow> consecutive i es"
proof (induction buf i arbitrary: es reason n rule: scan_records.induct)
  case (1 buf i)
  show ?case
  proof (cases es)
    case (Cons e es')
    then show ?thesis
      using "1.prems" "1.IH"
      by (subst (asm) scan_records.simps) (auto simp: Let_def split: if_splits sum.splits prod.splits)
  qed simp
qed

subsection \<open>Segments\<close>

fun record_writes :: "nat \<Rightarrow> entry list \<Rightarrow> pending_op list" where
  "record_writes off [] = []"
| "record_writes off (e # es) = OpWrite off (rec_bytes e) # record_writes (off + length (rec_bytes e)) es"

lemma record_writes_snoc:
  "record_writes off (es @ [e]) = record_writes off es @ [OpWrite (off + length (recs es)) (rec_bytes e)]"
  by (induction es arbitrary: off) (simp_all add: add.assoc)

lemma running_offsets_snoc: "running_offsets n (es @ [e]) = running_offsets n es @ [n + length (recs es)]"
  by (induction es arbitrary: n) (simp_all add: length_rec_bytes add.assoc)

lemma length_running_offsets [simp]: "length (running_offsets n es) = length es"
  by (induction es arbitrary: n) simp_all

lemma running_offsets_nth: "k < length es \<Longrightarrow> running_offsets n es ! k = n + length (recs (take k es))"
proof (induction es arbitrary: n k)
  case (Cons e es)
  then show ?case by (cases k) (simp_all add: length_rec_bytes add.assoc)
qed simp

lemma take_running_offsets: "take k (running_offsets n es) = running_offsets n (take k es)"
proof (induction es arbitrary: n k)
  case (Cons e es)
  then show ?case by (cases k) simp_all
qed simp

text \<open>\<open>file_rep f sy un\<close>: the platter holds the records of \<open>sy\<close>, the page cache those of \<open>un\<close> as well.\<close>

definition file_rep :: "file_state \<Rightarrow> entry list \<Rightarrow> entry list \<Rightarrow> bool" where
  "file_rep f sy un \<longleftrightarrow> fs_durable f = recs sy \<and> fs_view f = recs (sy @ un) \<and>
     (fs_pending f = record_writes (length (recs sy)) un \<or>
      sy = [] \<and> fs_pending f = OpTruncate 0 # record_writes 0 un)"

definition seg_entries_ok :: "segment \<Rightarrow> entry list \<Rightarrow> bool" where
  "seg_entries_ok s es \<longleftrightarrow> sg_name s = name_for (sg_first s) \<and> 0 < sg_first s \<and>
     list_all rec_ok es \<and> consecutive (sg_first s) es \<and> unat (sg_first s) + length es < 2 ^ 64 \<and>
     sg_last s = sg_first s + word_of_nat (length es) - 1 \<and>
     sg_size s = length (recs es) \<and> sg_offsets s = running_offsets 0 es"

definition seg_rep :: "node_disk \<Rightarrow> segment \<Rightarrow> entry list \<times> entry list \<Rightarrow> bool" where
  "seg_rep d s c \<longleftrightarrow> seg_entries_ok s (fst c @ snd c) \<and> (\<not> sg_dirty s \<longrightarrow> snd c = []) \<and>
     (\<exists>f. nd_files d (sg_name s) = Some f \<and> file_rep f (fst c) (snd c))"

definition linked :: "segment list \<Rightarrow> (entry list \<times> entry list) list \<Rightarrow> bool" where
  "linked ss cs \<longleftrightarrow> (\<forall>i. Suc i < length ss \<longrightarrow>
     fst (cs ! i) @ snd (cs ! i) \<noteq> [] \<and> sg_first (ss ! Suc i) = sg_last (ss ! i) + 1)"

definition log_entries :: "(entry list \<times> entry list) list \<Rightarrow> entry list" where
  "log_entries cs = concat (map (\<lambda>c. fst c @ snd c) cs)"

definition wal_rep :: "wal \<Rightarrow> node_disk \<Rightarrow> (entry list \<times> entry list) list \<Rightarrow> bool" where
  "wal_rep w d cs \<longleftrightarrow> nd_up d \<and> files_ok d \<and> w_segments w \<noteq> [] \<and> 0 < wo_segment_bytes (w_opts w) \<and>
     list_all2 (seg_rep d) (w_segments w) cs \<and> linked (w_segments w) cs \<and>
     {n \<in> dom (nd_files d). index_from_name n \<noteq> None} = sg_name ` set (w_segments w)"

subsection \<open>Segments are disjoint\<close>

lemma seg_rep_frame: "nd_files d' (sg_name s) = nd_files d (sg_name s) \<Longrightarrow> seg_rep d' s c \<longleftrightarrow> seg_rep d s c"
  by (simp add: seg_rep_def)

lemma seg_repD: "seg_rep d s c \<Longrightarrow> seg_entries_ok s (fst c @ snd c)"
  by (simp add: seg_rep_def)

lemma seg_rep_name: "seg_rep d s c \<Longrightarrow> sg_name s = name_for (sg_first s)"
  by (simp add: seg_rep_def seg_entries_ok_def)

lemma list_all2_seg_frame:
  assumes "list_all2 (seg_rep d) ss cs" and "\<And>s. s \<in> set ss \<Longrightarrow> nd_files d' (sg_name s) = nd_files d (sg_name s)"
  shows "list_all2 (seg_rep d') ss cs"
  using assms(1) by (rule list.rel_mono_strong) (use assms(2) seg_rep_frame in blast)

lemma seg_next:
  assumes "seg_entries_ok s es"
  shows "unat (sg_last s + 1) = unat (sg_first s) + length es"
    and "es \<noteq> [] \<Longrightarrow> unat (sg_last s) = unat (sg_first s) + length es - 1"
    and "sat_sub (sg_first s) 1 = sg_first s - 1"
proof -
  have b: "unat (sg_first s) + length es < 2 ^ 64" and l: "sg_last s = sg_first s + word_of_nat (length es) - 1"
    and p: "0 < sg_first s"
    using assms by (simp_all add: seg_entries_ok_def)
  have u: "unat (sg_first s + word_of_nat (length es)) = unat (sg_first s) + length es"
    using b by (intro unat_plus_nat) simp
  then show "unat (sg_last s + 1) = unat (sg_first s) + length es" by (simp add: l)
  show "unat (sg_last s) = unat (sg_first s) + length es - 1" if "es \<noteq> []"
  proof -
    have "sg_first s + word_of_nat (length es) \<noteq> 0"
    proof
      assume z: "sg_first s + word_of_nat (length es) = 0"
      have "unat (sg_first s) + length es = 0" using u unfolding z by simp
      then show False using that by simp
    qed
    then show ?thesis using u by (simp add: l unat_minus_one)
  qed
  have "1 \<le> sg_first s" using p by (simp add: word_le_nat_alt word_less_nat_alt)
  then show "sat_sub (sg_first s) 1 = sg_first s - 1" by (simp add: sat_sub_def)
qed

lemma linked_Cons:
  assumes "linked (s # ss) (c # cs)"
  shows "linked ss cs"
  unfolding linked_def
proof (intro allI impI)
  fix i assume "Suc i < length ss"
  then show "fst (cs ! i) @ snd (cs ! i) \<noteq> [] \<and> sg_first (ss ! Suc i) = sg_last (ss ! i) + 1"
    using assms [unfolded linked_def, rule_format, of "Suc i"] by simp
qed

lemma segs_ascending:
  assumes "list_all2 (seg_rep d) ss cs" and "linked ss cs"
  shows "sorted_wrt (\<lambda>s s'. unat (sg_last s) < unat (sg_first s') \<and> unat (sg_first s) < unat (sg_first s')) ss"
  using assms
proof (induction ss cs rule: list_all2_induct)
  case (Cons s ss c cs)
  note asc = Cons(3) [OF linked_Cons [OF Cons(4)]]
  show ?case
  proof (cases ss)
    case (Cons s' ss')
    have ok: "seg_entries_ok s (fst c @ snd c)" using \<open>seg_rep d s c\<close> by (simp add: seg_rep_def)
    have "fst c @ snd c \<noteq> []" and f: "sg_first s' = sg_last s + 1"
      using Cons.prems [unfolded linked_def, rule_format, of 0] Cons by simp_all
    then have "unat (sg_last s) < unat (sg_first s')" and "unat (sg_first s) < unat (sg_first s')"
      using seg_next [OF ok] by auto
    then show ?thesis using asc Cons by auto
  qed simp
qed simp

lemma ascending_distinct:
  assumes "sorted_wrt (\<lambda>s s'. unat (sg_last s) < unat (sg_first s') \<and> unat (sg_first s) < unat (sg_first s')) ss"
  shows "distinct (map sg_first ss)"
  using assms
proof (induction ss)
  case (Cons s ss)
  have "sg_first s \<notin> sg_first ` set ss"
  proof
    assume "sg_first s \<in> sg_first ` set ss"
    then obtain s' where "s' \<in> set ss" and same: "sg_first s = sg_first s'" by blast
    then show False using Cons.prems by fastforce
  qed
  then show ?case using Cons by simp
qed simp

lemma seg_names_distinct:
  assumes "list_all2 (seg_rep d) ss cs" and "linked ss cs"
  shows "distinct (map sg_name ss)"
proof -
  have "map sg_name ss = map name_for (map sg_first ss)"
    using assms(1) by (induction rule: list_all2_induct) (simp_all add: seg_rep_def seg_entries_ok_def)
  moreover have "distinct (map name_for (map sg_first ss))"
    using ascending_distinct [OF segs_ascending [OF assms]] by (subst distinct_map) (simp add: inj_on_def)
  ultimately show ?thesis by (simp only:)
qed

lemma linked_snoc:
  assumes "length ss = length cs"
  shows "linked (ss @ [s]) (cs @ [c]) \<longleftrightarrow> linked ss cs \<and>
    (ss \<noteq> [] \<longrightarrow> fst (last cs) @ snd (last cs) \<noteq> [] \<and> sg_first s = sg_last (last ss) + 1)"
proof (cases ss rule: rev_cases)
  case (snoc ss' s')
  then obtain cs' c' where cs: "cs = cs' @ [c']" and len: "length cs' = length ss'"
    using assms by (cases cs rule: rev_cases) simp_all
  let ?P = "\<lambda>ss cs i. fst (cs ! i) @ snd (cs ! i) \<noteq> [] \<and> sg_first (ss ! Suc i) = sg_last (ss ! i) + (1 :: index)"
  have "linked (ss @ [s]) (cs @ [c]) \<longleftrightarrow> (\<forall>i < Suc (length ss'). ?P (ss @ [s]) (cs @ [c]) i)"
    using snoc by (simp add: linked_def)
  also have "\<dots> \<longleftrightarrow> (\<forall>i < length ss'. ?P (ss @ [s]) (cs @ [c]) i) \<and> ?P (ss @ [s]) (cs @ [c]) (length ss')"
    by (rule All_less_Suc [THEN trans]) blast
  also have "?P (ss @ [s]) (cs @ [c]) (length ss') \<longleftrightarrow> fst c' @ snd c' \<noteq> [] \<and> sg_first s = sg_last s' + 1"
    using snoc cs len by (simp add: nth_append)
  also have "(\<forall>i < length ss'. ?P (ss @ [s]) (cs @ [c]) i) \<longleftrightarrow> (\<forall>i < length ss'. ?P ss cs i)"
    using snoc cs len by (intro all_cong) (simp add: nth_append)
  also have "\<dots> \<longleftrightarrow> linked ss cs" using snoc by (simp add: linked_def)
  finally show ?thesis using snoc cs by simp
qed (simp add: linked_def)

lemma wal_rep_snoc:
  assumes "wal_rep w d cs"
  obtains ss s cs0 c where "w_segments w = ss @ [s]" and "cs = cs0 @ [c]" and "length ss = length cs0"
    and "list_all2 (seg_rep d) ss cs0" and "seg_rep d s c" and "\<And>s'. s' \<in> set ss \<Longrightarrow> sg_name s' \<noteq> sg_name s"
proof -
  obtain ss s where w: "w_segments w = ss @ [s]" using assms by (metis append_butlast_last_id wal_rep_def)
  then have "list_all2 (seg_rep d) (ss @ [s]) cs" and l: "linked (ss @ [s]) cs" using assms by (simp_all add: wal_rep_def)
  then obtain cs0 c where "cs = cs0 @ [c]" and "list_all2 (seg_rep d) ss cs0" and "seg_rep d s c"
    by (auto simp: list_all2_append1 list_all2_Cons1)
  moreover have "distinct (map sg_name (ss @ [s]))"
    using \<open>list_all2 (seg_rep d) (ss @ [s]) cs\<close> l by (rule seg_names_distinct)
  ultimately show ?thesis using that [OF w] by (simp add: list_all2_lengthD) (metis imageI)
qed

subsection \<open>Appending\<close>

lemma io_simps [simp]:
  "io_bind (io_return x) f = f x"
  "io_bind (on_wal g) f (w, d) = f () (g w, d)"
  "on_wal g (w, d) = (Inr (), (g w, d))"
  "io_return x t = (Inr x, t)"
  "io_bind (bump_stats h) f (w, d) = f () (w\<lparr>w_stats := h (w_stats w)\<rparr>, d)"
  "bump_stats h (w, d) = (Inr (), (w\<lparr>w_stats := h (w_stats w)\<rparr>, d))"
  by (simp_all add: io_bind_def io_return_def on_wal_def bump_stats_def fun_eq_iff)

lemma io_bind_on_disk:
  "io_bind (on_disk m) f (w, d) = (case m d of (Inl e, d') \<Rightarrow> (Inl e, (w, d')) | (Inr x, d') \<Rightarrow> f x (w, d'))"
  by (auto simp: io_bind_def on_disk_def split: prod.split sum.split)

lemma wal_rep_stats [simp]: "wal_rep (w\<lparr>w_stats := st\<rparr>) d cs \<longleftrightarrow> wal_rep w d cs"
  by (simp add: wal_rep_def)

lemma wal_last_index_snoc: "w_segments w = ss @ [s] \<Longrightarrow> wal_last_index w = sg_last s"
  by (simp add: wal_last_index_def)

text \<open>The log after its last segment and its disk changed, without touching any other file.\<close>

lemma wal_rep_update:
  assumes "wal_rep w d (cs0 @ [c])" and "w_segments w = ss @ [s]" and "length ss = length cs0"
    and "files_ok d'" and "nd_up d'" and "seg_rep d' s' c'" and "sg_first s' = sg_first s"
    and "\<And>n. n \<noteq> sg_name s \<Longrightarrow> nd_files d' n = nd_files d n"
  shows "wal_rep (w\<lparr>w_segments := ss @ [s'], w_stats := st\<rparr>) d' (cs0 @ [c'])"
proof -
  have rep: "list_all2 (seg_rep d) (ss @ [s]) (cs0 @ [c])" and l: "linked (ss @ [s]) (cs0 @ [c])"
    using assms(1,2) by (simp_all add: wal_rep_def)
  have s: "seg_rep d s c" using rep assms(3) by (simp add: list_all2_append)
  have name: "sg_name s' = sg_name s" using seg_rep_name [OF s] seg_rep_name [OF assms(6)] assms(7) by simp
  have "sg_name t \<noteq> sg_name s" if "t \<in> set ss" for t
    using seg_names_distinct [OF rep l] that by (auto simp: rev_image_eqI)
  then have "list_all2 (seg_rep d') (ss @ [s']) (cs0 @ [c'])"
    using rep assms(3,6,8) by (auto simp: list_all2_append intro: list_all2_seg_frame)
  moreover have "linked (ss @ [s']) (cs0 @ [c'])" using l assms(3,7) by (simp add: linked_snoc)
  moreover have "dom (nd_files d') = dom (nd_files d)"
  proof -
    have "sg_name s \<in> dom (nd_files d)" "sg_name s \<in> dom (nd_files d')"
      using s assms(6) name by (auto simp: seg_rep_def)
    then show ?thesis using assms(8) by (auto simp: domIff) metis+
  qed
  then have "{n \<in> dom (nd_files d'). index_from_name n \<noteq> None} = sg_name ` set (ss @ [s'])"
    using assms(1,2) name by (simp add: wal_rep_def)
  ultimately show ?thesis using assms(1,4,5) by (simp add: wal_rep_def)
qed

lemma update_last_snoc: "w_segments w = ss @ [s] \<Longrightarrow> update_last f w = w\<lparr>w_segments := ss @ [f s]\<rparr>"
  by (simp add: update_last_def)

lemma file_rep_write:
  assumes "file_rep f sy un"
  shows "file_rep (f\<lparr>fs_view := splice (fs_view f) (length (recs (sy @ un))) (rec_bytes e),
    fs_pending := fs_pending f @ [OpWrite (length (recs (sy @ un))) (rec_bytes e)]\<rparr>) sy (un @ [e])"
  using assms by (auto simp: file_rep_def record_writes_snoc splice_end)
    (metis append_assoc length_append splice_end)+

lemma seg_entries_ok_snoc:
  assumes "seg_entries_ok s es" and "rec_ok e" and "e_index e = sg_last s + 1" and "unat (e_index e) + 1 < 2 ^ 64"
  shows "seg_entries_ok (s\<lparr>sg_last := e_index e, sg_size := sg_size s + length (rec_bytes e),
    sg_offsets := sg_offsets s @ [sg_size s], sg_dirty := b\<rparr>) (es @ [e])"
proof -
  have "unat (e_index e) = unat (sg_first s) + length es" using seg_next(1) [OF assms(1)] assms(3) by simp
  then show ?thesis using assms
    by (simp add: seg_entries_ok_def consecutive_append running_offsets_snoc add.assoc)
qed

lemma seg_entries_ok_dirty [simp]: "seg_entries_ok (s\<lparr>sg_dirty := b\<rparr>) es \<longleftrightarrow> seg_entries_ok s es"
  by (simp add: seg_entries_ok_def)

lemma seg_rep_dirty: "seg_rep d s c \<Longrightarrow> seg_rep d (s\<lparr>sg_dirty := True\<rparr>) c"
  by (simp add: seg_rep_def)

text \<open>One record written at the end of the log: either it is in, or the disk is full and nothing changed.\<close>

lemma write_record_cases:
  assumes rep: "wal_rep w d (cs @ [(sy, un)])" and e: "rec_ok e" "e_index e = wal_last_index w + 1" "unat (e_index e) + 1 < 2 ^ 64"
  shows "(\<exists>w' d'. write_record quota e (w, d) = (Inr (), (w', d')) \<and> wal_first_index w' = wal_first_index w \<and> wal_rep w' d' (cs @ [(sy, un @ [e])]))
    \<or> (\<exists>w'. write_record quota e (w, d) = (Inl DiskFull, (w', d)) \<and> wal_first_index w' = wal_first_index w \<and> wal_rep w' d (cs @ [(sy, un)]))"
proof -
  obtain ss s where w: "w_segments w = ss @ [s]" and len: "length ss = length cs" and s: "seg_rep d s (sy, un)"
    using rep by (elim wal_rep_snoc) auto
  obtain f where f: "nd_files d (sg_name s) = Some f" and fr: "file_rep f sy un"
    using s by (auto simp: seg_rep_def)
  have ok: "seg_entries_ok s (sy @ un)" using s by (simp add: seg_rep_def)
  then have size: "sg_size s = length (recs (sy @ un))" by (simp add: seg_entries_ok_def)
  have up: "nd_up d" and dok: "files_ok d" using rep by (simp_all add: wal_rep_def)
  let ?w = "w\<lparr>w_segments := ss @ [s\<lparr>sg_dirty := True\<rparr>]\<rparr>"
  have start: "write_record quota e (w, d) =
      (case write_at quota (sg_name s) (sg_size s) (rec_bytes e) d of
         (Inl err, d') \<Rightarrow> (Inl err, (?w, d'))
       | (Inr _, d') \<Rightarrow> bump_stats (\<lambda>t. t\<lparr>ws_entries_written := ws_entries_written t + 1,
            ws_bytes_written := ws_bytes_written t + word_of_nat (length (rec_bytes e))\<rparr>)
            (w\<lparr>w_segments := ss @ [s\<lparr>sg_last := e_index e, sg_size := sg_size s + length (rec_bytes e),
               sg_offsets := sg_offsets s @ [sg_size s], sg_dirty := True\<rparr>]\<rparr>, d'))"
    using w by (simp add: write_record_def Let_def io_bind_on_disk update_last_def rec_bytes_def split: prod.split sum.split)
  have wok: "files_ok (snd (write_at quota (sg_name s) (sg_size s) (rec_bytes e) d))"
    using dok by (rule write_at_files_ok)
  have full: "wal_rep ?w d (cs @ [(sy, un)])"
    using wal_rep_update [OF rep w len dok up seg_rep_dirty [OF s], of "w_stats w"] by simp
  have first: "wal_first_index (w\<lparr>w_segments := ss @ [s'], w_stats := st\<rparr>) = wal_first_index w" if "sg_first s' = sg_first s" for s' st
    using w that by (cases ss) (simp_all add: wal_first_index_def)
  show ?thesis
  proof (cases "write_at quota (sg_name s) (sg_size s) (rec_bytes e) d")
    case (Pair r d')
    then show ?thesis
    proof (cases r)
      case (Inl err)
      then have "err = DiskFull" and "d' = d" using Pair f up by (auto simp: write_at_def Let_def split: if_splits)
      then show ?thesis using start Pair Inl full first [of "s\<lparr>sg_dirty := True\<rparr>" "w_stats w"] by simp
    next
      case (Inr x)
      let ?f = "f\<lparr>fs_view := splice (fs_view f) (sg_size s) (rec_bytes e), fs_pending := fs_pending f @ [OpWrite (sg_size s) (rec_bytes e)]\<rparr>"
      have files: "nd_files d' = (nd_files d)(sg_name s \<mapsto> ?f)" and up': "nd_up d'"
        using Pair Inr f up by (auto simp: write_at_def Let_def put_file_def split: if_splits)
      have "seg_rep d' (s\<lparr>sg_last := e_index e, sg_size := sg_size s + length (rec_bytes e),
               sg_offsets := sg_offsets s @ [sg_size s], sg_dirty := True\<rparr>) (sy, un @ [e])"
        using seg_entries_ok_snoc [OF ok e(1) _ e(3), of True] e(2) w files file_rep_write [OF fr, of e] size
        by (simp add: seg_rep_def wal_last_index_snoc)
      moreover have "files_ok d'" using wok Pair by simp
      ultimately show ?thesis
        using start Pair Inr wal_rep_update [OF rep w len _ up', of _ "(sy, un @ [e])"] files first by simp
    qed
  qed
qed

text \<open>A fresh segment behind the last one, or the only one of an emptied log.\<close>

definition fresh_file :: "string \<Rightarrow> file_state" where
  "fresh_file name = (file_new name)\<lparr>fs_pending := [OpTruncate 0]\<rparr>"

lemma io_ignore_disk:
  "io_bind (io_ignore (on_disk m)) f (w, d) = f () (w, snd (m d))"
  by (simp add: io_bind_def io_ignore_def on_disk_def split: prod.split)

lemma open_segment_run:
  assumes "nd_files d (name_for i) = None"
  shows "\<exists>d'. open_segment i (w, d) = (Inr (), (w\<lparr>w_segments := w_segments w @ [segment_new i]\<rparr>, d')) \<and>
    nd_files d' = (nd_files d)(name_for i \<mapsto> fresh_file (name_for i)) \<and> nd_up d' = nd_up d \<and> (files_ok d \<longrightarrow> files_ok d')"
proof -
  obtain d1 where o: "open_file (name_for i) d = (Inr (), d1)" by (simp add: open_file_def)
  let ?d = "snd (truncate_file (name_for i) 0 d1)"
  have "open_segment i (w, d) = (Inr (), (w\<lparr>w_segments := w_segments w @ [segment_new i]\<rparr>, ?d))"
    unfolding open_segment_def
    by (simp add: io_bind_on_disk o io_ignore_disk) (simp add: on_disk_def sync_dir_def)
  moreover have "d1 = put_file d (name_for i) (file_new (name_for i))" using o assms by (simp add: open_file_def)
  then have "nd_files ?d = (nd_files d)(name_for i \<mapsto> fresh_file (name_for i))" and "nd_up ?d = nd_up d"
    by (simp_all add: truncate_file_def put_file_def fresh_file_def file_new_def)
  moreover have "files_ok d \<longrightarrow> files_ok ?d"
    using open_file_files_ok [of d "name_for i"] truncate_file_files_ok [of d1] o by simp
  ultimately show ?thesis by blast
qed

lemma seg_rep_fresh:
  assumes "nd_files d (name_for i) = Some (fresh_file (name_for i))" and "0 < i"
  shows "seg_rep d (segment_new i) ([], [])"
proof -
  have "sat_sub i 1 = i - 1" using assms(2) by (simp add: sat_sub_def word_le_nat_alt word_less_nat_alt)
  moreover have "unat i < 2 ^ 64" using unat_bound [of i] by simp
  ultimately show ?thesis using assms
    by (simp add: seg_rep_def seg_entries_ok_def segment_new_def file_rep_def fresh_file_def file_new_def)
qed

lemma wal_rep_next_free:
  assumes "wal_rep w d cs"
  shows "nd_files d (name_for (wal_last_index w + 1)) = None \<or> fst (last cs) @ snd (last cs) = []"
proof (rule disjCI, rule ccontr)
  assume ne: "\<not> fst (last cs) @ snd (last cs) = []" and some: "nd_files d (name_for (wal_last_index w + 1)) \<noteq> None"
  obtain ss s cs0 c where w: "w_segments w = ss @ [s]" and cs: "cs = cs0 @ [c]" and s: "seg_rep d s c"
    using assms by (elim wal_rep_snoc)
  have rep: "list_all2 (seg_rep d) (w_segments w) cs" and l: "linked (w_segments w) cs" using assms by (simp_all add: wal_rep_def)
  have "name_for (wal_last_index w + 1) \<in> sg_name ` set (w_segments w)"
    using some assms by (auto simp: wal_rep_def domIff)
  then obtain t where t: "t \<in> set (w_segments w)" and name: "sg_name t = name_for (sg_last s + 1)"
    using wal_last_index_snoc [OF w] by auto
  have "sg_name t = name_for (sg_first t)" using t rep by (auto simp: list_all2_conv_all_nth in_set_conv_nth dest: seg_rep_name)
  then have first: "sg_first t = sg_last s + 1" using name by simp
  have "unat (sg_first s) < unat (sg_first t)"
    using seg_next(1) [of s "fst c @ snd c"] s ne cs first by (simp add: seg_rep_def)
  moreover have "unat (sg_first t) \<le> unat (sg_first s)"
    using segs_ascending [OF rep l] t w by (auto simp: sorted_wrt_append)
  ultimately show False by simp
qed

lemma wal_rep_add_segment:
  assumes rep: "wal_rep w d cs" and ne: "fst (last cs) @ snd (last cs) \<noteq> []"
    and room: "unat (wal_last_index w + 1) \<noteq> 0"
    and st: "w' = w\<lparr>w_stats := st\<rparr>"
  shows "\<exists>d'. open_segment (wal_last_index w + 1) (w', d) =
      (Inr (), (w'\<lparr>w_segments := w_segments w @ [segment_new (wal_last_index w + 1)]\<rparr>, d')) \<and>
    wal_rep (w'\<lparr>w_segments := w_segments w @ [segment_new (wal_last_index w + 1)]\<rparr>) d' (cs @ [([], [])])"
proof -
  let ?i = "wal_last_index w + 1"
  have free: "nd_files d (name_for ?i) = None" using wal_rep_next_free [OF rep] ne by blast
  obtain d' where run: "open_segment ?i (w', d) = (Inr (), (w'\<lparr>w_segments := w_segments w @ [segment_new ?i]\<rparr>, d'))"
    and files: "nd_files d' = (nd_files d)(name_for ?i \<mapsto> fresh_file (name_for ?i))" and up: "nd_up d' = nd_up d"
    and ok: "files_ok d \<longrightarrow> files_ok d'"
    using open_segment_run [OF free, of w'] st by auto
  have segs: "list_all2 (seg_rep d) (w_segments w) cs" and l: "linked (w_segments w) cs" and nn: "w_segments w \<noteq> []"
    and names: "{n \<in> dom (nd_files d). index_from_name n \<noteq> None} = sg_name ` set (w_segments w)"
    using rep by (simp_all add: wal_rep_def)
  have "0 < ?i" using room by (metis unat_0 word_gt_0)
  then have fresh: "seg_rep d' (segment_new ?i) ([], [])" using files by (intro seg_rep_fresh) simp_all
  have "nd_files d' (sg_name s) = nd_files d (sg_name s)" if "s \<in> set (w_segments w)" for s
    using that names files free by (metis (mono_tags, lifting) domIff fun_upd_other imageI mem_Collect_eq)
  then have "list_all2 (seg_rep d') (w_segments w) cs" using segs by (rule list_all2_seg_frame [rotated])
  moreover have "linked (w_segments w @ [segment_new ?i]) (cs @ [([], [])])"
    using l ne nn list_all2_lengthD [OF segs] by (simp add: linked_snoc segment_new_def wal_last_index_def)
  moreover have "{n \<in> dom (nd_files d'). index_from_name n \<noteq> None} = insert (name_for ?i) (sg_name ` set (w_segments w))"
    unfolding names [symmetric] using files by auto
  ultimately have "wal_rep (w'\<lparr>w_segments := w_segments w @ [segment_new ?i]\<rparr>) d' (cs @ [([], [])])"
    using rep st fresh up ok list_all2_lengthD [OF segs]
    by (simp add: wal_rep_def list_all2_append) (simp add: segment_new_def)
  then show ?thesis using run by blast
qed

text \<open>
  The entries that must survive a crash: the synced ones up to the first segment that has
  unsynced records. Synced entries of later segments stay on disk too, but recovery may not
  reach them across the gap, so they are not promised.
\<close>

fun durable_entries :: "(entry list \<times> entry list) list \<Rightarrow> entry list" where
  "durable_entries [] = []"
| "durable_entries ((sy, un) # cs) = sy @ (if un = [] then durable_entries cs else [])"

lemma log_entries_simps [simp]:
  "log_entries [] = []" "log_entries (c # cs) = fst c @ snd c @ log_entries cs"
  "log_entries (cs @ cs') = log_entries cs @ log_entries cs'"
  by (simp_all add: log_entries_def)

lemma durable_snoc:
  "durable_entries (cs @ [(sy, un)]) = durable_entries cs @ (if list_all (\<lambda>c. snd c = []) cs then sy else [])"
  by (induction cs rule: durable_entries.induct) auto

lemma durable_all_synced: "list_all (\<lambda>c. snd c = []) cs \<Longrightarrow> durable_entries cs = log_entries cs"
  by (induction cs rule: durable_entries.induct) auto

text \<open>What an append does: the new entries are in the log, nothing else changes.\<close>

definition log_step :: "(entry list \<times> entry list) list \<Rightarrow> entry list \<Rightarrow> (entry list \<times> entry list) list \<Rightarrow> bool" where
  "log_step cs es cs' \<longleftrightarrow> log_entries cs' = log_entries cs @ es \<and> durable_entries cs' = durable_entries cs"

lemma log_step_trans: "log_step cs es cs' \<Longrightarrow> log_step cs' es' cs'' \<Longrightarrow> log_step cs (es @ es') cs''"
  by (simp add: log_step_def)

lemma segs_index:
  assumes "list_all2 (seg_rep d) (s # ss) (c # cs)" and "linked (s # ss) (c # cs)"
  shows "consecutive (sg_first s) (log_entries (c # cs)) \<and>
    unat (sg_last (last (s # ss)) + 1) = unat (sg_first s) + length (log_entries (c # cs)) \<and>
    list_all rec_ok (log_entries (c # cs))"
  using assms
proof (induction ss arbitrary: s c cs)
  case Nil
  then show ?case using seg_next(1) [of s "fst c @ snd c"] by (auto simp: seg_rep_def seg_entries_ok_def)
next
  case (Cons s' ss)
  then obtain c' cs' where cs: "cs = c' # cs'" by (auto simp: list_all2_Cons1)
  have ok: "seg_entries_ok s (fst c @ snd c)" using Cons.prems(1) by (intro seg_repD [of d]) simp
  have rep: "list_all2 (seg_rep d) (s' # ss) (c' # cs')" using Cons.prems(1) cs by simp
  have l: "linked (s' # ss) (c' # cs')" using linked_Cons Cons.prems(2) cs by blast
  have f: "sg_first s' = sg_last s + 1" using Cons.prems(2) [unfolded linked_def, rule_format, of 0] by simp
  have u: "unat (sg_first s') = unat (sg_first s) + length (fst c @ snd c)" using seg_next(1) [OF ok] f by simp
  moreover have "sg_first s' = sg_first s + word_of_nat (length (fst c @ snd c))"
    using f ok by (simp add: seg_entries_ok_def)
  ultimately show ?case using Cons.IH [OF rep l] ok cs
    by (simp add: consecutive_append seg_entries_ok_def add.assoc [symmetric])
qed

lemma wal_rep_index:
  assumes "wal_rep w d cs"
  shows "consecutive (wal_first_index w) (log_entries cs)"
    and "unat (wal_last_index w + 1) = unat (wal_first_index w) + length (log_entries cs)"
    and "list_all rec_ok (log_entries cs)" and "0 < wal_first_index w"
proof -
  obtain s ss c cs' where w: "w_segments w = s # ss" and cs: "cs = c # cs'"
    and rep: "list_all2 (seg_rep d) (s # ss) (c # cs')" and l: "linked (s # ss) (c # cs')"
    using assms by (cases "w_segments w"; cases cs) (auto simp: wal_rep_def)
  show "consecutive (wal_first_index w) (log_entries cs)"
    and "unat (wal_last_index w + 1) = unat (wal_first_index w) + length (log_entries cs)"
    and "list_all rec_ok (log_entries cs)"
    using segs_index [OF rep l] w cs by (simp_all add: wal_first_index_def wal_last_index_def)
  show "0 < wal_first_index w" using rep w by (simp add: wal_first_index_def seg_rep_def seg_entries_ok_def)
qed

lemma wal_last_index_eq:
  assumes "wal_rep w d cs" and "wal_rep w' d' cs'" and "wal_first_index w' = wal_first_index w"
    and "length (log_entries cs') = length (log_entries cs)"
  shows "wal_last_index w' = wal_last_index w"
proof -
  have "wal_last_index w' + 1 = wal_last_index w + 1"
    using wal_rep_index(2) [OF assms(1)] wal_rep_index(2) [OF assms(2)] assms(3,4) by (simp add: word_unat_eq_iff)
  then show ?thesis by simp
qed

lemma sat_sub_one: "x \<noteq> 0 \<Longrightarrow> sat_sub x 1 = x - 1"
proof -
  assume "x \<noteq> 0"
  then have "0 < unat x" by (simp add: unat_gt_0)
  then show ?thesis by (simp add: sat_sub_def word_le_nat_alt)
qed

lemma append_one_cases:
  assumes rep: "wal_rep w d cs" and e: "rec_ok e" "e_index e = wal_last_index w + 1" "unat (e_index e) + 1 < 2 ^ 64"
    and pos: "e_index e \<noteq> 0"
  shows "\<exists>r w' d' cs'. append_one quota e (w, d) = (r, (w', d')) \<and> wal_rep w' d' cs' \<and> wal_first_index w' = wal_first_index w \<and>
    (r = Inr () \<and> log_step cs [e] cs' \<or> r = Inl DiskFull \<and> log_step cs [] cs')"
proof -
  have wr: "\<exists>r w' d' cs'. write_record quota e (v, d1) = (r, (w', d')) \<and> wal_rep w' d' cs' \<and> wal_first_index w' = wal_first_index v \<and>
      (r = Inr () \<and> log_step cs1 [e] cs' \<or> r = Inl DiskFull \<and> log_step cs1 [] cs')"
    if v: "wal_rep v d1 cs1" and same: "wal_last_index v = wal_last_index w" for v d1 cs1
  proof -
    obtain cs0 sy un where cs1: "cs1 = cs0 @ [(sy, un)]" using v by (elim wal_rep_snoc) auto
    have e': "e_index e = wal_last_index v + 1" using e(2) same by simp
    from write_record_cases [OF v [unfolded cs1] e(1) e' e(3), of quota] show ?thesis
    proof (elim disjE exE conjE)
      fix w' d' assume "write_record quota e (v, d1) = (Inr (), (w', d'))" "wal_first_index w' = wal_first_index v" "wal_rep w' d' (cs0 @ [(sy, un @ [e])])"
      moreover have "log_step cs1 [e] (cs0 @ [(sy, un @ [e])])" by (simp add: log_step_def cs1 durable_snoc)
      ultimately show ?thesis by blast
    next
      fix w' assume "write_record quota e (v, d1) = (Inl DiskFull, (w', d1))" "wal_first_index w' = wal_first_index v" "wal_rep w' d1 (cs0 @ [(sy, un)])"
      then show ?thesis using cs1 by (auto simp: log_step_def)
    qed
  qed
  show ?thesis
  proof (cases "sg_size (last (w_segments w)) \<ge> wo_segment_bytes (w_opts w)")
    case False
    then show ?thesis using wr [OF rep refl] rep e(2) by (simp add: append_one_def wal_rep_def Let_def)
  next
    case True
    let ?w = "w\<lparr>w_stats := (w_stats w)\<lparr>ws_rollovers := ws_rollovers (w_stats w) + 1\<rparr>\<rparr>"
    let ?v = "?w\<lparr>w_segments := w_segments w @ [segment_new (wal_last_index w + 1)]\<rparr>"
    obtain ss s cs0 c where w: "w_segments w = ss @ [s]" and cs: "cs = cs0 @ [c]" and s: "seg_rep d s c"
      using rep by (elim wal_rep_snoc)
    have "0 < sg_size s" using True rep w by (simp add: wal_rep_def)
    then have "fst (last cs) @ snd (last cs) \<noteq> []" using s cs by (auto simp: seg_rep_def seg_entries_ok_def)
    then obtain d1 where run: "open_segment (wal_last_index w + 1) (?w, d) = (Inr (), (?v, d1))" and v: "wal_rep ?v d1 (cs @ [([], [])])"
      using wal_rep_add_segment [OF rep _ _ refl, of "w_stats ?w"] pos e(2) by (auto simp: unat_eq_0)
    have last: "wal_last_index ?v = wal_last_index w"
      using pos e(2) wal_last_index_snoc [of ?v "w_segments w" "segment_new (wal_last_index w + 1)"]
      by (simp add: segment_new_def sat_sub_one)
    have "append_one quota e (w, d) = write_record quota e (?v, d1)"
      using True rep e(2) run by (simp add: append_one_def wal_rep_def Let_def io_bind_def [of "open_segment _"])
    moreover have "wal_first_index ?v = wal_first_index w" using w by (cases ss) (simp_all add: wal_first_index_def)
    moreover have "log_step (cs @ [([], [])]) es cs' \<longleftrightarrow> log_step cs es cs'" for es cs' by (simp add: log_step_def durable_snoc)
    ultimately show ?thesis using wr [OF v last] by simp
  qed
qed

lemma append_entries_cases:
  assumes "wal_rep w d cs" and "list_all rec_ok es" and "consecutive (wal_last_index w + 1) es"
    and "unat (wal_last_index w + 1) + length es < 2 ^ 64"
  shows "\<exists>r w' d' cs'. append_entries quota es (w, d) = (r, (w', d')) \<and> wal_rep w' d' cs' \<and>
    wal_first_index w' = wal_first_index w \<and>
    (r = Inr () \<and> log_step cs es cs' \<or> r = Inl DiskFull \<and> (\<exists>n < length es. log_step cs (take n es) cs'))"
  using assms
proof (induction es arbitrary: w d cs)
  case Nil
  then show ?case by (auto simp: log_step_def)
next
  case (Cons e es)
  have e: "rec_ok e" "e_index e = wal_last_index w + 1" "unat (e_index e) + 1 < 2 ^ 64" using Cons.prems by simp_all
  have "e_index e \<noteq> 0"
  proof
    assume "e_index e = 0"
    then have "unat (wal_last_index w + 1) = 0" using e(2) by simp
    then show False using wal_rep_index(2,4) [OF Cons.prems(1)] by (simp add: word_less_nat_alt)
  qed
  from append_one_cases [OF Cons.prems(1) e this, of quota]
  obtain r w1 d1 cs1 where one: "append_one quota e (w, d) = (r, (w1, d1))" and rep: "wal_rep w1 d1 cs1"
    and first: "wal_first_index w1 = wal_first_index w"
    and alt: "r = Inr () \<and> log_step cs [e] cs1 \<or> r = Inl DiskFull \<and> log_step cs [] cs1" by blast
  show ?case
  proof (cases r)
    case (Inl err)
    then have "r = Inl DiskFull" and "log_step cs (take 0 (e # es)) cs1" using alt by auto
    moreover have "append_entries quota (e # es) (w, d) = (r, (w1, d1))" using one Inl by (simp add: io_bind_def)
    ultimately show ?thesis using rep first by (metis length_greater_0_conv list.distinct(1))
  next
    case (Inr u)
    then have step: "log_step cs [e] cs1" using alt by auto
    have "unat (wal_last_index w1 + 1) = unat (wal_last_index w + 1) + 1"
      using wal_rep_index(2) [OF rep] wal_rep_index(2) [OF Cons.prems(1)] first step by (simp add: log_step_def)
    moreover have "wal_last_index w1 + 1 = wal_last_index w + 1 + 1"
    proof -
      have "unat (wal_last_index w + 1) + 1 < 2 ^ LENGTH(64)" using Cons.prems(4) by simp
      from unat_plus_one [OF this] show ?thesis using calculation by (simp only: word_unat_eq_iff)
    qed
    ultimately have "consecutive (wal_last_index w1 + 1) es" and "unat (wal_last_index w1 + 1) + length es < 2 ^ 64"
      using Cons.prems(3,4) by simp_all
    with Cons.IH [OF rep] obtain r' w' d' cs' where rest: "append_entries quota es (w1, d1) = (r', (w', d'))" and rep': "wal_rep w' d' cs'"
      and first': "wal_first_index w' = wal_first_index w1"
      and alt': "r' = Inr () \<and> log_step cs1 es cs' \<or> r' = Inl DiskFull \<and> (\<exists>n < length es. log_step cs1 (take n es) cs')"
      using Cons.prems(2) by (metis list.pred_inject(2))
    have "append_entries quota (e # es) (w, d) = (r', (w', d'))" using one Inr rest by (simp add: io_bind_def)
    moreover have "r' = Inr () \<and> log_step cs (e # es) cs' \<or> r' = Inl DiskFull \<and> (\<exists>n < length (e # es). log_step cs (take n (e # es)) cs')"
      using alt'
    proof (elim disjE conjE exE)
      fix n assume "r' = Inl DiskFull" "n < length es" "log_step cs1 (take n es) cs'"
      then show ?thesis using log_step_trans [OF step] by (intro disjI2 conjI exI [of _ "Suc n"]) auto
    qed (use log_step_trans [OF step] in auto)
    ultimately show ?thesis using rep' first first' by metis
  qed
qed

subsection \<open>Removing segments\<close>

lemma remove_file_run: "\<exists>d'. remove_file n d = (Inr (), d') \<and> nd_files d' = (nd_files d)(n := None) \<and>
    nd_up d' = nd_up d \<and> (files_ok d \<longrightarrow> files_ok d')"
proof -
  have "nd_files (snd (remove_file n d)) = (nd_files d)(n := None)"
    by (auto simp: remove_file_def fun_eq_iff split: option.split)
  moreover have "fst (remove_file n d) = Inr ()" and "nd_up (snd (remove_file n d)) = nd_up d"
    by (simp_all add: remove_file_def split: option.split)
  ultimately show ?thesis using remove_file_files_ok by (metis prod.collapse)
qed

lemma remove_segments_run:
  "\<exists>st d'. remove_segments ss (w, d) = (Inr (), (w\<lparr>w_stats := st\<rparr>, d')) \<and>
    nd_files d' = (\<lambda>n. if n \<in> sg_name ` set ss then None else nd_files d n) \<and> nd_up d' = nd_up d \<and> (files_ok d \<longrightarrow> files_ok d')"
proof (induction ss arbitrary: w d)
  case Nil
  have "remove_segments [] (w, d) = (Inr (), (w\<lparr>w_stats := w_stats w\<rparr>, d))" by simp
  then show ?case by (metis empty_iff image_empty list.set(1))
next
  case (Cons s ss)
  obtain d1 where r: "remove_file (sg_name s) d = (Inr (), d1)" and f: "nd_files d1 = (nd_files d)(sg_name s := None)"
    and u: "nd_up d1 = nd_up d" and o: "files_ok d \<longrightarrow> files_ok d1"
    using remove_file_run by blast
  let ?w = "w\<lparr>w_stats := (w_stats w)\<lparr>ws_segments_deleted := ws_segments_deleted (w_stats w) + 1\<rparr>\<rparr>"
  obtain st d' where r': "remove_segments ss (?w, d1) = (Inr (), (?w\<lparr>w_stats := st\<rparr>, d'))"
    and f': "nd_files d' = (\<lambda>n. if n \<in> sg_name ` set ss then None else nd_files d1 n)"
    and u': "nd_up d' = nd_up d1" and o': "files_ok d1 \<longrightarrow> files_ok d'"
    using Cons by blast
  have "remove_segments (s # ss) (w, d) = (Inr (), (w\<lparr>w_stats := st\<rparr>, d'))"
    using r r' by (simp add: io_bind_on_disk)
  moreover have "nd_files d' = (\<lambda>n. if n \<in> sg_name ` set (s # ss) then None else nd_files d n)"
    using f f' by auto
  ultimately show ?case using u u' o o' by auto
qed

lemma reset_to_run:
  assumes rep: "wal_rep w d cs" and pos: "i + 1 \<noteq> 0"
  shows "\<exists>w' d'. reset_to i (w, d) = (Inr (), (w', d')) \<and> wal_rep w' d' [([], [])] \<and> wal_first_index w' = i + 1 \<and>
    wal_last_index w' = i"
proof -
  obtain st d1 where rem: "remove_segments (w_segments w) (w\<lparr>w_segments := []\<rparr>, d) = (Inr (), (w\<lparr>w_segments := [], w_stats := st\<rparr>, d1))"
    and f: "nd_files d1 = (\<lambda>n. if n \<in> sg_name ` set (w_segments w) then None else nd_files d n)"
    and u: "nd_up d1 = nd_up d" and o: "files_ok d \<longrightarrow> files_ok d1"
    using remove_segments_run [of "w_segments w" "w\<lparr>w_segments := []\<rparr>" d] by auto
  have names: "{n \<in> dom (nd_files d). index_from_name n \<noteq> None} = sg_name ` set (w_segments w)"
    using rep by (simp add: wal_rep_def)
  have clear: "nd_files d1 n = None" if "index_from_name n \<noteq> None" for n
    using that names f by (cases "nd_files d n") auto
  let ?v = "w\<lparr>w_segments := [segment_new (i + 1)], w_stats := st\<rparr>"
  obtain d' where run: "open_segment (i + 1) (w\<lparr>w_segments := [], w_stats := st\<rparr>, d1) = (Inr (), (?v, d'))"
    and f': "nd_files d' = (nd_files d1)(name_for (i + 1) \<mapsto> fresh_file (name_for (i + 1)))"
    and u': "nd_up d' = nd_up d1" and o': "files_ok d1 \<longrightarrow> files_ok d'"
    using open_segment_run [of d1 "i + 1" "w\<lparr>w_segments := [], w_stats := st\<rparr>"] clear by auto
  have "seg_rep d' (segment_new (i + 1)) ([], [])" using f' pos by (intro seg_rep_fresh) (simp_all add: word_neq_0_conv)
  moreover have "{n \<in> dom (nd_files d'). index_from_name n \<noteq> None} = {name_for (i + 1)}"
    using f' clear by auto
  ultimately have "wal_rep ?v d' [([], [])]"
    using rep u u' o o' by (simp add: wal_rep_def linked_def segment_new_def)
  moreover have "reset_to i (w, d) = (Inr (), (?v, d'))"
    using rem run by (simp add: reset_to_def io_bind_def)
  moreover have "wal_first_index ?v = i + 1" and "wal_last_index ?v = i"
    using pos by (simp_all add: wal_first_index_def wal_last_index_def segment_new_def sat_sub_one)
  ultimately show ?thesis by blast
qed

end
