(* ===== verification/Wal_Ops.thy ===== *)
theory Wal_Ops
  imports Wal_Rep "HOL-Library.Sublist"
begin

section \<open>The operations of the write-ahead log\<close>

text \<open>
  Each operation of the log against the list of entries it holds: an append adds the entries or
  leaves the log as it was, a truncation keeps the entries below an index, a sync makes every
  entry durable, a compaction drops whole segments from the front, and a read looks one up.
\<close>

subsection \<open>Truncation\<close>

lemma wal_next_pos: "wal_rep w d cs \<Longrightarrow> wal_last_index w + 1 \<noteq> 0"
proof
  assume rep: "wal_rep w d cs" and "wal_last_index w + 1 = 0"
  then have "unat (wal_last_index w + 1) = 0" by simp
  then show False using wal_rep_index(2,4) [OF rep] by (simp add: word_less_nat_alt)
qed

lemma wal_last_unat:
  assumes "wal_rep w d cs"
  shows "unat (wal_last_index w) + 1 = unat (wal_first_index w) + length (log_entries cs)"
  using unat_minus_one [OF wal_next_pos [OF assms]] wal_rep_index(2,4) [OF assms] by (simp add: word_less_nat_alt)

lemma wal_index_stats [simp]:
  "wal_last_index (w\<lparr>w_stats := st\<rparr>) = wal_last_index w" "wal_first_index (w\<lparr>w_stats := st\<rparr>) = wal_first_index w"
  by (simp_all add: wal_last_index_def wal_first_index_def)

lemma wal_rep_last_first:
  assumes "wal_rep w d (cs0 @ [c])" and "w_segments w = ss @ [s]" and "seg_rep d s c"
  shows "unat (sg_first s) = unat (wal_first_index w) + length (log_entries cs0)"
  using wal_rep_index(2) [OF assms(1)] seg_next(1) [OF seg_repD [OF assms(3)]] wal_last_index_snoc [OF assms(2)] by simp

lemma wal_rep_butlast:
  assumes rep: "wal_rep w d (cs0 @ [c])" and w: "w_segments w = ss @ [s]" "ss \<noteq> []"
    and d': "nd_files d' = (nd_files d)(sg_name s := None)" "nd_up d' = nd_up d" "files_ok d'"
  shows "wal_rep (w\<lparr>w_segments := ss, w_stats := st\<rparr>) d' cs0"
proof -
  have all: "list_all2 (seg_rep d) (ss @ [s]) (cs0 @ [c])" and l: "linked (ss @ [s]) (cs0 @ [c])"
    and names: "{n \<in> dom (nd_files d). index_from_name n \<noteq> None} = sg_name ` set (ss @ [s])"
    using rep w by (simp_all add: wal_rep_def)
  have len: "length ss = length cs0" using list_all2_lengthD [OF all] by simp
  have other: "sg_name t \<noteq> sg_name s" if "t \<in> set ss" for t
    using seg_names_distinct [OF all l] that by (auto simp: rev_image_eqI)
  have "list_all2 (seg_rep d) ss cs0" using all len by (simp add: list_all2_append)
  then have "list_all2 (seg_rep d') ss cs0" by (rule list_all2_seg_frame) (simp add: d'(1) other)
  moreover have "linked ss cs0" using l len by (simp add: linked_snoc)
  moreover have "{n \<in> dom (nd_files d'). index_from_name n \<noteq> None} = sg_name ` set ss"
  proof -
    have "{n \<in> dom (nd_files d'). index_from_name n \<noteq> None} = {n \<in> dom (nd_files d). index_from_name n \<noteq> None} - {sg_name s}"
      using d'(1) by auto
    then show ?thesis unfolding names using other by auto
  qed
  ultimately show ?thesis using rep w d' by (simp add: wal_rep_def)
qed

lemma wal_last_index_segs: "w_segments w = ss @ [s] \<Longrightarrow> wal_first_index w = sg_first (hd (ss @ [s]))"
  by (cases ss) (simp_all add: wal_first_index_def)

lemma pop_run:
  assumes "wal_rep w d cs" and "wal_first_index w < from"
  shows "\<exists>w' d' cs1 cs2. pop_segments from (rev (w_segments w)) (w, d) = (Inr (), (w', d')) \<and> cs = cs1 @ cs2 \<and>
    wal_rep w' d' cs1 \<and> wal_first_index w' = wal_first_index w \<and> sg_first (last (w_segments w')) < from \<and>
    (cs2 \<noteq> [] \<longrightarrow> from \<le> wal_last_index w' + 1)"
  using assms
proof (induction "w_segments w" arbitrary: w d cs rule: rev_induct)
  case Nil
  then show ?case by (simp add: wal_rep_def)
next
  case (snoc s ss)
  from snoc.prems(1) obtain cs0 c where cs: "cs = cs0 @ [c]" and len: "length ss = length cs0" and s: "seg_rep d s c"
    using snoc.hyps(2) [symmetric] by (elim wal_rep_snoc) simp
  note w = snoc.hyps(2) [symmetric]
  show ?case
  proof (cases "ss = [] \<or> sg_first s < from")
    case True
    then have "pop_segments from (rev (w_segments w)) (w, d) = (Inr (), (w, d))"
      unfolding w by (cases "rev ss") auto
    moreover have "sg_first s < from" using True w snoc.prems(2) by (auto simp: wal_last_index_segs)
    ultimately show ?thesis using snoc.prems(1) w
      by (intro exI [of _ w] exI [of _ d] exI [of _ cs] exI [of _ "[]"]) simp
  next
    case False
    then obtain t ts where r: "rev ss = t # ts" by (cases "rev ss") simp_all
    then have ss: "ss = rev ts @ [t]" by (metis rev.simps(2) rev_rev_ident)
    obtain d1 where rem: "remove_file (sg_name s) d = (Inr (), d1)" and d1: "nd_files d1 = (nd_files d)(sg_name s := None)"
      "nd_up d1 = nd_up d" "files_ok d \<longrightarrow> files_ok d1"
      using remove_file_run by blast
    let ?st = "(w_stats w)\<lparr>ws_segments_deleted := ws_segments_deleted (w_stats w) + 1\<rparr>"
    let ?w = "w\<lparr>w_segments := ss, w_stats := ?st\<rparr>"
    have rep1: "wal_rep ?w d1 cs0"
      using False d1 snoc.prems(1) cs w by (intro wal_rep_butlast [of w d cs0 c]) (simp_all add: wal_rep_def)
    have first: "wal_first_index ?w = wal_first_index w" using w ss by (cases "rev ts") (simp_all add: wal_first_index_def)
    have next1: "sg_first s = wal_last_index ?w + 1"
      using snoc.prems(1) w cs len False by (simp add: wal_rep_def linked_snoc wal_last_index_def)
    have "ss = w_segments ?w" "wal_first_index ?w < from" using first snoc.prems(2) by simp_all
    from snoc.hyps(1) [OF this(1) rep1 this(2)]
    obtain w' d' cs1 cs2 where run: "pop_segments from (rev (w_segments ?w)) (?w, d1) = (Inr (), (w', d'))"
      and cs0: "cs0 = cs1 @ cs2" and rep': "wal_rep w' d' cs1" and f': "wal_first_index w' = wal_first_index ?w"
      and lt: "sg_first (last (w_segments w')) < from" and le: "cs2 \<noteq> [] \<longrightarrow> from \<le> wal_last_index w' + 1"
      by blast
    have "pop_segments from (rev (w_segments w)) (w, d) = (Inr (), (w', d'))"
      using run rem False w r by (simp add: io_bind_on_disk butlast_append)
    moreover have "from \<le> wal_last_index w' + 1"
    proof (cases "cs2 = []")
      case True
      then have "wal_last_index w' = wal_last_index ?w"
        using wal_last_index_eq [OF rep1 rep'] f' cs0 by simp
      then show ?thesis using next1 False by (simp add: not_less)
    qed (use le in blast)
    ultimately show ?thesis using cs cs0 rep' f' first lt
      by (intro exI [of _ w'] exI [of _ d'] exI [of _ cs1] exI [of _ "cs2 @ [c]"]) simp
  qed
qed

lemma durable_prefix_log: "prefix (durable_entries cs) (log_entries cs)"
  by (induction cs rule: durable_entries.induct) auto

lemma durable_length: "\<not> list_all (\<lambda>c. snd c = []) cs \<Longrightarrow> length (durable_entries cs) < length (log_entries cs)"
  by (induction cs rule: durable_entries.induct) auto

lemma durable_append:
  "durable_entries (cs @ cs') = durable_entries cs @ (if list_all (\<lambda>c. snd c = []) cs then durable_entries cs' else [])"
  by (induction cs rule: durable_entries.induct) auto

lemma durable_cut:
  "prefix (take (length (log_entries cs0) + k) (durable_entries (cs0 @ c # cs2))) (durable_entries (cs0 @ [(take k (fst c @ snd c), [])]))"
  if "k \<le> length (fst c @ snd c)"
proof -
  obtain sy un where c: "c = (sy, un)" by (cases c)
  show ?thesis
  proof (cases "list_all (\<lambda>c. snd c = []) cs0")
    case True
    then have "durable_entries cs0 = log_entries cs0" by (rule durable_all_synced)
    moreover have "prefix (take k (durable_entries (c # cs2))) (take k (sy @ un))"
      using that c by (cases "un = []") (simp_all add: take_append)
    ultimately show ?thesis using True c by (simp add: durable_append)
  next
    case False
    from durable_length [OF this] show ?thesis using False by (simp add: durable_append)
  qed
qed

lemma consecutive_take: "consecutive i es \<Longrightarrow> consecutive i (take k es)"
proof (induction es arbitrary: i k)
  case (Cons e es)
  then show ?case by (cases k) simp_all
qed simp

lemma recs_take: "take (length (recs (take k es))) (recs es) = recs (take k es)"
proof -
  have "recs es = recs (take k es) @ recs (drop k es)" by (metis append_take_drop_id recs_simps(3))
  then show ?thesis by simp
qed

lemma seg_entries_ok_take:
  assumes "seg_entries_ok s es" and "0 < k" and "k \<le> length es"
  shows "seg_entries_ok (s\<lparr>sg_last := sg_first s + word_of_nat k - 1, sg_size := length (recs (take k es)),
    sg_offsets := take k (sg_offsets s), sg_dirty := b\<rparr>) (take k es)"
  using assms by (auto simp: seg_entries_ok_def consecutive_take take_running_offsets list_all_iff min_def dest: in_set_takeD)

text \<open>A file truncated and then synced holds exactly what is left of it.\<close>

lemma truncate_sync_run:
  assumes "nd_files d n = Some f" and "nd_up d" and "files_ok d"
  shows "\<exists>d1 d'. truncate_file n to d = (Inr (), d1) \<and> fsync n d1 = (Inr (), d') \<and> nd_up d' \<and> files_ok d' \<and>
    nd_files d' = (nd_files d)(n \<mapsto> f\<lparr>fs_view := take to (fs_view f), fs_durable := take to (fs_view f), fs_pending := []\<rparr>)"
proof -
  let ?f = "f\<lparr>fs_view := take to (fs_view f), fs_pending := fs_pending f @ [OpTruncate to]\<rparr>"
  let ?d1 = "(put_file d n ?f)\<lparr>nd_used := nd_used d - (length (fs_view f) - to)\<rparr>"
  have t: "truncate_file n to d = (Inr (), ?d1)" using assms(1) by (simp add: truncate_file_def Let_def)
  have ok1: "files_ok ?d1" using truncate_file_files_ok [OF assms(3), of n to] t by simp
  have f1: "nd_files ?d1 n = Some ?f" by (simp add: put_file_def)
  have up: "nd_up ?d1" using assms(2) by (simp add: put_file_def)
  have s: "fsync n ?d1 = (Inr (), put_file ?d1 n (?f\<lparr>fs_durable := fs_view ?f, fs_pending := []\<rparr>))"
    using files_ok_fileD [OF ok1 f1] f1 up by (rule fsync_durable)
  have "files_ok (put_file ?d1 n (?f\<lparr>fs_durable := fs_view ?f, fs_pending := []\<rparr>))"
    using fsync_files_ok [OF ok1, of n] s by simp
  then show ?thesis using t s up by (auto simp: put_file_def)
qed

lemma cut_run:
  assumes rep: "wal_rep w d cs" and lt: "sg_first (last (w_segments w)) < from"
  shows "\<exists>w' d' cs'. cut_segment from (w, d) = (Inr (), (w', d')) \<and> wal_rep w' d' cs' \<and>
    wal_first_index w' = wal_first_index w \<and>
    log_entries cs' = take (unat from - unat (wal_first_index w)) (log_entries cs) \<and>
    prefix (take (unat from - unat (wal_first_index w)) (durable_entries cs)) (durable_entries cs')"
proof -
  obtain ss s cs0 c where w: "w_segments w = ss @ [s]" and cs: "cs = cs0 @ [c]" and len: "length ss = length cs0"
    and s: "seg_rep d s c"
    using rep by (rule wal_rep_snoc)
  let ?es = "fst c @ snd c" and ?k = "unat from - unat (sg_first s)" and ?j = "unat from - unat (wal_first_index w)"
  have first: "unat (sg_first s) = unat (wal_first_index w) + length (log_entries cs0)"
    using rep s w cs by (intro wal_rep_last_first) simp_all
  have lt': "unat (sg_first s) < unat from" using lt w by (simp add: word_less_nat_alt)
  have j: "?j = length (log_entries cs0) + ?k" using first lt' by simp
  have last: "unat (sg_last s) + 1 = unat (sg_first s) + length ?es"
    using wal_last_unat [OF rep] wal_last_index_snoc [OF w] first cs by simp
  show ?thesis
  proof (cases "from \<le> sg_last s")
    case False
    then have "length (log_entries cs) \<le> ?j" using last j cs by (simp add: word_le_nat_alt)
    moreover have "length (durable_entries cs) \<le> length (log_entries cs)"
      using durable_prefix_log prefix_length_le by blast
    moreover have "cut_segment from (w, d) = (Inr (), (w, d))" using False w by (simp add: cut_segment_def)
    ultimately show ?thesis using rep by (intro exI [of _ w] exI [of _ d] exI [of _ cs]) simp
  next
    case True
    have k: "0 < ?k" "?k < length ?es" using True lt' last by (simp_all add: word_le_nat_alt)
    have keep: "unat (sat_sub from (sg_first s)) = ?k"
      using lt' by (simp add: sat_sub_def word_le_nat_alt unat_sub)
    have ok: "seg_entries_ok s ?es" using s by (rule seg_repD)
    have cut: "sg_offsets s ! ?k = length (recs (take ?k ?es))" and offs: "length (sg_offsets s) = length ?es"
      using ok k running_offsets_nth [of ?k ?es 0] by (simp_all add: seg_entries_ok_def)
    obtain f where f: "nd_files d (sg_name s) = Some f" and fr: "file_rep f (fst c) (snd c)" using s by (auto simp: seg_rep_def)
    have "nd_up d" "files_ok d" using rep by (simp_all add: wal_rep_def)
    from truncate_sync_run [OF f this, of "length (recs (take ?k ?es))"]
    obtain d1 d' where t: "truncate_file (sg_name s) (length (recs (take ?k ?es))) d = (Inr (), d1)"
      and y: "fsync (sg_name s) d1 = (Inr (), d')" and d': "nd_up d'" "files_ok d'"
      and files: "nd_files d' = (nd_files d)(sg_name s \<mapsto>
        f\<lparr>fs_view := take (length (recs (take ?k ?es))) (fs_view f), fs_durable := take (length (recs (take ?k ?es))) (fs_view f), fs_pending := []\<rparr>)"
      by blast
    let ?s = "s\<lparr>sg_last := sg_first s + word_of_nat ?k - 1, sg_size := length (recs (take ?k ?es)),
      sg_offsets := take ?k (sg_offsets s), sg_dirty := False\<rparr>"
    have "seg_entries_ok ?s (take ?k ?es)" using ok k by (intro seg_entries_ok_take) simp_all
    moreover have "file_rep (the (nd_files d' (sg_name s))) (take ?k ?es) []"
      using fr recs_take [of ?k ?es] by (simp add: file_rep_def files)
    ultimately have "seg_rep d' ?s (take ?k ?es, [])" by (simp add: seg_rep_def files)
    then have rep': "wal_rep (w\<lparr>w_segments := ss @ [?s], w_stats := st\<rparr>) d' (cs0 @ [(take ?k ?es, [])])" for st
      using rep w len cs d' files by (intro wal_rep_update [where s = s and d = d and c = c]) simp_all
    let ?w = "w\<lparr>w_segments := ss @ [?s], w_stats := (w_stats w)\<lparr>ws_fsyncs := ws_fsyncs (w_stats w) + 1\<rparr>\<rparr>"
    have "cut_segment from (w, d) = (Inr (), (?w, d'))"
      using True w keep k cut offs t y
      by (simp add: cut_segment_def Let_def io_bind_on_disk update_last_snoc)
    moreover have "wal_first_index ?w = wal_first_index w" using w by (cases ss) (simp_all add: wal_first_index_def)
    moreover have "log_entries (cs0 @ [(take ?k ?es, [])]) = take ?j (log_entries cs)"
      using j k cs by simp
    moreover have "prefix (take ?j (durable_entries cs)) (durable_entries (cs0 @ [(take ?k ?es, [])]))"
      using durable_cut [of ?k c cs0 "[]"] j k cs by simp
    ultimately show ?thesis using rep' by blast
  qed
qed

lemma take_durable_append:
  assumes "n \<le> length (log_entries cs)"
  shows "take n (durable_entries (cs @ cs')) = take n (durable_entries cs)"
  using assms by (simp add: durable_append durable_all_synced)

lemma truncate_from_run:
  assumes rep: "wal_rep w d cs" and pos: "from \<noteq> 0"
  shows "\<exists>w' d' cs'. wal_truncate_from from (w, d) = (Inr (), (w', d')) \<and> wal_rep w' d' cs' \<and>
    log_entries cs' = take (unat from - unat (wal_first_index w)) (log_entries cs) \<and>
    prefix (take (unat from - unat (wal_first_index w)) (durable_entries cs)) (durable_entries cs') \<and>
    wal_first_index w' = (if from \<le> wal_last_index w \<and> from \<le> wal_first_index w then from else wal_first_index w)"
proof -
  let ?j = "unat from - unat (wal_first_index w)"
  consider "wal_last_index w < from" | "from \<le> wal_last_index w" "from \<le> wal_first_index w"
    | "from \<le> wal_last_index w" "wal_first_index w < from"
    by (meson not_less)
  then show ?thesis
  proof cases
    case 1
    then have "length (log_entries cs) \<le> ?j" using wal_last_unat [OF rep] by (simp add: word_less_nat_alt)
    moreover have "length (durable_entries cs) \<le> length (log_entries cs)"
      using durable_prefix_log prefix_length_le by blast
    moreover have "wal_truncate_from from (w, d) = (Inr (), (w, d))" using 1 by (simp add: wal_truncate_from_def)
    ultimately show ?thesis using rep 1 by (intro exI [of _ w] exI [of _ d] exI [of _ cs]) (auto simp: not_le)
  next
    case 2
    then have "?j = 0" by (simp add: word_le_nat_alt)
    moreover obtain w' d' where "reset_to (from - 1) (w, d) = (Inr (), (w', d'))" "wal_rep w' d' [([], [])]"
      "wal_first_index w' = from"
      using reset_to_run [OF rep, of "from - 1"] pos by auto
    moreover have "wal_truncate_from from (w, d) = reset_to (from - 1) (w, d)"
      using 2 pos by (auto simp: wal_truncate_from_def sat_sub_one)
    ultimately show ?thesis using 2 by (intro exI [of _ w'] exI [of _ d'] exI [of _ "[([], [])]"]) simp
  next
    case 3
    let ?w = "w\<lparr>w_stats := (w_stats w)\<lparr>ws_truncations := ws_truncations (w_stats w) + 1\<rparr>\<rparr>"
    have f0: "wal_first_index ?w = wal_first_index w" by (simp add: wal_first_index_def)
    have "wal_rep ?w d cs" "wal_first_index ?w < from" using rep 3 f0 by simp_all
    from pop_run [OF this] obtain w1 d1 cs1 cs2 where
      pop: "pop_segments from (rev (w_segments w)) (?w, d) = (Inr (), (w1, d1))" and cs: "cs = cs1 @ cs2"
      and rep1: "wal_rep w1 d1 cs1" and f1: "wal_first_index w1 = wal_first_index w"
      and lt: "sg_first (last (w_segments w1)) < from" and le: "cs2 \<noteq> [] \<longrightarrow> from \<le> wal_last_index w1 + 1"
      using f0 by auto
    from cut_run [OF rep1 lt] obtain w' d' cs' where cut: "cut_segment from (w1, d1) = (Inr (), (w', d'))"
      and rep': "wal_rep w' d' cs'" and f': "wal_first_index w' = wal_first_index w"
      and log: "log_entries cs' = take ?j (log_entries cs1)" and dur: "prefix (take ?j (durable_entries cs1)) (durable_entries cs')"
      unfolding f1 by blast
    have "?j \<le> length (log_entries cs1)" if "cs2 \<noteq> []"
      using le that wal_rep_index(2) [OF rep1] f1 by (simp add: word_le_nat_alt)
    then have "take ?j (log_entries cs) = take ?j (log_entries cs1)"
      and "take ?j (durable_entries cs) = take ?j (durable_entries cs1)"
      using cs by (cases "cs2 = []"; simp add: take_durable_append)+
    moreover have "wal_truncate_from from (w, d) = (Inr (), (w', d'))"
    proof -
      have "(wal_last_index w < from) = False" "(from \<le> wal_first_index w) = False" using 3 by auto
      then show ?thesis using pop cut by (simp add: wal_truncate_from_def) (simp add: io_bind_def)
    qed
    ultimately show ?thesis using rep' f' log dur 3 by (auto simp: not_le)
  qed
qed

subsection \<open>Appending\<close>

text \<open>What may be appended: records that fit, with the indices that follow, short of the end of the index space.\<close>

definition appendable :: "wal \<Rightarrow> entry list \<Rightarrow> bool" where
  "appendable w es \<longleftrightarrow> list_all rec_ok es \<and> consecutive (wal_last_index w + 1) es \<and>
     unat (wal_last_index w + 1) + length es < 2 ^ 64"

lemma wal_append_run:
  assumes rep: "wal_rep w d cs" and es: "appendable w es"
  shows "\<exists>r w' d' cs'. wal_append quota es (w, d) = (r, (w', d')) \<and> wal_rep w' d' cs' \<and>
    wal_first_index w' = wal_first_index w \<and>
    (r = Inr () \<and> log_step cs es cs' \<or>
     r = Inl DiskFull \<and> log_entries cs' = log_entries cs \<and> prefix (durable_entries cs) (durable_entries cs'))"
proof (cases "es = []")
  case True
  then show ?thesis using rep by (auto simp: wal_append_def log_step_def)
next
  case False
  have ok: "list_all rec_ok es" "consecutive (wal_last_index w + 1) es" "unat (wal_last_index w + 1) + length es < 2 ^ 64"
    using es by (simp_all add: appendable_def)
  let ?w = "w\<lparr>w_stats := (w_stats w)\<lparr>ws_appends := ws_appends (w_stats w) + 1\<rparr>\<rparr>"
  have inner: "append_inner quota es (w, d) = append_entries quota es (?w, d)" by (simp add: append_inner_def)
  have "wal_rep ?w d cs" using rep by simp
  moreover have "consecutive (wal_last_index ?w + 1) es" "unat (wal_last_index ?w + 1) + length es < 2 ^ 64" using ok by simp_all
  ultimately obtain r w1 d1 cs1 where
    run: "append_entries quota es (?w, d) = (r, (w1, d1))" and rep1: "wal_rep w1 d1 cs1"
    and f1: "wal_first_index w1 = wal_first_index w"
    and alt: "r = Inr () \<and> log_step cs es cs1 \<or> r = Inl DiskFull \<and> (\<exists>n < length es. log_step cs (take n es) cs1)"
    using append_entries_cases [of ?w d cs es quota] ok(1) by (simp only: wal_index_stats) blast
  from alt show ?thesis
  proof (elim disjE conjE exE)
    assume "r = Inr ()" "log_step cs es cs1"
    then show ?thesis using run rep1 f1 inner False by (auto simp: wal_append_def)
  next
    fix n assume r: "r = Inl DiskFull" and step: "log_step cs (take n es) cs1"
    let ?from = "wal_last_index w + 1"
    have u: "unat ?from = unat (wal_first_index w) + length (log_entries cs)" by (rule wal_rep_index(2) [OF rep])
    from truncate_from_run [OF rep1 wal_next_pos [OF rep]] obtain w' d' cs' where
      t: "wal_truncate_from ?from (w1, d1) = (Inr (), (w', d'))" and rep': "wal_rep w' d' cs'"
      and log: "log_entries cs' = take (length (log_entries cs)) (log_entries cs1)"
      and dur: "prefix (take (length (log_entries cs)) (durable_entries cs1)) (durable_entries cs')"
      and f': "wal_first_index w' = (if ?from \<le> wal_last_index w1 \<and> ?from \<le> wal_first_index w1 then ?from else wal_first_index w1)"
      unfolding f1 u by auto
    have "wal_first_index w' = wal_first_index w" using f' f1 u by (auto simp: word_le_nat_alt word_unat_eq_iff)
    moreover have "log_entries cs' = log_entries cs" using log step by (simp add: log_step_def)
    moreover have "prefix (durable_entries cs) (durable_entries cs')"
      using dur step prefix_length_le [OF durable_prefix_log [of cs]] by (simp add: log_step_def)
    ultimately show ?thesis using run r inner t rep' False by (auto simp: wal_append_def)
  qed
qed

subsection \<open>The barrier\<close>

lemma log_entries_update:
  "i < length cs \<Longrightarrow> fst c @ snd c = fst (cs ! i) @ snd (cs ! i) \<Longrightarrow> log_entries (cs[i := c]) = log_entries cs"
  using list_update_id [of "map (\<lambda>c. fst c @ snd c) cs" i] by (simp add: log_entries_def map_update)

lemma wal_rep_nth_update:
  assumes rep: "wal_rep w d cs" and i: "i < length (w_segments w)"
    and c: "fst c @ snd c = fst (cs ! i) @ snd (cs ! i)"
    and s: "sg_name s = sg_name (w_segments w ! i)" "sg_first s = sg_first (w_segments w ! i)" "sg_last s = sg_last (w_segments w ! i)"
    and new: "seg_rep d' s c" and d': "nd_up d'" "files_ok d'"
    and other: "\<And>n. n \<noteq> sg_name s \<Longrightarrow> nd_files d' n = nd_files d n"
  shows "wal_rep (w\<lparr>w_segments := (w_segments w)[i := s]\<rparr>) d' (cs[i := c])"
proof -
  let ?ss = "w_segments w"
  have all: "list_all2 (seg_rep d) ?ss cs" and l: "linked ?ss cs"
    and names: "{n \<in> dom (nd_files d). index_from_name n \<noteq> None} = sg_name ` set ?ss"
    using rep by (simp_all add: wal_rep_def)
  note len = list_all2_lengthD [OF all]
  have dist: "sg_name (?ss ! j) \<noteq> sg_name s" if "j < length ?ss" "j \<noteq> i" for j
    using nth_eq_iff_index_eq [OF seg_names_distinct [OF all l], of j i] that i s by simp
  have "list_all2 (seg_rep d') (?ss[i := s]) (cs[i := c])"
    unfolding list_all2_conv_all_nth
  proof (intro conjI allI impI)
    fix j assume j: "j < length (?ss[i := s])"
    show "seg_rep d' (?ss[i := s] ! j) (cs[i := c] ! j)"
    proof (cases "j = i")
      case False
      then have "seg_rep d (?ss ! j) (cs ! j)" and "nd_files d' (sg_name (?ss ! j)) = nd_files d (sg_name (?ss ! j))"
        using all j dist other by (simp_all add: list_all2_nthD)
      then show ?thesis unfolding nth_list_update_neq [OF False [symmetric]] using seg_rep_frame by blast
    qed (use new i len in simp)
  qed (simp add: len)
  moreover have "linked (?ss[i := s]) (cs[i := c])"
    using l c s i len by (simp add: linked_def nth_list_update del: append_is_Nil_conv)
  moreover have "map sg_name (?ss[i := s]) = map sg_name ?ss"
    using s i by (simp add: map_update list_update_same_conv)
  then have "sg_name ` set (?ss[i := s]) = sg_name ` set ?ss" by (metis set_map)
  moreover have "dom (nd_files d') = dom (nd_files d)"
  proof -
    have "nd_files d (sg_name s) \<noteq> None" using list_all2_nthD [OF all i] unfolding s(1) seg_rep_def by blast
    moreover have "nd_files d' (sg_name s) \<noteq> None" using new unfolding seg_rep_def by blast
    ultimately show ?thesis using other unfolding dom_def by (intro Collect_cong) metis
  qed
  ultimately show ?thesis using rep d' names unfolding wal_rep_def by simp
qed

lemma sync_segments_run:
  assumes "wal_rep w d cs" and "k \<le> length (w_segments w)"
    and "list_all (\<lambda>c. snd c = []) (take (length cs - k) cs)"
  shows "\<exists>b w' d' cs'. sync_segments k sy (w, d) = (Inr b, (w', d')) \<and> wal_rep w' d' cs' \<and>
    list_all (\<lambda>c. snd c = []) cs' \<and> log_entries cs' = log_entries cs \<and> wal_first_index w' = wal_first_index w"
  using assms
proof (induction k arbitrary: w d cs sy)
  case 0
  then show ?case by (intro exI [of _ sy] exI [of _ w] exI [of _ d] exI [of _ cs]) (simp add: io_return_def)
next
  case (Suc k)
  let ?i = "length (w_segments w) - Suc k"
  let ?s = "w_segments w ! ?i"
  have len: "length (w_segments w) = length cs" using Suc.prems(1) by (auto simp: wal_rep_def dest: list_all2_lengthD)
  have i: "?i < length (w_segments w)" "length cs - k = Suc ?i" using Suc.prems(2) len by simp_all
  have all: "list_all2 (seg_rep d) (w_segments w) cs" using Suc.prems(1) by (simp add: wal_rep_def)
  have s: "seg_rep d ?s (cs ! ?i)" by (rule list_all2_nthD [OF all i(1)])
  let ?c = "(fst (cs ! ?i) @ snd (cs ! ?i), [])"
  have done': "list_all (\<lambda>c. snd c = []) (take (length cs - k) (cs[?i := c]))" if "snd c = []" for c
    using Suc.prems(3) that i len by (simp add: take_Suc_conv_app_nth take_update_swap list_update_append)
  show ?case
  proof (cases "sg_dirty ?s")
    case False
    then have "snd (cs ! ?i) = []" using s by (simp add: seg_rep_def)
    then have "list_all (\<lambda>c. snd c = []) (take (length cs - k) cs)" using done' [of "cs ! ?i"] by simp
    with Suc.IH [OF Suc.prems(1), of sy] Suc.prems(2) False show ?thesis by (simp add: Let_def)
  next
    case True
    obtain f where f: "nd_files d (sg_name ?s) = Some f" and fr: "file_rep f (fst (cs ! ?i)) (snd (cs ! ?i))"
      using s by (auto simp: seg_rep_def)
    have up: "nd_up d" and ok: "files_ok d" using Suc.prems(1) by (simp_all add: wal_rep_def)
    let ?d = "put_file d (sg_name ?s) (f\<lparr>fs_durable := fs_view f, fs_pending := []\<rparr>)"
    have y: "fsync (sg_name ?s) d = (Inr (), ?d)" using files_ok_fileD [OF ok f] f up by (rule fsync_durable)
    have ok': "files_ok ?d" using fsync_files_ok [OF ok, of "sg_name ?s"] y by simp
    have "seg_rep ?d (?s\<lparr>sg_dirty := False\<rparr>) ?c"
      using s fr by (simp add: seg_rep_def put_file_def file_rep_def)
    then have rep: "wal_rep (w\<lparr>w_segments := (w_segments w)[?i := ?s\<lparr>sg_dirty := False\<rparr>]\<rparr>) ?d (cs[?i := ?c])"
      using up ok' i(1) by (intro wal_rep_nth_update [OF Suc.prems(1)]) (simp_all add: put_file_def)
    let ?w = "w\<lparr>w_segments := (w_segments w)[?i := ?s\<lparr>sg_dirty := False\<rparr>]\<rparr>"
    have first: "wal_first_index ?w = wal_first_index w"
      using i by (cases "w_segments w"; cases ?i) (simp_all add: wal_first_index_def)
    have "sync_segments (Suc k) sy (w, d) = sync_segments k True (?w, ?d)"
      using True y by (simp add: Let_def io_bind_on_disk)
    with Suc.IH [OF rep, of True] Suc.prems(2) done' [of ?c] i len first show ?thesis
      by (simp add: log_entries_update)
  qed
qed

lemma wal_sync_run:
  assumes "wal_rep w d cs"
  shows "\<exists>w' d' cs'. wal_sync (w, d) = (Inr (), (w', d')) \<and> wal_rep w' d' cs' \<and>
    durable_entries cs' = log_entries cs \<and> log_entries cs' = log_entries cs \<and> wal_first_index w' = wal_first_index w"
proof -
  have "length (w_segments w) = length cs" using assms by (auto simp: wal_rep_def dest: list_all2_lengthD)
  with sync_segments_run [OF assms, of "length (w_segments w)" False] obtain b w1 d1 cs1 where
    run: "sync_segments (length (w_segments w)) False (w, d) = (Inr b, (w1, d1))" and rep: "wal_rep w1 d1 cs1"
    and all: "list_all (\<lambda>c. snd c = []) cs1" and log: "log_entries cs1 = log_entries cs"
    and first: "wal_first_index w1 = wal_first_index w"
    by auto
  have dur: "durable_entries cs1 = log_entries cs" using durable_all_synced [OF all] log by simp
  have "wal_sync (w, d) = (if b then bump_stats (\<lambda>t. t\<lparr>ws_fsyncs := ws_fsyncs t + 1\<rparr>) else io_return ()) (w1, d1)"
    using run by (simp add: wal_sync_def io_bind_def)
  then show ?thesis using rep log dur first by (cases b) auto
qed

subsection \<open>Reading one entry\<close>

definition log_at :: "wal \<Rightarrow> entry list \<Rightarrow> index \<Rightarrow> entry option" where
  "log_at w es i = (let a = unat (wal_first_index w) in
     if a \<le> unat i \<and> unat i < a + length es then Some (es ! (unat i - a)) else None)"

lemma read_at_run:
  assumes "nd_files d n = Some f" and "fs_view f = pre @ mid @ post"
  shows "read_at n (length pre) (length mid) d = (Inr mid, d)"
  using assms by (simp add: read_at_def Let_def)

lemma recs_split: "k < length es \<Longrightarrow> recs es = recs (take k es) @ rec_bytes (es ! k) @ recs (drop (Suc k) es)"
  by (metis id_take_nth_drop recs_simps(2,3))

lemma frame_length [simp]: "length (wal_frame b) = HEADER + length b"
  by (simp add: wal_frame_def HEADER_def)

lemma read_record:
  assumes "nd_files d n = Some f" and "fs_view f = recs es" and "k < length es" and "rec_ok (es ! k)"
  defines "at \<equiv> length (recs (take k es))" and "b \<equiv> entry_to_bytes (es ! k)"
  shows "read_at n at HEADER d = (Inr (take HEADER (wal_frame b)), d)"
    and "read_at n (at + HEADER) (length b) d = (Inr b, d)"
proof -
  have view: "fs_view f = recs (take k es) @ wal_frame b @ recs (drop (Suc k) es)"
    using assms(2) recs_split [OF assms(3)] by (simp add: b_def rec_bytes_def)
  then have "fs_view f = recs (take k es) @ take HEADER (wal_frame b) @ drop HEADER (wal_frame b) @ recs (drop (Suc k) es)"
    by (metis append_assoc append_take_drop_id)
  moreover have "length (take HEADER (wal_frame b)) = HEADER" by simp
  ultimately show "read_at n at HEADER d = (Inr (take HEADER (wal_frame b)), d)"
    using read_at_run [OF assms(1)] unfolding at_def by metis
  have "wal_frame b = take HEADER (wal_frame b) @ b" by (simp add: wal_frame_def HEADER_def)
  then have "fs_view f = (recs (take k es) @ take HEADER (wal_frame b)) @ b @ recs (drop (Suc k) es)"
    using view by (metis append_assoc)
  moreover have "length (recs (take k es) @ take HEADER (wal_frame b)) = at + HEADER" by (simp add: at_def)
  ultimately show "read_at n (at + HEADER) (length b) d = (Inr b, d)"
    using read_at_run [OF assms(1)] by metis
qed

lemma header_prefix: "HEADER \<le> length buf \<Longrightarrow> header_len (take HEADER buf) = header_len buf" 
  "HEADER \<le> length buf \<Longrightarrow> header_crc (take HEADER buf) = header_crc buf"
  by (simp_all add: header_len_def header_crc_def HEADER_def drop_take)

lemma seg_last_unat:
  assumes "seg_entries_ok s es"
  shows "unat (sg_last s) + 1 = unat (sg_first s) + length es"
proof -
  have "0 < unat (sg_last s + 1)" using seg_next(1) [OF assms] assms by (simp add: seg_entries_ok_def word_less_nat_alt)
  then have "sg_last s + 1 \<noteq> 0" by (metis less_irrefl unat_0)
  from unat_minus_one [OF this] show ?thesis using seg_next(1) [OF assms] \<open>0 < unat (sg_last s + 1)\<close> by simp
qed

text \<open>A segment of the disk and all the entries it holds.\<close>

definition seg_holds :: "node_disk \<Rightarrow> segment \<Rightarrow> entry list \<Rightarrow> bool" where
  "seg_holds d s es \<longleftrightarrow> (\<exists>sy un. seg_rep d s (sy, un) \<and> es = sy @ un)"

lemma find_segment:
  fixes i :: index
  assumes "list_all2 (seg_rep d) ss cs" and "linked ss cs" and "ss \<noteq> []"
  defines "P \<equiv> \<lambda>s. \<not> seg_is_empty s \<and> i \<ge> sg_first s \<and> i \<le> sg_last s"
  shows "if unat (sg_first (hd ss)) \<le> unat i \<and> unat i < unat (sg_first (hd ss)) + length (log_entries cs)
    then \<exists>s es. find P ss = Some s \<and> seg_holds d s es \<and> unat (sg_first s) \<le> unat i \<and>
      unat i - unat (sg_first s) < length es \<and>
      log_entries cs ! (unat i - unat (sg_first (hd ss))) = es ! (unat i - unat (sg_first s))
    else find P ss = None"
  using assms(1-3)
proof (induction ss cs rule: list_all2_induct)
  case (Cons s ss c cs)
  define es where "es = fst c @ snd c"
  have h: "seg_holds d s es" using \<open>seg_rep d s c\<close> by (cases c) (auto simp: seg_holds_def es_def)
  have ok: "seg_entries_ok s es" unfolding es_def using \<open>seg_rep d s c\<close> by (rule seg_repD)
  have log: "log_entries (c # cs) = es @ log_entries cs" by (simp add: es_def)
  have P: "P s \<longleftrightarrow> unat (sg_first s) \<le> unat i \<and> unat i < unat (sg_first s) + length es"
    using seg_last_unat [OF ok] by (simp add: P_def seg_is_empty_def word_le_nat_alt word_less_nat_alt) linarith
  show ?case
  proof (cases "P s")
    case True
    then show ?thesis unfolding log using P h by (auto simp: nth_append intro!: exI [of _ es])
  next
    case False
    show ?thesis
    proof (cases ss)
      case Nil
      then show ?thesis unfolding log using Cons.hyps False P by auto
    next
      case (Cons s' ss')
      have "sg_first s' = sg_last s + 1" using Cons.prems(1) [unfolded linked_def, rule_format, of 0] Cons by simp
      then have s': "unat (sg_first (hd ss)) = unat (sg_first s) + length es" using seg_next(1) [OF ok] Cons by simp
      have "linked ss cs" "ss \<noteq> []" using linked_Cons [OF Cons.prems(1)] Cons by simp_all
      from Cons.IH [OF this] show ?thesis
        unfolding log s' using False P by (auto simp: nth_append not_less diff_diff_left)
    qed
  qed
qed simp

lemma wal_read_run:
  assumes rep: "wal_rep w d cs"
  shows "wal_read i (w, d) = (Inr (log_at w (log_entries cs) i), (w, d))"
proof -
  have all: "list_all2 (seg_rep d) (w_segments w) cs" and l: "linked (w_segments w) cs" and ne: "w_segments w \<noteq> []"
    using rep by (simp_all add: wal_rep_def)
  have first: "sg_first (hd (w_segments w)) = wal_first_index w" using ne by (cases "w_segments w") (simp_all add: wal_first_index_def)
  note found = find_segment [OF all l ne, of i, unfolded first]
  show ?thesis
  proof (cases "unat (wal_first_index w) \<le> unat i \<and> unat i < unat (wal_first_index w) + length (log_entries cs)")
    case False
    then show ?thesis using found unfolding if_not_P [OF False] by (simp add: wal_read_def log_at_def Let_def)
  next
    case True
    let ?e = "log_entries cs ! (unat i - unat (wal_first_index w))"
    obtain s es where f: "find (\<lambda>s. \<not> seg_is_empty s \<and> i \<ge> sg_first s \<and> i \<le> sg_last s) (w_segments w) = Some s"
      and h: "seg_holds d s es" and le: "unat (sg_first s) \<le> unat i" and k: "unat i - unat (sg_first s) < length es"
      and e: "?e = es ! (unat i - unat (sg_first s))"
      using found unfolding if_P [OF True] by blast
    define k where "k = unat i - unat (sg_first s)"
    obtain fl where fl: "nd_files d (sg_name s) = Some fl" "fs_view fl = recs es" and ok: "seg_entries_ok s es"
      using h by (auto simp: seg_holds_def seg_rep_def file_rep_def)
    have slot: "unat (i - sg_first s) = k" using le by (simp add: k_def unat_sub word_le_nat_alt)
    have r: "rec_ok (es ! k)" and off: "sg_offsets s ! k = length (recs (take k es))" "length (sg_offsets s) = length es"
      using ok k running_offsets_nth [of k es 0] by (simp_all add: k_def seg_entries_ok_def list_all_length)
    let ?b = "entry_to_bytes (es ! k)"
    have len: "length ?b \<le> unat MAX_RECORD" using r by (simp add: rec_ok_def)
    note u = length_take_le [OF len]
    have hd: "header_len (take HEADER (wal_frame ?b)) = word_of_nat (length ?b)" "header_crc (take HEADER (wal_frame ?b)) = crc32c ?b"
      using header_frame(1,2) [OF len, of "[]"] by (simp_all add: header_prefix)
    have nz: "(word_of_nat (length ?b) :: u32) \<noteq> 0" 
    proof
      assume "(word_of_nat (length ?b) :: u32) = 0"
      then have "length ?b = 0" using u by simp
      then show False by simp
    qed
    have le_max: "\<not> (word_of_nat (length ?b) :: u32) > MAX_RECORD" using len u by (simp add: word_less_nat_alt not_less)
    have dec: "entry_decode (r_new ?b) = Inr (es ! k, \<lparr>rbuf = ?b, rpos = length ?b\<rparr>)"
      using parsesD [OF parses_entry, of "es ! k" "[]" "[]"] r by (simp add: rec_ok_def r_new_def)
    have rd: "read_at (sg_name s) (length (recs (take k es))) HEADER d = (Inr (take HEADER (wal_frame ?b)), d)"
      "read_at (sg_name s) (length (recs (take k es)) + HEADER) (length ?b) d = (Inr ?b, d)"
      using fl k r unfolding k_def [symmetric] by (rule read_record)+
    have "wal_read i (w, d) = (Inr (Some (es ! k)), (w, d))"
      unfolding wal_read_def prod.case f option.case Let_def slot off
      using rd hd nz le_max dec u k by (simp add: k_def [symmetric] not_le)
    then show ?thesis using True e by (simp add: log_at_def Let_def k_def)
  qed
qed

subsection \<open>Compaction\<close>

lemma compact_keep_bound:
  "ss \<noteq> [] \<Longrightarrow> compact_keep opts tot through freed ss < length ss"
  "s \<in> set (take (compact_keep opts tot through freed ss) ss) \<Longrightarrow> sg_last s < through"
  by (induction opts tot through freed ss rule: compact_keep.induct) (auto split: if_splits)

lemma linked_drop: "linked ss cs \<Longrightarrow> length ss = length cs \<Longrightarrow> linked (drop k ss) (drop k cs)"
  by (simp add: linked_def)

lemma seg_index_le:
  assumes "seg_entries_ok s es" and "e \<in> set es"
  shows "e_index e \<le> sg_last s"
proof -
  obtain k where k: "k < length es" and e: "e = es ! k" using assms(2) by (metis in_set_conv_nth)
  have ok: "consecutive (sg_first s) (take (Suc k) es)" using assms(1) by (simp add: seg_entries_ok_def consecutive_take)
  have "e_index e = sg_first s + word_of_nat k"
    using consecutive_last [OF ok] k e by (simp add: take_Suc_conv_app_nth)
  moreover have "unat (sg_first s + word_of_nat k) = unat (sg_first s) + k"
    using assms(1) k by (intro unat_plus_nat) (simp add: seg_entries_ok_def)
  ultimately show ?thesis using seg_last_unat [OF assms(1)] k by (simp add: word_le_nat_alt)
qed

lemma wal_compact_run:
  assumes rep: "wal_rep w d cs"
  shows "\<exists>w' d' k. wal_compact_through through (w, d) = (Inr (), (w', d')) \<and> wal_rep w' d' (drop k cs) \<and>
    k < length cs \<and> (\<forall>e \<in> set (log_entries (take k cs)). e_index e < through) \<and> wal_last_index w' = wal_last_index w"
proof -
  let ?ss = "w_segments w" and ?k = "compact_keep (w_opts w) (total_bytes w) through 0 (w_segments w)"
  have all: "list_all2 (seg_rep d) ?ss cs" and l: "linked ?ss cs" and ne: "?ss \<noteq> []"
    and names: "{n \<in> dom (nd_files d). index_from_name n \<noteq> None} = sg_name ` set ?ss"
    using rep by (simp_all add: wal_rep_def)
  note len = list_all2_lengthD [OF all]
  have k: "?k < length ?ss" using compact_keep_bound(1) ne by blast
  have split: "sg_name ` set (drop ?k ?ss) = sg_name ` set ?ss - sg_name ` set (take ?k ?ss)"
    "sg_name ` set (drop ?k ?ss) \<inter> sg_name ` set (take ?k ?ss) = {}"
  proof -
    have "distinct (map sg_name (take ?k ?ss @ drop ?k ?ss))" using seg_names_distinct [OF all l] by simp
    then show dis: "sg_name ` set (drop ?k ?ss) \<inter> sg_name ` set (take ?k ?ss) = {}"
      unfolding map_append distinct_append by auto
    have "set ?ss = set (take ?k ?ss) \<union> set (drop ?k ?ss)" by (metis append_take_drop_id set_append)
    then show "sg_name ` set (drop ?k ?ss) = sg_name ` set ?ss - sg_name ` set (take ?k ?ss)" using dis by auto
  qed
  obtain st d1 where rem: "remove_segments (take ?k ?ss) (w\<lparr>w_segments := drop ?k ?ss\<rparr>, d) =
      (Inr (), (w\<lparr>w_segments := drop ?k ?ss, w_stats := st\<rparr>, d1))"
    and f: "nd_files d1 = (\<lambda>n. if n \<in> sg_name ` set (take ?k ?ss) then None else nd_files d n)"
    and u: "nd_up d1 = nd_up d" and o: "files_ok d \<longrightarrow> files_ok d1"
    using remove_segments_run [of "take ?k ?ss" "w\<lparr>w_segments := drop ?k ?ss\<rparr>" d] by auto
  let ?w = "w\<lparr>w_segments := drop ?k ?ss, w_stats := st\<rparr>"
  have "list_all2 (seg_rep d) (drop ?k ?ss) (drop ?k cs)" using all by (rule list_all2_dropI)
  then have "list_all2 (seg_rep d1) (drop ?k ?ss) (drop ?k cs)"
    by (rule list_all2_seg_frame) (use f split(2) in auto)
  moreover have "{n \<in> dom (nd_files d1). index_from_name n \<noteq> None} = sg_name ` set (drop ?k ?ss)"
    unfolding split(1) names [symmetric] using f by (auto split: if_splits)
  ultimately have rep': "wal_rep ?w d1 (drop ?k cs)"
    using rep k u o linked_drop [OF l len] by (simp add: wal_rep_def)
  have "wal_compact_through through (w, d) = (Inr (), (?w, d1))"
    using rem by (simp add: wal_compact_through_def Let_def io_bind_def on_disk_def sync_dir_def)
  moreover have "e_index e < through" if e: "e \<in> set (log_entries (take ?k cs))" for e
  proof -
    obtain i where i: "i < ?k" "i < length cs" and e: "e \<in> set (fst (cs ! i) @ snd (cs ! i))"
      using e by (auto simp: log_entries_def in_set_conv_nth [of _ "take ?k cs"])
    have "e_index e \<le> sg_last (?ss ! i)"
      using seg_index_le [OF seg_repD [OF list_all2_nthD [OF all]]] i e len by simp
    moreover have "?ss ! i \<in> set (take ?k ?ss)" using i len by (auto simp: in_set_conv_nth)
    ultimately show ?thesis using compact_keep_bound(2) by (meson order_le_less_trans)
  qed
  moreover have "wal_last_index ?w = wal_last_index w" using k ne by (simp add: wal_last_index_def)
  ultimately show ?thesis using rep' k len by auto
qed

end
