(* ===== verification/Wal_Recovery.thy ===== *)
theory Wal_Recovery
  imports Wal_Ops
begin

section \<open>Recovery of the write-ahead log\<close>

text \<open>
  What a node finds when it opens its log after a power cut. The files are related to those
  before the cut by everything that may happen to unsynced operations, so the theorems hold for
  every fault policy and every seed.
\<close>

subsection \<open>What a power loss leaves of a segment\<close>

fun op_from :: "pending_op \<Rightarrow> nat" where
  "op_from (OpWrite off data) = off"
| "op_from (OpTruncate to) = to"

lemma land_take:
  assumes "n \<le> length buf" and "n \<le> op_from op"
  shows "take n (land fate op buf) = take n buf \<and> n \<le> length (land fate op buf)"
proof (cases op)
  case (OpWrite off data)
  then show ?thesis using assms by (cases fate) (simp_all add: take_splice le_max_iff_disj)
next
  case (OpTruncate to)
  then show ?thesis using assms by (cases fate) (simp_all add: min_absorb1)
qed

lemma outcomes_take:
  "buf' \<in> outcomes ops buf \<Longrightarrow> n \<le> length buf \<Longrightarrow> \<forall>op \<in> set ops. n \<le> op_from op \<Longrightarrow>
   take n buf' = take n buf \<and> n \<le> length buf'"
proof (induction ops arbitrary: buf)
  case (Cons op ops)
  then obtain fate where "buf' \<in> outcomes ops (land fate op buf)" by auto
  with Cons show ?case using land_take [of n buf op fate] by simp
qed simp

lemma record_writes_from: "op \<in> set (record_writes off es) \<Longrightarrow> off \<le> op_from op"
  by (induction off es rule: record_writes.induct) auto

definition leaves :: "file_state \<Rightarrow> entry list \<Rightarrow> entry list \<Rightarrow> bool" where
  "leaves f sy un \<longleftrightarrow> fs_durable f = fs_view f \<and> fs_pending f = [] \<and>
     (\<exists>junk. fs_view f = recs sy @ junk \<and> (un = [] \<longrightarrow> junk = []))"

lemma lands_leaves:
  assumes "file_rep f sy un" and "lands f f'"
  shows "leaves f' sy un"
proof -
  obtain buf where buf: "buf \<in> outcomes (fs_pending f) (fs_durable f)" and f': "f' = settle f buf"
    using assms(2) by (auto simp: lands_def)
  have d: "fs_durable f = recs sy" using assms(1) by (simp add: file_rep_def)
  have "\<exists>junk. buf = recs sy @ junk \<and> (un = [] \<longrightarrow> junk = [])"
  proof (cases "un = []")
    case True
    then have "fs_pending f = [] \<or> sy = [] \<and> fs_pending f = [OpTruncate 0]"
      using assms(1) by (auto simp: file_rep_def)
    moreover have "land fate (OpTruncate 0) [] = []" for fate by (cases fate) simp_all
    ultimately have "buf = recs sy" using buf d by auto
    then show ?thesis by simp
  next
    case False
    have "\<forall>op \<in> set (fs_pending f). length (recs sy) \<le> op_from op"
      using assms(1) record_writes_from by (auto simp: file_rep_def)
    then have "take (length (recs sy)) buf = recs sy" using outcomes_take [OF buf, of "length (recs sy)"] d by simp
    then show ?thesis using False by (metis append_take_drop_id)
  qed
  then show ?thesis by (auto simp: leaves_def f' settle_def)
qed

text \<open>A segment found at recovery: the synced records are there, followed by whatever landed.\<close>

definition found :: "node_disk \<Rightarrow> segment \<Rightarrow> entry list \<times> entry list \<Rightarrow> bool" where
  "found d s c \<longleftrightarrow> seg_entries_ok s (fst c @ snd c) \<and> (\<exists>f. nd_files d (sg_name s) = Some f \<and> leaves f (fst c) (snd c))"

lemma found_frame: "nd_files d' (sg_name s) = nd_files d (sg_name s) \<Longrightarrow> found d s c \<Longrightarrow> found d' s c"
  by (simp add: found_def)

definition segs_found :: "node_disk \<Rightarrow> segment list \<Rightarrow> (entry list \<times> entry list) list \<Rightarrow> bool" where
  "segs_found d ss cs \<longleftrightarrow> list_all2 (found d) ss cs \<and> linked ss cs \<and>
     {n \<in> dom (nd_files d). index_from_name n \<noteq> None} = sg_name ` set ss"

lemma crash_found:
  assumes rep: "wal_rep w d cs" and crash: "crash_disk pol d g = Some (d', g')"
  shows "segs_found (boot_disk d') (w_segments w) cs" and "files_ok (boot_disk d')" and "nd_up (boot_disk d')"
proof -
  have up: "nd_up d" and ok: "files_ok d" and all: "list_all2 (seg_rep d) (w_segments w) cs"
    and l: "linked (w_segments w) cs"
    and names: "{n \<in> dom (nd_files d). index_from_name n \<noteq> None} = sg_name ` set (w_segments w)"
    using rep by (simp_all add: wal_rep_def)
  have "power_loss pol (d\<lparr>nd_up := False\<rparr>) g = Some (d', g')" using crash up by (simp add: crash_disk_def)
  from power_loss_lands [OF this] have lands': "disk_lands (d\<lparr>nd_up := False\<rparr>) d'"
    using ok by (simp add: files_ok_def)
  have fin: "finite (dom (nd_files (d\<lparr>nd_up := False\<rparr>)))" using ok by (simp add: files_ok_def)
  have boot: "nd_files (boot_disk d') = nd_files d'" by (simp add: boot_disk_def)
  have "found (boot_disk d') s c" if s: "seg_rep d s c" for s c
  proof -
    obtain f where f: "nd_files d (sg_name s) = Some f" and fr: "file_rep f (fst c) (snd c)"
      using s by (auto simp: seg_rep_def)
    obtain f' where "nd_files d' (sg_name s) = Some f'" "lands f f'"
      using disk_lands_file [OF lands', of "sg_name s"] f by (auto simp: option_rel_Some1)
    then show ?thesis using lands_leaves [OF fr] seg_repD [OF s] boot by (simp add: found_def)
  qed
  then have "list_all2 (found (boot_disk d')) (w_segments w) cs" using all by (rule list_all2_mono [rotated])
  moreover have "dom (nd_files (boot_disk d')) = dom (nd_files d)" using disk_lands_dom [OF lands'] boot by simp
  ultimately show "segs_found (boot_disk d') (w_segments w) cs" using l names by (simp add: segs_found_def)
  show "files_ok (boot_disk d')" using disk_lands_files_ok [OF lands' fin] by (simp add: files_ok_def boot)
  show "nd_up (boot_disk d')" by (simp add: boot_disk_def)
qed

subsection \<open>The order of the segments\<close>

lemma segs_found_sorted:
  assumes "list_all2 (found d) ss cs" and "linked ss cs"
  shows "sorted_wrt (<) (map sg_first ss)" and "\<forall>s \<in> set ss. sg_name s = name_for (sg_first s)"
proof -
  have "sorted_wrt (\<lambda>s s'. sg_first s < sg_first s') ss" using assms
  proof (induction ss cs rule: list_all2_induct)
    case (Cons s ss c cs)
    note asc = Cons(3) [OF linked_Cons [OF Cons(4)]]
    show ?case
    proof (cases ss)
      case (Cons s' ss')
      have ok: "seg_entries_ok s (fst c @ snd c)" using \<open>found d s c\<close> by (simp add: found_def)
      have "fst c @ snd c \<noteq> []" and f: "sg_first s' = sg_last s + 1"
        using Cons.prems [unfolded linked_def, rule_format, of 0] Cons by simp_all
      then have "sg_first s < sg_first s'" using seg_next(1) [OF ok] by (auto simp: word_less_nat_alt)
      then show ?thesis using asc Cons by auto
    qed simp
  qed simp
  then show "sorted_wrt (<) (map sg_first ss)" by (simp add: sorted_wrt_map)
  show "\<forall>s \<in> set ss. sg_name s = name_for (sg_first s)"
    using assms(1) by (induction rule: list_all2_induct) (simp_all add: found_def seg_entries_ok_def)
qed

lemma segment_names_eq:
  assumes names: "{n \<in> dom (nd_files d). index_from_name n \<noteq> None} = sg_name ` set ss" and fin: "finite (dom (nd_files d))"
    and asc: "sorted_wrt (<) (map sg_first ss)" "\<forall>s \<in> set ss. sg_name s = name_for (sg_first s)"
  shows "segment_names (sorted_list_of_set (dom (nd_files d))) = map (\<lambda>s. (sg_first s, sg_name s)) ss"
proof -
  let ?xs = "List.map_filter (\<lambda>n. map_option (\<lambda>i. (i, n)) (index_from_name n)) (sorted_list_of_set (dom (nd_files d)))"
  let ?ys = "map (\<lambda>s. (sg_first s, sg_name s)) ss"
  have "set ?xs = (\<lambda>n. (the (index_from_name n), n)) ` {n \<in> dom (nd_files d). index_from_name n \<noteq> None}"
    using fin by (force simp: List.map_filter_def image_iff)
  also have "\<dots> = set ?ys" unfolding names using asc(2) by (force simp: image_iff)
  finally have same: "set (segment_names (sorted_list_of_set (dom (nd_files d)))) = set ?ys"
    by (simp add: segment_names_def)
  have "map snd (List.map_filter (\<lambda>n. map_option (\<lambda>i. (i, n)) (index_from_name n)) ns) =
      filter (\<lambda>n. index_from_name n \<noteq> None) ns" for ns
    by (induction ns) (auto simp: List.map_filter_def)
  then have "distinct (map snd ?xs)" by simp
  then have "distinct ?xs" by (simp only: distinct_map)
  then have d1: "distinct (segment_names (sorted_list_of_set (dom (nd_files d))))" by (simp add: segment_names_def)
  have s1: "sorted (segment_names (sorted_list_of_set (dom (nd_files d))))" by (simp add: segment_names_def)
  have "sorted_wrt (\<lambda>s s'. sg_first s < sg_first s') ss" using asc(1) by (simp add: sorted_wrt_map)
  then have "sorted_wrt (\<lambda>s s'. (sg_first s, sg_name s) < (sg_first s', sg_name s')) ss"
    by (rule sorted_wrt_mono_rel [rotated]) simp
  then have "sorted_wrt (<) ?ys" by (simp add: sorted_wrt_map)
  then have "sorted ?ys" "distinct ?ys" by (simp_all add: strict_sorted_iff)
  then show ?thesis using sorted_distinct_set_unique [OF s1 d1] same by blast
qed

lemma segment_names_found:
  assumes "segs_found d ss cs" and "finite (dom (nd_files d))"
  shows "segment_names (sorted_list_of_set (dom (nd_files d))) = map (\<lambda>s. (sg_first s, sg_name s)) ss"
  using assms segs_found_sorted by (intro segment_names_eq) (auto simp: segs_found_def)

subsection \<open>Scanning the segments\<close>

definition undirty :: "segment \<Rightarrow> segment" where
  "undirty s = s\<lparr>sg_dirty := False\<rparr>"

text \<open>The next segment follows the entries recovered so far.\<close>

definition follows :: "recovery \<Rightarrow> index \<Rightarrow> bool" where
  "follows ry i \<longleftrightarrow> ry_tail ry = Clean \<and> (ry_entries ry = [] \<or> e_index (last (ry_entries ry)) + 1 = i)"

lemma open_file_id: "nd_files d n = Some f \<Longrightarrow> open_file n d = (Inr (), d)"
  by (simp add: open_file_def)

lemma scan_segment_eq:
  assumes "nd_files d n = Some f" and "\<And>p. prev = Some p \<Longrightarrow> p + 1 = first"
  shows "scan_segment n first prev d = scan_records (fs_view f) first"
  using assms by (cases prev) (simp_all add: scan_segment_def read_at_def file_len_def Let_def)

lemma recover_segment_follows:
  assumes f: "nd_files d n = Some f" and fl: "follows ry i" and sc: "scan_records (fs_view f) i = (es, tail, valid)"
  shows "\<exists>d'. recover_segment (i, n) ry d = (Inr (ry\<lparr>ry_segments := ry_segments ry @ [\<lparr>sg_name = n, sg_first = i,
      sg_last = (if es = [] then sat_sub i 1 else e_index (last es)), sg_size = valid, sg_offsets = running_offsets 0 es,
      sg_dirty = False\<rparr>], ry_entries := ry_entries ry @ es, ry_tail := tail,
      ry_truncated := ry_truncated ry + (if tail = Clean then 0 else 1)\<rparr>), d') \<and> (tail = Clean \<longrightarrow> d' = d)"
proof -
  have "scan_segment n i (if ry_entries ry = [] then None else Some (e_index (last (ry_entries ry)))) d = (es, tail, valid)"
    using f fl sc by (subst scan_segment_eq) (auto simp: follows_def split: if_splits)
  then show ?thesis using fl open_file_id [OF f]
    by (auto simp: recover_segment_def io_bind_def follows_def Let_def)
qed

lemma recover_segment_total:
  "\<exists>ry' d'. recover_segment x ry d = (Inr ry', d') \<and> prefix (ry_entries ry) (ry_entries ry')"
  by (cases x) (auto simp: recover_segment_def io_bind_def open_file_def Let_def split: prod.split)

lemma recover_segments_total:
  "\<exists>ry' d'. recover_segments xs ry d = (Inr ry', d') \<and> prefix (ry_entries ry) (ry_entries ry')"
proof (induction xs arbitrary: ry d)
  case (Cons x xs)
  obtain ry1 d1 where 1: "recover_segment x ry d = (Inr ry1, d1)" "prefix (ry_entries ry) (ry_entries ry1)"
    using recover_segment_total by blast
  obtain ry2 d2 where 2: "recover_segments xs ry1 d1 = (Inr ry2, d2)" "prefix (ry_entries ry1) (ry_entries ry2)"
    using Cons by blast
  then show ?case using 1 by (auto simp: io_bind_def intro: prefix_order.trans)
qed (simp add: io_return_def)

lemma seg_eta:
  assumes "seg_entries_ok s es"
  shows "\<lparr>sg_name = sg_name s, sg_first = sg_first s, sg_last = (if es = [] then sat_sub (sg_first s) 1 else e_index (last es)),
    sg_size = length (recs es), sg_offsets = running_offsets 0 es, sg_dirty = False\<rparr> = undirty s"
proof -
  have "(if es = [] then sat_sub (sg_first s) 1 else e_index (last es)) = sg_last s"
    using seg_next(3) [OF assms] assms consecutive_last [of "sg_first s" es] by (auto simp: seg_entries_ok_def)
  then show ?thesis using assms by (simp add: undirty_def seg_entries_ok_def)
qed

lemma recover_synced:
  assumes "found d s (sy, [])" and "follows ry (sg_first s)"
  shows "recover_segment (sg_first s, sg_name s) ry d =
    (Inr (ry\<lparr>ry_segments := ry_segments ry @ [undirty s], ry_entries := ry_entries ry @ sy\<rparr>), d)"
proof -
  obtain f where f: "nd_files d (sg_name s) = Some f" and v: "fs_view f = recs sy" and ok: "seg_entries_ok s sy"
    using assms(1) by (auto simp: found_def leaves_def)
  have "scan_records (fs_view f) (sg_first s) = (sy, Clean, length (recs sy))"
    using ok v by (simp add: scan_recs_exact seg_entries_ok_def)
  from recover_segment_follows [OF f assms(2) this] show ?thesis
    using seg_eta [OF ok] assms(2) by (auto simp: follows_def)
qed

lemma follows_next:
  assumes "seg_entries_ok s es" and "es \<noteq> []" and "ry_tail ry = Clean"
  shows "follows (ry\<lparr>ry_segments := ss, ry_entries := es' @ es\<rparr>) (sg_last s + 1)"
  using assms consecutive_last [of "sg_first s" es] by (simp add: follows_def seg_entries_ok_def)

lemma found_next:
  assumes "list_all2 (found d) (s # ss) ((sy, []) # cs)" and "linked (s # ss) ((sy, []) # cs)"
    and "ry_tail ry = Clean" and "ss \<noteq> []"
  shows "follows (ry\<lparr>ry_segments := ss', ry_entries := es @ sy\<rparr>) (sg_first (hd ss))"
proof -
  have "sy \<noteq> []" and "sg_first (hd ss) = sg_last s + 1"
    using assms(2) [unfolded linked_def, rule_format, of 0] assms(4) by (auto simp: hd_conv_nth)
  moreover have "seg_entries_ok s sy" using assms(1) by (simp add: found_def)
  ultimately show ?thesis using follows_next assms(3) by simp
qed

lemma recover_all_synced:
  assumes "list_all2 (found d) ss cs" and "linked ss cs" and "list_all (\<lambda>c. snd c = []) cs"
    and "ry_tail ry = Clean" and "ss \<noteq> [] \<Longrightarrow> follows ry (sg_first (hd ss))"
  shows "recover_segments (map (\<lambda>s. (sg_first s, sg_name s)) ss) ry d =
    (Inr (ry\<lparr>ry_segments := ry_segments ry @ map undirty ss, ry_entries := ry_entries ry @ log_entries cs\<rparr>), d)"
  using assms
proof (induction ss cs arbitrary: ry rule: list_all2_induct)
  case Nil
  then show ?case by (simp add: io_return_def)
next
  case (Cons s ss c cs)
  obtain sy where c: "c = (sy, [])" using Cons.prems(2) by (cases c) simp
  let ?ry = "ry\<lparr>ry_segments := ry_segments ry @ [undirty s], ry_entries := ry_entries ry @ sy\<rparr>"
  have step: "recover_segment (sg_first s, sg_name s) ry d = (Inr ?ry, d)"
    using Cons.hyps(1) Cons.prems(4) c by (intro recover_synced) simp_all
  have "follows ?ry (sg_first (hd ss))" if "ss \<noteq> []"
    using found_next [of d s ss sy cs ry] Cons.hyps Cons.prems(1,3) that c by simp
  then have "recover_segments (map (\<lambda>s. (sg_first s, sg_name s)) ss) ?ry d =
      (Inr (?ry\<lparr>ry_segments := ry_segments ?ry @ map undirty ss, ry_entries := ry_entries ?ry @ log_entries cs\<rparr>), d)"
    using Cons.prems by (intro Cons.IH linked_Cons [OF Cons.prems(1)]) simp_all
  then show ?case using step c by (simp add: io_bind_def)
qed

lemma recover_keeps_durable:
  assumes "list_all2 (found d) ss cs" and "linked ss cs"
    and "ry_tail ry = Clean" and "ss \<noteq> [] \<Longrightarrow> follows ry (sg_first (hd ss))"
  shows "\<exists>ry' d'. recover_segments (map (\<lambda>s. (sg_first s, sg_name s)) ss) ry d = (Inr ry', d') \<and>
    prefix (ry_entries ry @ durable_entries cs) (ry_entries ry')"
  using assms
proof (induction ss cs arbitrary: ry rule: list_all2_induct)
  case Nil
  then show ?case by (simp add: io_return_def)
next
  case (Cons s ss c cs)
  obtain sy un where c: "c = (sy, un)" by (cases c)
  show ?case
  proof (cases "un = []")
    case True
    let ?ry = "ry\<lparr>ry_segments := ry_segments ry @ [undirty s], ry_entries := ry_entries ry @ sy\<rparr>"
    have step: "recover_segment (sg_first s, sg_name s) ry d = (Inr ?ry, d)"
      using Cons.hyps(1) Cons.prems(3) c True by (intro recover_synced) simp_all
    have "follows ?ry (sg_first (hd ss))" if "ss \<noteq> []"
      using found_next [of d s ss sy cs ry] Cons.hyps Cons.prems(1,2) that c True by simp
    from Cons.IH [OF linked_Cons [OF Cons.prems(1)] _ this] Cons.prems(2) obtain ry' d' where
      "recover_segments (map (\<lambda>s. (sg_first s, sg_name s)) ss) ?ry d = (Inr ry', d')"
      "prefix (ry_entries ?ry @ durable_entries cs) (ry_entries ry')" by auto
    then show ?thesis using step c True by (auto simp: io_bind_def)
  next
    case False
    obtain f junk where f: "nd_files d (sg_name s) = Some f" and v: "fs_view f = recs sy @ junk"
      and ok: "seg_entries_ok s (sy @ un)"
      using Cons.hyps(1) c by (auto simp: found_def leaves_def)
    have "list_all rec_ok sy" "consecutive (sg_first s) sy"
      using ok by (simp_all add: seg_entries_ok_def consecutive_append)
    from scan_recs [OF this, of junk] obtain es tail valid where
      "scan_records (fs_view f) (sg_first s) = (sy @ es, tail, valid)"
      unfolding v by (auto split: prod.splits)
    from recover_segment_follows [OF f _ this, of ry] Cons.prems(3) obtain ry1 d1 where
      step: "recover_segment (sg_first s, sg_name s) ry d = (Inr ry1, d1)" "ry_entries ry1 = ry_entries ry @ sy @ es"
      by auto
    obtain ry' d' where rest: "recover_segments (map (\<lambda>s. (sg_first s, sg_name s)) ss) ry1 d1 = (Inr ry', d')"
      "prefix (ry_entries ry1) (ry_entries ry')"
      using recover_segments_total by blast
    have "prefix (ry_entries ry @ durable_entries (c # cs)) (ry_entries ry1)" using step(2) c False by simp
    then have "prefix (ry_entries ry @ durable_entries (c # cs)) (ry_entries ry')"
      using rest(2) by (rule prefix_order.trans)
    then show ?thesis using step(1) rest(1) by (simp add: io_bind_def)
  qed
qed

text \<open>Whatever is on the disk, what is recovered has no hole in it.\<close>

lemma recover_segment_consecutive:
  assumes "recover_segment x ry d = (Inr ry', d')" and "\<exists>i. consecutive i (ry_entries ry)"
  shows "\<exists>i. consecutive i (ry_entries ry')"
proof -
  obtain first n where x: "x = (first, n)" by (cases x)
  define prev where "prev = (if ry_entries ry = [] then None else Some (e_index (last (ry_entries ry))))"
  let ?d = "snd (open_file n d)"
  obtain es tail valid where sc: "scan_segment n first prev ?d = (es, tail, valid)" by (cases "scan_segment n first prev ?d")
  have "consecutive (case prev of Some i \<Rightarrow> i + 1 | None \<Rightarrow> first) es"
    using sc scan_consecutive by (auto simp: scan_segment_def split: prod.splits sum.splits)
  then have "\<exists>i. consecutive i (ry_entries ry @ es)"
    using assms(2) consecutive_last by (cases "ry_entries ry = []") (auto simp: prev_def consecutive_append)
  moreover have "ry_entries ry' = ry_entries ry \<or> ry_entries ry' = ry_entries ry @ es"
    using assms(1) sc unfolding x prev_def
    by (auto simp: recover_segment_def io_bind_def open_file_def Let_def split: if_splits)
  ultimately show ?thesis using assms(2) by auto
qed

lemma recover_segments_consecutive:
  "recover_segments xs ry d = (Inr ry', d') \<Longrightarrow> \<exists>i. consecutive i (ry_entries ry) \<Longrightarrow> \<exists>i. consecutive i (ry_entries ry')"
proof (induction xs arbitrary: ry d)
  case (Cons x xs)
  obtain ry1 d1 where 1: "recover_segment x ry d = (Inr ry1, d1)" using recover_segment_total by blast
  then show ?case using Cons recover_segment_consecutive [OF 1] by (auto simp: io_bind_def)
qed (simp add: io_return_def)

subsection \<open>Opening the log\<close>

text \<open>Opening the state and snapshot files touches no segment.\<close>

definition same_segments :: "node_disk \<Rightarrow> node_disk \<Rightarrow> bool" where
  "same_segments d d' \<longleftrightarrow> nd_up d' = nd_up d \<and> (files_ok d \<longrightarrow> files_ok d') \<and>
     (\<forall>n. index_from_name n \<noteq> None \<longrightarrow> nd_files d' n = nd_files d n)"

lemma same_segments_open: "index_from_name n = None \<Longrightarrow> same_segments d (snd (open_file n d))"
  using open_file_files_ok by (auto simp: same_segments_def open_file_def put_file_def split: option.split)

lemma same_segments_trans: "same_segments d d' \<Longrightarrow> same_segments d' d'' \<Longrightarrow> same_segments d d''"
  by (simp add: same_segments_def)

lemma same_segments_found:
  assumes "same_segments d d'" and "segs_found d ss cs"
  shows "segs_found d' ss cs"
proof -
  have same: "nd_files d' n = nd_files d n" if "index_from_name n \<noteq> None" for n
    using assms(1) that unfolding same_segments_def by blast
  have all: "list_all2 (found d) ss cs" and names: "{n \<in> dom (nd_files d). index_from_name n \<noteq> None} = sg_name ` set ss"
    and l: "linked ss cs" using assms(2) by (simp_all add: segs_found_def)
  have idx: "index_from_name (sg_name s) \<noteq> None" if "s \<in> set ss" for s
    using names that by blast
  have "list_all2 (found d') ss cs"
    using all by (rule list.rel_mono_strong) (use found_frame same idx in blast)
  moreover have "{n \<in> dom (nd_files d'). index_from_name n \<noteq> None} = {n \<in> dom (nd_files d). index_from_name n \<noteq> None}"
    using same by (auto simp: domIff)
  ultimately show ?thesis using l names by (simp add: segs_found_def)
qed

lemma bind_open: "io_bind (open_file n) f d = f () (snd (open_file n d))"
  by (simp add: io_bind_def open_file_def)

lemma wal_open_split:
  "\<exists>hs seq snap sseq slot d1. read_hard_state (snd (open_file ''state'' d)) = (hs, seq) \<and> same_segments d d1 \<and>
    wal_open opts d = io_bind (recover_segments (segment_names (sorted_list_of_set (dom (nd_files d1))))
      \<lparr>ry_segments = [], ry_entries = [], ry_tail = Clean, ry_truncated = 0\<rparr>) (wal_assemble opts hs seq snap sseq slot) d1"
proof -
  define d0 where "d0 = snd (open_file ''state'' d)"
  define d1 where "d1 = snd (open_file (snapshot_name 0) d0)"
  define d2 where "d2 = snd (open_file (snapshot_name 1) d1)"
  obtain hs seq where hs: "read_hard_state d0 = (hs, seq)" by (cases "read_hard_state d0")
  have "\<exists>r. recover_snapshot d0 = (Inr r, d2)"
    unfolding recover_snapshot_def by (simp only: bind_open Let_def d1_def [symmetric] d2_def [symmetric]) blast
  then obtain snap sseq slot where snap: "recover_snapshot d0 = (Inr (snap, sseq, slot), d2)" by (metis prod_cases3)
  have "same_segments d d2" unfolding d2_def d1_def d0_def
    by (intro same_segments_trans [OF _ same_segments_open] same_segments_open) simp_all
  moreover have "wal_open opts d = io_bind (recover_segments (segment_names (sorted_list_of_set (dom (nd_files d2))))
      \<lparr>ry_segments = [], ry_entries = [], ry_tail = Clean, ry_truncated = 0\<rparr>) (wal_assemble opts hs seq snap sseq slot) d2"
    unfolding wal_open_def by (simp add: bind_open d0_def [symmetric] hs) (simp add: io_bind_def snap list_files_def)
  ultimately show ?thesis using hs d0_def by blast
qed

definition snap_of :: "recovered \<Rightarrow> index" where
  "snap_of rc = (case rc_snapshot rc of None \<Rightarrow> 0 | Some sn \<Rightarrow> sn_last_index sn)"

lemma wal_assemble_run:
  assumes "ry_segments ry \<noteq> []"
  shows "\<exists>rc. wal_assemble opts hs seq snap sseq slot ry d = (Inr rc, d) \<and> w_opts (rc_wal rc) = opts \<and>
    w_segments (rc_wal rc) = ry_segments ry \<and> rc_hard_state rc = hs \<and> w_state_seq (rc_wal rc) = seq \<and>
    rc_tail rc = ry_tail ry \<and> rc_truncated rc = ry_truncated ry \<and>
    rc_entries rc = (if snap_of rc = 0 then ry_entries ry else filter (\<lambda>e. snap_of rc < e_index e) (ry_entries ry))"
  using assms by (auto simp: wal_assemble_def snap_of_def Let_def word_gt_0)

lemma recover_keeps_segments:
  "recover_segments xs ry d = (Inr ry', d') \<Longrightarrow> ry_segments ry \<noteq> [] \<Longrightarrow> ry_segments ry' \<noteq> []"
proof (induction xs arbitrary: ry d)
  case (Cons x xs)
  obtain ry1 d1 where 1: "recover_segment x ry d = (Inr ry1, d1)" using recover_segment_total by blast
  moreover have "ry_segments ry1 \<noteq> []"
    using 1 Cons.prems(2) by (cases x) (auto simp: recover_segment_def io_bind_def open_file_def Let_def split: if_splits prod.splits)
  ultimately show ?case using Cons by (auto simp: io_bind_def)
qed (simp add: io_return_def)

lemma recover_first_segment:
  assumes "recover_segments (x # xs) \<lparr>ry_segments = [], ry_entries = [], ry_tail = Clean, ry_truncated = 0\<rparr> d = (Inr ry', d')"
  shows "ry_segments ry' \<noteq> []"
proof -
  let ?ry = "\<lparr>ry_segments = [], ry_entries = [], ry_tail = Clean, ry_truncated = 0\<rparr>"
  obtain ry1 d1 where 1: "recover_segment x ?ry d = (Inr ry1, d1)" using recover_segment_total by blast
  moreover have "ry_segments ry1 \<noteq> []"
    using 1 by (cases x) (auto simp: recover_segment_def io_bind_def open_file_def Let_def split: if_splits prod.splits)
  ultimately show ?thesis using assms recover_keeps_segments by (auto simp: io_bind_def)
qed

text \<open>Recovery after a crash at any point.\<close>

lemma wal_open_crashed:
  assumes sf: "segs_found d ss cs" and ok: "files_ok d" and ne: "ss \<noteq> []"
  shows "\<exists>rc d' es i. wal_open opts d = (Inr rc, d') \<and> prefix (durable_entries cs) es \<and> consecutive i es \<and>
    rc_entries rc = (if snap_of rc = 0 then es else filter (\<lambda>e. snap_of rc < e_index e) es) \<and>
    rc_hard_state rc = fst (read_hard_state (snd (open_file ''state'' d)))"
proof -
  let ?ry = "\<lparr>ry_segments = [], ry_entries = [], ry_tail = Clean, ry_truncated = 0\<rparr>"
  obtain hs seq snap sseq slot d1 where hs: "read_hard_state (snd (open_file ''state'' d)) = (hs, seq)"
    and same: "same_segments d d1"
    and run: "wal_open opts d = io_bind (recover_segments (segment_names (sorted_list_of_set (dom (nd_files d1)))) ?ry)
      (wal_assemble opts hs seq snap sseq slot) d1"
    using wal_open_split by blast
  have sf1: "segs_found d1 ss cs" using same sf by (rule same_segments_found)
  have "files_ok d1" using same ok by (simp add: same_segments_def)
  then have names: "segment_names (sorted_list_of_set (dom (nd_files d1))) = map (\<lambda>s. (sg_first s, sg_name s)) ss"
    using segment_names_found [OF sf1] by (simp add: files_ok_def)
  obtain s ss' where ss: "ss = s # ss'" using ne by (cases ss) simp_all
  from recover_keeps_durable [of d1 ss cs ?ry] sf1 obtain ry' d2 where
    rec: "recover_segments (map (\<lambda>s. (sg_first s, sg_name s)) ss) ?ry d1 = (Inr ry', d2)"
    and pre: "prefix (durable_entries cs) (ry_entries ry')"
    by (auto simp: segs_found_def follows_def)
  have "ry_segments ry' \<noteq> []" using rec unfolding ss list.map by (rule recover_first_segment)
  from wal_assemble_run [OF this, of opts hs seq snap sseq slot d2] obtain rc where
    asm: "wal_assemble opts hs seq snap sseq slot ry' d2 = (Inr rc, d2)" "rc_hard_state rc = hs"
    "rc_entries rc = (if snap_of rc = 0 then ry_entries ry' else filter (\<lambda>e. snap_of rc < e_index e) (ry_entries ry'))" by blast
  obtain i where "consecutive i (ry_entries ry')"
    using recover_segments_consecutive [OF rec] by auto
  moreover have "wal_open opts d = (Inr rc, d2)" using run names rec asm(1) by (simp add: io_bind_def)
  ultimately show ?thesis using pre asm(2,3) hs by (metis fst_conv)
qed

text \<open>Recovery of a log with nothing unsynced: the log is back, on the same segments.\<close>

lemma wal_open_synced:
  assumes sf: "segs_found d ss cs" and ok: "files_ok d" and up: "nd_up d" and ne: "ss \<noteq> []"
    and sync: "list_all (\<lambda>c. snd c = []) cs" and opts: "0 < wo_segment_bytes opts"
  shows "\<exists>rc d'. wal_open opts d = (Inr rc, d') \<and> wal_rep (rc_wal rc) d' cs \<and> rc_tail rc = Clean \<and> rc_truncated rc = 0 \<and>
    rc_entries rc = (if snap_of rc = 0 then log_entries cs else filter (\<lambda>e. snap_of rc < e_index e) (log_entries cs)) \<and>
    rc_hard_state rc = fst (read_hard_state (snd (open_file ''state'' d)))"
proof -
  let ?ry = "\<lparr>ry_segments = [], ry_entries = [], ry_tail = Clean, ry_truncated = 0\<rparr>"
  obtain hs seq snap sseq slot d1 where hs: "read_hard_state (snd (open_file ''state'' d)) = (hs, seq)"
    and same: "same_segments d d1"
    and run: "wal_open opts d = io_bind (recover_segments (segment_names (sorted_list_of_set (dom (nd_files d1)))) ?ry)
      (wal_assemble opts hs seq snap sseq slot) d1"
    using wal_open_split by blast
  have sf1: "segs_found d1 ss cs" using same sf by (rule same_segments_found)
  have ok1: "files_ok d1" and up1: "nd_up d1" using same ok up by (simp_all add: same_segments_def)
  then have names: "segment_names (sorted_list_of_set (dom (nd_files d1))) = map (\<lambda>s. (sg_first s, sg_name s)) ss"
    using segment_names_found [OF sf1] by (simp add: files_ok_def)
  have all: "list_all2 (found d1) ss cs" and l: "linked ss cs"
    and nm: "{n \<in> dom (nd_files d1). index_from_name n \<noteq> None} = sg_name ` set ss"
    using sf1 by (simp_all add: segs_found_def)
  have rec: "recover_segments (map (\<lambda>s. (sg_first s, sg_name s)) ss) ?ry d1 =
      (Inr (?ry\<lparr>ry_segments := map undirty ss, ry_entries := log_entries cs\<rparr>), d1)"
    using recover_all_synced [OF all l sync, of ?ry] by (simp add: follows_def)
  let ?ry' = "?ry\<lparr>ry_segments := map undirty ss, ry_entries := log_entries cs\<rparr>"
  have "ry_segments ?ry' \<noteq> []" using ne by simp
  from wal_assemble_run [OF this, of opts hs seq snap sseq slot d1] obtain rc where
    asm: "wal_assemble opts hs seq snap sseq slot ?ry' d1 = (Inr rc, d1)" "w_opts (rc_wal rc) = opts"
    "w_segments (rc_wal rc) = map undirty ss" "rc_hard_state rc = hs" "rc_tail rc = Clean" "rc_truncated rc = 0"
    "rc_entries rc = (if snap_of rc = 0 then log_entries cs else filter (\<lambda>e. snap_of rc < e_index e) (log_entries cs))"
    by auto
  have "list_all2 (\<lambda>s c. seg_rep d1 (undirty s) c) ss cs"
    using all sync by (induction rule: list_all2_induct)
      (auto simp: found_def leaves_def seg_rep_def file_rep_def undirty_def)
  then have "list_all2 (seg_rep d1) (map undirty ss) cs" by (simp add: list_all2_map1)
  moreover have "linked (map undirty ss) cs" using l by (simp add: linked_def undirty_def)
  moreover have "sg_name ` set (map undirty ss) = sg_name ` set ss" by (simp add: image_image undirty_def)
  ultimately have "wal_rep (rc_wal rc) d1 cs" using asm(2,3) ok1 up1 ne nm opts by (simp add: wal_rep_def)
  moreover have "wal_open opts d = (Inr rc, d1)" using run names rec asm(1) by (simp add: io_bind_def)
  ultimately show ?thesis using asm hs by (metis fst_conv)
qed

end
