(* ===== verification/Wal_State.thy ===== *)
theory Wal_State
  imports Wal_Recovery
begin

section \<open>The hard state on disk\<close>

text \<open>
  The term, the vote and the commit index are kept in two slots of one file, written in turn.
  A power cut in the middle of a save leaves the old state or the new one, never a mixture,
  because a slot is shorter than a sector and starts at the start of one.
\<close>

definition slot_read :: "bytes \<Rightarrow> (u64 \<times> hard_state) option" where
  "slot_read buf =
     (if length buf < HEADER then None
      else let len = header_len buf in
        if len = 0 \<or> len > 256 then None
        else let body = take (unat len) (drop HEADER buf) in
          if length body \<noteq> unat len \<or> crc32c body \<noteq> header_crc buf then None
          else case state_decode (r_new body) of Inl _ \<Rightarrow> None | Inr (x, _) \<Rightarrow> Some x)"

lemma read_at_view: "nd_files d n = Some f \<Longrightarrow> read_at n off len d = (Inr (take len (drop off (fs_view f))), d)"
  by (cases "off \<le> length (fs_view f)") (simp_all add: read_at_def Let_def min_def)

lemma read_state_slot_eq:
  assumes "nd_files d ''state'' = Some f"
  shows "read_state_slot d slot = slot_read (drop (slot * STATE_SLOT) (fs_view f))"
proof -
  let ?buf = "drop (slot * STATE_SLOT) (fs_view f)"
  show ?thesis
  proof (cases "length ?buf < HEADER")
    case False
    then have "header_len (take HEADER ?buf) = header_len ?buf" "header_crc (take HEADER ?buf) = header_crc ?buf"
      by (simp_all add: header_prefix)
    then show ?thesis using False
      by (simp add: read_state_slot_def slot_read_def read_at_view [OF assms] Let_def add.commute)
  qed (simp add: read_state_slot_def slot_read_def read_at_view [OF assms] Let_def)
qed

lemma slot_read_prefix:
  assumes "take 512 a = take 512 b"
  shows "slot_read a = slot_read b"
proof -
  have len: "length a < k \<longleftrightarrow> length b < k" if "k \<le> 512" for k
    using arg_cong [OF assms, of length] that by (auto simp: min_def split: if_splits)
  have part: "take m (drop n a) = take m (drop n b)" if "m + n \<le> 512" for m n
  proof -
    have "take m (drop n (take 512 a)) = take m (drop n (take 512 b))" using assms by simp
    then show ?thesis using that by (simp add: drop_take min_absorb1)
  qed
  have "header_len a = header_len b" "header_crc a = header_crc b"
    using part [of 4 0] part [of 4 4] by (simp_all add: header_len_def header_crc_def)
  moreover have "take (unat len) (drop HEADER a) = take (unat len) (drop HEADER b)" if "\<not> len > 256" for len :: u32
    using that by (intro part) (simp add: HEADER_def not_less word_le_nat_alt)
  ultimately show ?thesis using len [of HEADER] unfolding slot_read_def by (simp add: HEADER_def Let_def)
qed

lemma state_encode_eq:
  "state_encode sq hs = le_bytes 8 sq @ le_bytes 8 (hs_term hs) @ le_bytes 8 (hs_commit hs) @
     (case hs_vote hs of None \<Rightarrow> [0] | Some v \<Rightarrow> 1 # le_bytes 4 v)"
  by (simp add: state_encode_def w_opt_def w_u64_def w_u32_def w_new_def w_u8_def split: option.split)

lemma length_state_encode: "25 \<le> length (state_encode sq hs)" "length (state_encode sq hs) \<le> 29"
  by (simp_all add: state_encode_eq split: option.split)

lemma state_decode_encode: "state_decode (r_new (state_encode sq hs)) =
    Inr ((sq, hs), \<lparr>rbuf = state_encode sq hs, rpos = length (state_encode sq hs)\<rparr>)"
proof -
  have "parses state_decode (state_encode sq hs) (sq, hs)"
    unfolding state_encode_eq state_decode_def
    by (intro parses_bind [OF parses_u64] parses_bind_Nil [OF parses_opt] parses_u32)
      (cases hs, simp add: parses_return)
  from parsesD [OF this, of "[]" "[]"] show ?thesis by (simp add: r_new_def)
qed

lemma slot_read_frame: "slot_read (wal_frame (state_encode sq hs) @ rest) = Some (sq, hs)"
proof -
  let ?b = "state_encode sq hs"
  have len: "length ?b \<le> unat MAX_RECORD" using length_state_encode(2) [of sq hs] by (simp add: MAX_RECORD_def)
  note u = length_take_le [OF len]
  have nz: "(word_of_nat (length ?b) :: u32) \<noteq> 0"
    using u length_state_encode(1) [of sq hs] by (metis le_zero_eq unat_0 zero_neq_numeral)
  have le: "\<not> (word_of_nat (length ?b) :: u32) > 256"
    using u length_state_encode(2) [of sq hs] by (simp add: word_less_nat_alt)
  show ?thesis
    using header_frame [OF len, of rest] nz le u state_decode_encode [of sq hs]
    by (simp add: slot_read_def Let_def)
qed

lemma slot_read_zeros: "slot_read (replicate n 0 @ rest) = None" if "8 \<le> n"
proof -
  have "take 4 (replicate n (0 :: u8) @ rest) = replicate 4 0" using that by (simp add: min_def)
  then have "header_len (replicate n 0 @ rest) = 0" by (simp add: header_len_def numeral_eq_Suc from_le_bytes_def)
  then show ?thesis by (simp add: slot_read_def)
qed

text \<open>\<open>state_view v sq hs\<close>: the newest state in the file is \<open>hs\<close>, with sequence number \<open>sq\<close>.\<close>

definition slot_of :: "bytes \<Rightarrow> nat \<Rightarrow> (u64 \<times> hard_state) option" where
  "slot_of v k = slot_read (drop (k * STATE_SLOT) v)"

definition solid :: "bytes \<Rightarrow> bool" where
  "solid v \<longleftrightarrow> v = [] \<or> STATE_SLOT \<le> length v \<or> (\<exists>sq hs rest. v = wal_frame (state_encode sq hs) @ rest)"

definition state_view :: "bytes \<Rightarrow> u64 \<Rightarrow> hard_state \<Rightarrow> bool" where
  "state_view v sq hs \<longleftrightarrow> v = [] \<and> sq = 0 \<and> hs = default_hard_state \<or>
     v \<noteq> [] \<and> solid v \<and> slot_of v (unat (sq mod 2)) = Some (sq, hs) \<and>
     (case slot_of v (1 - unat (sq mod 2)) of None \<Rightarrow> True | Some (sq', _) \<Rightarrow> sq' < sq)"

lemma mod2_cases: "unat (x mod 2 :: u64) = 0 \<or> unat (x mod 2 :: u64) = 1"
  by (simp add: unat_mod) arith

lemma read_hard_state_view:
  assumes f: "nd_files d ''state'' = Some f" and v: "state_view (fs_view f) sq hs"
  shows "read_hard_state d = (hs, sq)"
proof -
  have r: "read_hard_state d = better_state (slot_of (fs_view f) 1) (better_state (slot_of (fs_view f) 0) (default_hard_state, 0))"
    by (simp add: read_hard_state_def read_state_slot_eq [OF f] slot_of_def)
  show ?thesis
  proof (cases "fs_view f = []")
    case True
    then have "slot_of (fs_view f) k = None" for k by (simp add: slot_of_def slot_read_def HEADER_def)
    then show ?thesis using v r True by (auto simp: state_view_def better_state_def STATE_SLOT_def)
  next
    case False
    have cur: "slot_of (fs_view f) (unat (sq mod 2)) = Some (sq, hs)"
      and old: "case slot_of (fs_view f) (1 - unat (sq mod 2)) of None \<Rightarrow> True | Some (sq', _) \<Rightarrow> sq' < sq"
      using v False by (auto simp: state_view_def)
    show ?thesis using mod2_cases [of sq]
    proof
      assume "unat (sq mod 2) = 0"
      then show ?thesis using r cur old by (auto simp: better_state_def not_less split: option.splits)
    next
      assume "unat (sq mod 2) = 1"
      then show ?thesis using r cur old by (auto simp: better_state_def split: option.splits)
    qed
  qed
qed

lemma splice_start: "splice v 0 fr = fr @ drop (length fr) v"
  by (simp add: splice_def resize_zero_def Let_def)

lemma slot_of_splice:
  assumes len: "length fr \<le> 512" and v: "solid v" and "s \<le> 1" and "k \<le> 1" and "k \<noteq> s"
  shows "slot_of (splice v (s * STATE_SLOT) fr) k = (if v = [] then None else slot_of v k)"
proof (cases "s = 0")
  case True
  then have k: "k = 1" using assms by simp
  have "drop STATE_SLOT (splice v 0 fr) = drop STATE_SLOT v"
    using len by (simp add: splice_start STATE_SLOT_def)
  then show ?thesis using k True by (auto simp: slot_of_def slot_read_def HEADER_def)
next
  case False
  then have s: "s = 1" and k: "k = 0" using assms by simp_all
  consider "v = []" | "STATE_SLOT \<le> length v" "v \<noteq> []"
    | sq hs rest where "v = wal_frame (state_encode sq hs) @ rest" "length v < STATE_SLOT"
    using v unfolding solid_def by (metis not_less)
  then show ?thesis
  proof cases
    case 1
    then have "splice v STATE_SLOT fr = replicate STATE_SLOT 0 @ fr"
      by (simp add: splice_def resize_zero_def Let_def)
    then show ?thesis using 1 s k by (simp add: slot_of_def slot_read_zeros STATE_SLOT_def)
  next
    case 2
    then have "take STATE_SLOT (splice v STATE_SLOT fr) = take STATE_SLOT v" by (simp add: take_splice)
    then have "take 512 (take STATE_SLOT (splice v STATE_SLOT fr)) = take 512 (take STATE_SLOT v)" by simp
    then have "take 512 (splice v STATE_SLOT fr) = take 512 v" by (simp add: STATE_SLOT_def)
    from slot_read_prefix [OF this] show ?thesis using 2 s k by (simp add: slot_of_def)
  next
    case 3
    then have "splice v STATE_SLOT fr = wal_frame (state_encode sq hs) @ rest @ replicate (STATE_SLOT - length v) 0 @ fr"
      by (simp add: splice_def resize_zero_def Let_def)
    moreover have "v \<noteq> []"
    proof
      assume "v = []"
      then have "length (wal_frame (state_encode sq hs)) = 0" using 3 by simp
      then show False by (simp add: HEADER_def)
    qed
    ultimately show ?thesis using 3 s k by (simp add: slot_of_def slot_read_frame)
  qed
qed

lemma slot_of_written:
  assumes "length fr \<le> 512"
  shows "slot_of (splice v (s * STATE_SLOT) fr) s = slot_read (fr @ drop (s * STATE_SLOT + length fr) (resize_zero v (s * STATE_SLOT)))"
proof -
  have "drop (s * STATE_SLOT) (splice v (s * STATE_SLOT) fr) =
      fr @ drop (s * STATE_SLOT + length fr) (resize_zero (resize_zero v (s * STATE_SLOT)) (s * STATE_SLOT + length fr))"
    by (simp add: splice_def Let_def)
  also have "drop (s * STATE_SLOT + length fr) (resize_zero (resize_zero v (s * STATE_SLOT)) (s * STATE_SLOT + length fr)) =
      drop (s * STATE_SLOT + length fr) (resize_zero v (s * STATE_SLOT))"
    by (subst (1) resize_zero_def) (simp add: resize_zero_def)
  finally show ?thesis by (simp add: slot_of_def)
qed

lemma state_view_write:
  assumes v: "state_view v sq hs" and sq: "sq < t"
  shows "state_view (splice v (unat (t mod 2) * STATE_SLOT) (wal_frame (state_encode t hs'))) t hs'"
proof -
  let ?fr = "wal_frame (state_encode t hs')" and ?s = "unat (t mod 2)"
  have len: "length ?fr \<le> 512" using length_state_encode(2) [of t hs'] by (simp add: HEADER_def)
  have s: "?s \<le> 1" using mod2_cases [of t] by auto
  have v': "solid v" using v by (auto simp: state_view_def solid_def)
  have new: "slot_of (splice v (?s * STATE_SLOT) ?fr) ?s = Some (t, hs')"
    by (simp add: slot_of_written [OF len] slot_read_frame)
  have other: "slot_of (splice v (?s * STATE_SLOT) ?fr) (1 - ?s) = (if v = [] then None else slot_of v (1 - ?s))"
    using mod2_cases [of t] by (intro slot_of_splice [OF len v']) auto
  have "case (if v = [] then None else slot_of v (1 - ?s)) of None \<Rightarrow> True | Some (sq', _) \<Rightarrow> sq' < t"
  proof (cases "v = [] \<or> 1 - ?s = unat (sq mod 2)")
    case True
    then show ?thesis using v sq by (auto simp: state_view_def)
  next
    case False
    then have "1 - ?s = 1 - unat (sq mod 2)" using mod2_cases [of sq] mod2_cases [of t] by auto
    then show ?thesis using v False sq by (auto simp: state_view_def split: option.splits)
  qed
  moreover have "solid (splice v (?s * STATE_SLOT) ?fr)"
    using mod2_cases [of t]
  proof
    assume "?s = 0"
    then show ?thesis unfolding solid_def by (simp only: mult_0 splice_start) blast
  next
    assume "?s = 1"
    then show ?thesis by (simp add: solid_def le_max_iff_disj)
  qed
  moreover have "splice v (?s * STATE_SLOT) ?fr \<noteq> []"
  proof
    assume "splice v (?s * STATE_SLOT) ?fr = []"
    then have "length (splice v (?s * STATE_SLOT) ?fr) = 0" by simp
    then show False by (simp add: HEADER_def)
  qed
  ultimately show ?thesis using new other by (simp add: state_view_def)
qed

subsection \<open>Saving and crashing\<close>

text \<open>A write inside one sector is never torn: it lands or it is lost.\<close>

lemma aligned_write_whole:
  assumes "op_fate pol (OpWrite off data) g = Some (fate, g')" and "dk_sector_size pol dvd off"
    and "length data \<le> dk_sector_size pol" and "data \<noteq> []"
  shows "fate \<in> {Landed, Lost, Torn 0}"
proof -
  let ?s = "dk_sector_size pol"
  have pos: "0 < ?s" using assms(3,4) by (metis le_zero_eq length_0_conv neq0_conv)
  obtain k where k: "off = ?s * k" using assms(2) by (rule dvdE)
  have "off + length data - 1 = (length data - 1) + ?s * k" using assms(4) k by (cases data) simp_all
  then have "(off + length data - 1) div ?s = k" using pos assms(3,4) by (cases data) simp_all
  then have "(off + length data - 1) div ?s - off div ?s + 1 = 1" using k pos by simp
  moreover have "max ?s 1 = ?s" using pos by simp
  ultimately show ?thesis using assms(1,4)
    by (auto simp: op_fate_def rand_bind_Some rand_return_def below_def keep_bytes_def Let_def split: if_splits)
qed

text \<open>The state file holds the state \<open>hs\<close> with sequence number \<open>sq\<close>, all of it on the platter.\<close>

definition state_saved :: "node_disk \<Rightarrow> u64 \<Rightarrow> hard_state \<Rightarrow> bool" where
  "state_saved d sq hs \<longleftrightarrow> nd_up d \<and> files_ok d \<and>
     (\<exists>f. nd_files d ''state'' = Some f \<and> fs_pending f = [] \<and> fs_durable f = fs_view f \<and> state_view (fs_view f) sq hs)"

lemma state_saved_read: "state_saved d sq hs \<Longrightarrow> read_hard_state d = (hs, sq)"
  by (auto simp: state_saved_def read_hard_state_view)

lemma crash_file:
  assumes "nd_up d" and "files_ok d" and "crash_disk pol d g = Some (d', g')"
  shows "nd_up (boot_disk d')" and "files_ok (boot_disk d')"
    and "\<And>n. rel_option lands (nd_files d n) (nd_files (boot_disk d') n)"
proof -
  have "power_loss pol (d\<lparr>nd_up := False\<rparr>) g = Some (d', g')" using assms(1,3) by (simp add: crash_disk_def)
  from power_loss_lands [OF this] have l: "disk_lands (d\<lparr>nd_up := False\<rparr>) d'" using assms(2) by (simp add: files_ok_def)
  show "nd_up (boot_disk d')" by (simp add: boot_disk_def)
  show "files_ok (boot_disk d')"
    using disk_lands_files_ok [OF l] assms(2) by (simp add: files_ok_def boot_disk_def)
  show "rel_option lands (nd_files d n) (nd_files (boot_disk d') n)" for n
    using disk_lands_file [OF l, of n] by (simp add: boot_disk_def)
qed

lemma state_saved_crash:
  assumes "state_saved d sq hs" and "crash_disk pol d g = Some (d', g')"
  shows "state_saved (boot_disk d') sq hs"
proof -
  obtain f where f: "nd_files d ''state'' = Some f" "fs_pending f = []" "fs_durable f = fs_view f" "state_view (fs_view f) sq hs"
    and up: "nd_up d" "files_ok d"
    using assms(1) by (auto simp: state_saved_def)
  note c = crash_file [OF up assms(2)]
  obtain f' where f': "nd_files (boot_disk d') ''state'' = Some f'" "lands f f'"
    using c(3) [of "''state''"] f(1) by (auto simp: option_rel_Some1)
  then show ?thesis using lands_settled [OF f'(2) f(2)] f c(1,2) by (simp add: state_saved_def)
qed

lemma save_hard_state_run:
  assumes saved: "state_saved d sq hs" and sq: "sq \<le> w_state_seq w" and room: "unat (w_state_seq w) + 1 < 2 ^ 64"
  shows "\<exists>r w' d'. save_hard_state quota hs' (w, d) = (r, (w', d')) \<and> w_state_seq w' = w_state_seq w + 1 \<and>
    (r = Inr () \<and> state_saved d' (w_state_seq w + 1) hs' \<or> r = Inl DiskFull \<and> d' = d)"
proof -
  let ?t = "w_state_seq w + 1"
  let ?off = "unat (?t mod 2) * STATE_SLOT" and ?fr = "wal_frame (state_encode ?t hs')"
  obtain f where f: "nd_files d ''state'' = Some f" "state_view (fs_view f) sq hs" and up: "nd_up d" and ok: "files_ok d"
    using saved by (auto simp: state_saved_def)
  have lt: "sq < ?t" using sq room by (simp add: word_le_nat_alt word_less_nat_alt unat_plus_one)
  show ?thesis
  proof (cases "write_at quota ''state'' ?off ?fr d")
    case (Pair r d1)
    show ?thesis
    proof (cases r)
      case (Inl e)
      then have "r = Inl DiskFull" "d1 = d"
        using Pair f up by (auto simp: write_at_def Let_def split: if_splits)
      then show ?thesis using Pair by (simp add: save_hard_state_def io_bind_on_disk Let_def)
    next
      case (Inr u)
      let ?f = "f\<lparr>fs_view := splice (fs_view f) ?off ?fr, fs_pending := fs_pending f @ [OpWrite ?off ?fr]\<rparr>"
      have d1: "nd_files d1 ''state'' = Some ?f" "nd_up d1"
        using Pair Inr f up by (auto simp: write_at_def Let_def put_file_def split: if_splits)
      have ok1: "files_ok d1" using write_at_files_ok [OF ok, of quota "''state''" ?off ?fr] Pair by simp
      have y: "fsync ''state'' d1 = (Inr (), put_file d1 ''state'' (?f\<lparr>fs_durable := fs_view ?f, fs_pending := []\<rparr>))"
        using files_ok_fileD [OF ok1 d1(1)] d1 by (rule fsync_durable)
      have "files_ok (put_file d1 ''state'' (?f\<lparr>fs_durable := fs_view ?f, fs_pending := []\<rparr>))"
        using fsync_files_ok [OF ok1, of "''state''"] y by simp
      then have "state_saved (put_file d1 ''state'' (?f\<lparr>fs_durable := fs_view ?f, fs_pending := []\<rparr>)) ?t hs'"
        using d1(2) state_view_write [OF f(2) lt, of hs'] by (simp add: state_saved_def put_file_def)
      then show ?thesis using Pair Inr y by (simp add: save_hard_state_def io_bind_on_disk Let_def)
    qed
  qed
qed

text \<open>What a power loss does to one file, with the fates it really draws.\<close>

lemma power_loss_names_drawn:
  assumes "power_loss_names pol names d g = Some (d', g')" and "distinct names" and "n \<in> set names" and "nd_files d n = Some f"
  shows "\<exists>f' g1 g2. power_loss_file pol f g1 = Some (f', g2) \<and> nd_files d' n = Some f'"
  using assms
proof (induction names arbitrary: d g)
  case (Cons m names)
  show ?case
  proof (cases "m = n")
    case True
    then obtain f' g1 where f': "power_loss_file pol f g = Some (f', g1)"
      and rest: "power_loss_names pol names (put_file d n f') g1 = Some (d', g')"
      using Cons.prems by (auto simp: rand_bind_Some)
    have "nd_files d' n = Some f'"
      using power_loss_names_files [OF rest] Cons.prems(2) True by (simp add: put_file_def)
    then show ?thesis using f' by blast
  next
    case False
    then obtain d1 g1 where "power_loss_names pol names d1 g1 = Some (d', g')" "nd_files d1 n = Some f"
      using Cons.prems by (auto simp: rand_bind_Some put_file_def split: option.splits)
    then show ?thesis using Cons.IH Cons.prems False by auto
  qed
qed simp

lemma crash_drawn:
  assumes "nd_up d" and "files_ok d" and "crash_disk pol d g = Some (d', g')" and "nd_files d n = Some f"
  shows "\<exists>f' g1 g2. power_loss_file pol f g1 = Some (f', g2) \<and> nd_files (boot_disk d') n = Some f'"
proof -
  have fin: "finite (dom (nd_files d))" using assms(2) by (simp add: files_ok_def)
  have "power_loss_names pol (sorted_list_of_set (dom (nd_files d))) (d\<lparr>nd_up := False\<rparr>) g = Some (d', g')"
    using assms(1,3) by (simp add: crash_disk_def power_loss_def)
  from power_loss_names_drawn [OF this, of n f] show ?thesis using assms(4) fin by (auto simp: boot_disk_def)
qed

text \<open>A log with one entry, written and not yet synced, for the examples below.\<close>

definition one_entry :: entry where
  "one_entry = \<lparr>e_term = 1, e_index = 1, e_kind = Noop\<rparr>"

definition one_file :: file_state where
  "one_file = \<lparr>fs_id = 0, fs_durable = [], fs_view = recs [one_entry],
     fs_pending = [OpTruncate 0, OpWrite 0 (rec_bytes one_entry)]\<rparr>"

definition one_disk :: node_disk where
  "one_disk = \<lparr>nd_up = True, nd_files = [name_for 1 \<mapsto> one_file], nd_used = length (recs [one_entry])\<rparr>"

definition one_wal :: wal where
  "one_wal = \<lparr>w_opts = default_wal_options, w_segments = [\<lparr>sg_name = name_for 1, sg_first = 1, sg_last = 1,
       sg_size = length (recs [one_entry]), sg_offsets = [0], sg_dirty = True\<rparr>],
     w_state_seq = 0, w_snapshot_slot = 0, w_snapshot_seq = 0, w_stats = default_wal_stats\<rparr>"

lemma one_entry_ok: "rec_ok one_entry" "e_index one_entry = 1"
  by (simp_all add: rec_ok_def one_entry_def entry_ok_def entry_to_bytes_eq MAX_RECORD_def)

lemma one_wal_rep: "wal_rep one_wal one_disk [([], [one_entry])]"
proof -
  have "seg_entries_ok (hd (w_segments one_wal)) [one_entry]"
    using one_entry_ok by (simp add: seg_entries_ok_def one_wal_def)
  moreover have "file_rep one_file [] [one_entry]" by (simp add: file_rep_def one_file_def)
  ultimately have "seg_rep one_disk (hd (w_segments one_wal)) ([], [one_entry])"
    by (simp add: seg_rep_def one_disk_def one_wal_def)
  moreover have "file_ok one_file" by (simp add: file_ok_def one_file_def splice_full)
  then have "files_ok one_disk" by (simp add: files_ok_def one_disk_def ran_def)
  ultimately show ?thesis
    by (auto simp: wal_rep_def linked_def one_wal_def one_disk_def default_wal_options_def)
qed

end
