(* ===== verification/Wal_Props.thy ===== *)
theory Wal_Props
  imports Wal_State
begin

section \<open>What the write-ahead log promises\<close>

text \<open>
  The promises of \<open>wal.rs\<close> to the node, over the simulated disk: appends are all or nothing,
  a sync is a durability barrier, and recovery after a power cut gives back what was synced.
  Each holds for every quota, fault policy and seed.
\<close>

text \<open>
  C16: An append is all or nothing. For entries that continue the log, either it succeeds and
  the log holds the old entries followed by the new ones, or the disk is full, the error is
  reported, and the log in memory and on disk is rolled back to exactly the old entries.
\<close>

theorem append_all_or_nothing:
  assumes "wal_rep w d cs" and "appendable w es" and "wal_append quota es (w, d) = (r, (w', d'))"
  shows "\<exists>cs'. wal_rep w' d' cs' \<and> wal_first_index w' = wal_first_index w \<and>
    (r = Inr () \<and> log_entries cs' = log_entries cs @ es \<or> r = Inl DiskFull \<and> log_entries cs' = log_entries cs)"
  using wal_append_run [OF assms(1,2), of quota] assms(3) by (auto simp: log_step_def)

lemma one_wal_indices: "wal_last_index one_wal = 1" "wal_first_index one_wal = 1"
  by (simp_all add: one_wal_def wal_last_index_def wal_first_index_def)

lemma two_appendable: "appendable one_wal [one_entry\<lparr>e_index := 2\<rparr>]"
  by (simp add: appendable_def one_wal_indices rec_ok_def one_entry_def entry_ok_def entry_to_bytes_eq MAX_RECORD_def)

lemma one_length: "length (recs [one_entry]) = 25"
  by (simp add: length_rec_bytes one_entry_def entry_to_bytes_eq HEADER_def)

lemma one_append_full: "\<exists>t. append_inner (Some 0) [one_entry\<lparr>e_index := 2\<rparr>] (one_wal, one_disk) = (Inl DiskFull, t)"
proof -
  have full: "write_at (Some 0) n off b one_disk = (Inl DiskFull, one_disk)" for n off b
    using one_length by (simp add: write_at_def one_disk_def)
  have rec: "\<exists>t. write_record (Some 0) e (w, one_disk) = (Inl DiskFull, t)" for e w
    by (simp add: write_record_def io_bind_on_disk full Let_def)
  have "append_one (Some 0) (one_entry\<lparr>e_index := 2\<rparr>) (one_wal\<lparr>w_stats := st\<rparr>, one_disk) =
      write_record (Some 0) (one_entry\<lparr>e_index := 2\<rparr>) (one_wal\<lparr>w_stats := st\<rparr>, one_disk)" for st
    using one_length by (simp add: append_one_def one_wal_indices) (simp add: one_wal_def default_wal_options_def)
  moreover let ?w = "one_wal\<lparr>w_stats := (w_stats one_wal)\<lparr>ws_appends := ws_appends (w_stats one_wal) + 1\<rparr>\<rparr>"
  obtain t where "write_record (Some 0) (one_entry\<lparr>e_index := 2\<rparr>) (?w, one_disk) = (Inl DiskFull, t)" using rec by blast
  ultimately show ?thesis by (simp add: append_inner_def) (simp add: io_bind_def)
qed

theorem append_all_or_nothing_witness:
  "\<exists>cs'. log_entries cs' = [one_entry] \<and>
     wal_rep (fst (snd (wal_append (Some 0) [one_entry\<lparr>e_index := 2\<rparr>] (one_wal, one_disk))))
       (snd (snd (wal_append (Some 0) [one_entry\<lparr>e_index := 2\<rparr>] (one_wal, one_disk)))) cs'"
proof -
  let ?run = "wal_append (Some 0) [one_entry\<lparr>e_index := 2\<rparr>] (one_wal, one_disk)"
  have full: "fst ?run = Inl DiskFull" using one_append_full by (auto simp: wal_append_def)
  obtain r w' d' where run: "?run = (r, (w', d'))" by (cases ?run) auto
  from append_all_or_nothing [OF one_wal_rep two_appendable run] show ?thesis using full run by auto
qed

text \<open>
  C15: A sync is a durability barrier for the whole log, across every segment. Once it
  returned, a power cut under any fault policy and any seed loses nothing: opening the log
  again succeeds, finds a clean tail, and recovers exactly the entries that were in it (those
  above the snapshot, when there is one), on a log that is again well formed.
\<close>

theorem synced_log_survives_crash:
  assumes "wal_rep w d cs" and "wal_sync (w, d) = (r, (w', d'))"
    and "crash_disk pol d' g = Some (d'', g')" and "0 < wo_segment_bytes opts"
  shows "r = Inr () \<and> (\<exists>rc d3 cs'. wal_open opts (boot_disk d'') = (Inr rc, d3) \<and> wal_rep (rc_wal rc) d3 cs' \<and>
    log_entries cs' = log_entries cs \<and> rc_tail rc = Clean \<and> rc_truncated rc = 0 \<and>
    rc_entries rc = (if snap_of rc = 0 then log_entries cs else filter (\<lambda>e. snap_of rc < e_index e) (log_entries cs)))"
proof -
  obtain cs' where r: "r = Inr ()" and rep: "wal_rep w' d' cs'" and dur: "durable_entries cs' = log_entries cs"
    and log: "log_entries cs' = log_entries cs"
    using wal_sync_run [OF assms(1)] assms(2) by auto
  have sync: "list_all (\<lambda>c. snd c = []) cs'" using durable_length [of cs'] dur log by fastforce
  have "w_segments w' \<noteq> []" using rep by (simp add: wal_rep_def)
  from wal_open_synced [OF crash_found [OF rep assms(3)] this sync assms(4)] show ?thesis
    using r unfolding log [symmetric] by blast
qed

lemma one_synced:
  "\<exists>w'. wal_sync (one_wal, one_disk) = (Inr (), (w', put_file one_disk (name_for 1)
     (one_file\<lparr>fs_durable := recs [one_entry], fs_pending := []\<rparr>)))"
proof -
  have "file_ok one_file" by (simp add: file_ok_def one_file_def splice_full)
  then have "fsync (name_for 1) one_disk =
      (Inr (), put_file one_disk (name_for 1) (one_file\<lparr>fs_durable := fs_view one_file, fs_pending := []\<rparr>))"
    by (rule fsync_durable) (simp_all add: one_disk_def)
  then have "fsync (name_for 1) one_disk =
      (Inr (), put_file one_disk (name_for 1) (one_file\<lparr>fs_durable := recs [one_entry], fs_pending := []\<rparr>))"
    by (simp add: one_file_def)
  then show ?thesis
    by (simp add: wal_sync_def one_wal_def Let_def io_bind_on_disk) (simp add: io_bind_def on_disk_def on_wal_def bump_stats_def io_return_def)
qed

theorem synced_log_survives_crash_witness:
  "\<exists>rc d'. wal_open default_wal_options (boot_disk (fst (the
       (crash_disk default_disk (snd (snd (wal_sync (one_wal, one_disk)))) (from_seed 1))))) = (Inr rc, d') \<and> rc_tail rc = Clean"
proof -
  let ?d = "put_file one_disk (name_for 1) (one_file\<lparr>fs_durable := recs [one_entry], fs_pending := []\<rparr>)"
  obtain w' where run: "wal_sync (one_wal, one_disk) = (Inr (), (w', ?d))" using one_synced by blast
  have crash: "crash_disk default_disk ?d (from_seed 1) = Some (?d\<lparr>nd_up := False\<rparr>, from_seed 1)"
    by (simp add: crash_disk_def power_loss_def one_disk_def put_file_def power_loss_file_def settle_def one_file_def
        rand_bind_def rand_return_def)
  have "0 < wo_segment_bytes default_wal_options" by (simp add: default_wal_options_def)
  from synced_log_survives_crash [OF one_wal_rep run crash this] show ?thesis using run crash by auto
qed

text \<open>
  A crash at any other moment. Whatever the power cut does to the unsynced writes, opening the
  log succeeds, and what the segments give back are entries with consecutive indices that start
  with the durable ones, those written before the first segment that was not fully synced. When
  there are none of these, the first index recovered can be any: see the last section.
\<close>

lemma crash_keeps_durable:
  assumes "wal_rep w d cs" and "crash_disk pol d g = Some (d', g')"
  shows "\<exists>rc d'' es i. wal_open opts (boot_disk d') = (Inr rc, d'') \<and> prefix (durable_entries cs) es \<and> consecutive i es \<and>
    rc_entries rc = (if snap_of rc = 0 then es else filter (\<lambda>e. snap_of rc < e_index e) es)"
proof -
  have "w_segments w \<noteq> []" using assms(1) by (simp add: wal_rep_def)
  from wal_open_crashed [OF crash_found(1,2) [OF assms] this, of opts] show ?thesis by blast
qed

text \<open>
  C40: Truncation refines cutting the list of entries: the log then holds exactly the entries
  below the index, the synced ones among them still synced, and it starts where it did, or at
  the index itself when that lies at or below the start.
\<close>

theorem truncate_refines_take:
  assumes "wal_rep w d cs" and "from \<noteq> 0"
  shows "\<exists>w' d' cs'. wal_truncate_from from (w, d) = (Inr (), (w', d')) \<and> wal_rep w' d' cs' \<and>
    log_entries cs' = take (unat from - unat (wal_first_index w)) (log_entries cs) \<and>
    prefix (take (unat from - unat (wal_first_index w)) (durable_entries cs)) (durable_entries cs') \<and>
    wal_first_index w' = (if from \<le> wal_last_index w \<and> from \<le> wal_first_index w then from else wal_first_index w)"
  using assms by (rule truncate_from_run)

theorem truncate_refines_take_witness:
  "\<exists>w' d' cs'. wal_truncate_from 1 (one_wal, one_disk) = (Inr (), (w', d')) \<and> wal_rep w' d' cs' \<and> log_entries cs' = []"
  using truncate_refines_take [OF one_wal_rep, of 1] by (auto simp: one_wal_indices)

text \<open>
  Reading an index from the disk gives the entry the log holds there, and nothing for an
  index outside it; the log and the disk are unchanged.
\<close>

lemma read_finds_entry:
  assumes "wal_rep w d cs"
  shows "wal_read i (w, d) = (Inr (log_at w (log_entries cs) i), (w, d))"
  using assms by (rule wal_read_run)

text \<open>
  Compaction only drops whole segments from the front: every dropped entry lies strictly
  below the snapshot index, what is left is a well-formed log with the same last index, and the
  active segment stays.
\<close>

lemma compact_drops_superseded:
  assumes "wal_rep w d cs"
  shows "\<exists>w' d' k. wal_compact_through through (w, d) = (Inr (), (w', d')) \<and> wal_rep w' d' (drop k cs) \<and>
    k < length cs \<and> (\<forall>e \<in> set (log_entries (take k cs)). e_index e < through) \<and> wal_last_index w' = wal_last_index w"
  using assms by (rule wal_compact_run)

subsection \<open>The hard state\<close>

text \<open>
  C17: A saved term and vote are never forgotten. When saving succeeds, a power cut under any
  policy and any seed leaves exactly the new state to be read back; when the disk is full the
  error is reported and the state before is what a crash leaves.
\<close>

theorem hard_state_survives_crash:
  assumes "state_saved d sq hs" and "sq \<le> w_state_seq w" and "unat (w_state_seq w) + 1 < 2 ^ 64"
    and "save_hard_state quota hs' (w, d) = (r, (w', d'))" and "crash_disk pol d' g = Some (d'', g')"
  shows "read_hard_state (boot_disk d'') = (if r = Inr () then (hs', w_state_seq w + 1) else (hs, sq)) \<and>
    (r = Inr () \<or> r = Inl DiskFull)"
proof -
  consider "r = Inr ()" "state_saved d' (w_state_seq w + 1) hs'" | "r = Inl DiskFull" "d' = d"
    using save_hard_state_run [OF assms(1-3), of quota hs'] assms(4) by auto
  then show ?thesis
  proof cases
    case 1
    then show ?thesis using state_saved_read [OF state_saved_crash [OF _ assms(5)]] by simp
  next
    case 2
    then show ?thesis using state_saved_read [OF state_saved_crash [OF _ assms(5)]] assms(1) by simp
  qed
qed

definition blank_disk :: node_disk where
  "blank_disk = snd (open_file ''state'' disk_new)"

lemma blank_saved: "state_saved blank_disk 0 default_hard_state"
  by (simp add: blank_disk_def state_saved_def open_file_def disk_new_def put_file_def files_ok_def file_new_def
      file_ok_def state_view_def)

theorem hard_state_survives_crash_witness:
  "fst (save_hard_state (Some 0) default_hard_state (one_wal, blank_disk)) = Inl DiskFull \<and>
   read_hard_state (boot_disk (fst (the (crash_disk default_disk blank_disk (from_seed 1))))) = (default_hard_state, 0)"
proof -
  have full: "write_at (Some 0) ''state'' off (wal_frame b) blank_disk = (Inl DiskFull, blank_disk)" for off b
    by (simp add: write_at_def blank_disk_def open_file_def disk_new_def put_file_def file_len_def file_new_def HEADER_def)
  then obtain w' where run: "save_hard_state (Some 0) default_hard_state (one_wal, blank_disk) = (Inl DiskFull, (w', blank_disk))"
    by (simp add: save_hard_state_def Let_def io_bind_on_disk)
  have crash: "crash_disk default_disk blank_disk (from_seed 1) = Some (blank_disk\<lparr>nd_up := False\<rparr>, from_seed 1)"
    by (simp add: crash_disk_def power_loss_def blank_disk_def open_file_def disk_new_def put_file_def power_loss_file_def
        settle_def file_new_def rand_bind_def rand_return_def)
  have seq: "w_state_seq one_wal = 0" by (simp add: one_wal_def)
  show ?thesis
    using hard_state_survives_crash [OF blank_saved _ _ run crash] run crash seq by simp
qed

text \<open>
  A save up to the moment its write has been accepted: the sequence number has moved on and
  the record is in the page cache of the other slot, but the sync has not begun.
\<close>

definition save_unsynced :: "nat option \<Rightarrow> hard_state \<Rightarrow> (wal_disk, unit) io" where
  "save_unsynced quota hs =
     io_bind (on_wal (\<lambda>w. w\<lparr>w_state_seq := w_state_seq w + 1\<rparr>)) (\<lambda>_. \<lambda>(w, d).
       let slot = unat (w_state_seq w mod 2) * STATE_SLOT in
       on_disk (write_at quota ''state'' slot (wal_frame (state_encode (w_state_seq w) hs))) (w, d))"

lemma save_hard_state_halves:
  "save_hard_state quota hs = io_bind (save_unsynced quota hs) (\<lambda>_.
     io_bind (on_disk (fsync ''state'')) (\<lambda>_. bump_stats (\<lambda>t. t\<lparr>ws_fsyncs := ws_fsyncs t + 1\<rparr>)))"
  by (rule ext) (auto simp: save_hard_state_def save_unsynced_def io_bind_def on_wal_def Let_def split: sum.split prod.split)

lemma slot_write_atomic:
  assumes "state_saved d sq hs" and "sq < t" and "dk_sector_size pol dvd STATE_SLOT" and "64 \<le> dk_sector_size pol"
    and "write_at quota ''state'' (unat (t mod 2) * STATE_SLOT) (wal_frame (state_encode t hs')) d = (Inr (), d1)"
    and "crash_disk pol d1 g = Some (d2, g')"
  shows "read_hard_state (boot_disk d2) \<in> {(hs, sq), (hs', t)}"
proof -
  let ?off = "unat (t mod 2) * STATE_SLOT" and ?fr = "wal_frame (state_encode t hs')"
  obtain f where f: "nd_files d ''state'' = Some f" "fs_pending f = []" "fs_durable f = fs_view f" "state_view (fs_view f) sq hs"
    and up: "nd_up d" and ok: "files_ok d"
    using assms(1) by (auto simp: state_saved_def)
  let ?f = "f\<lparr>fs_view := splice (fs_view f) ?off ?fr, fs_pending := [OpWrite ?off ?fr]\<rparr>"
  have d1: "nd_files d1 ''state'' = Some ?f" "nd_up d1"
    using assms(5) f up by (auto simp: write_at_def Let_def put_file_def split: if_splits)
  have ok1: "files_ok d1" using write_at_files_ok [OF ok, of quota "''state''" ?off ?fr] assms(5) by simp
  obtain f' g1 g2 where pl: "power_loss_file pol ?f g1 = Some (f', g2)" and f': "nd_files (boot_disk d2) ''state'' = Some f'"
    using crash_drawn [OF d1(2) ok1 assms(6) d1(1)] by blast
  obtain fate g3 where fate: "op_fate pol (OpWrite ?off ?fr) g1 = Some (fate, g3)"
    and view: "fs_view f' = land fate (OpWrite ?off ?fr) (fs_view f)"
    using pl f(3) by (auto simp: power_loss_file_def rand_bind_Some rand_return_def settle_def)
  have "length ?fr \<le> dk_sector_size pol" using length_state_encode(2) [of t hs'] assms(4) by (simp add: HEADER_def)
  moreover have "?fr \<noteq> []" by (simp add: wal_frame_def flip: length_greater_0_conv)
  ultimately have "fate \<in> {Landed, Lost, Torn 0}" using aligned_write_whole [OF fate] assms(3) by simp
  then have "fs_view f' = fs_view f \<or> fs_view f' = splice (fs_view f) ?off ?fr" using view by auto
  then show ?thesis
    using read_hard_state_view [OF f'] f(4) state_view_write [OF f(4) assms(2), of hs'] by auto
qed

text \<open>
  C18: Saving the hard state is atomic. A save is an accepted write followed by a sync. A
  power cut between the two leaves the old state or the new one and never a mixture, under
  every policy whose sectors divide the 4096-byte slots and hold at least the 64 bytes that a
  slot record may take.
\<close>

theorem hard_state_atomic:
  assumes "state_saved d sq hs" and "sq \<le> w_state_seq w" and "unat (w_state_seq w) + 1 < 2 ^ 64"
    and "dk_sector_size pol dvd STATE_SLOT" and "64 \<le> dk_sector_size pol"
    and "save_unsynced quota hs' (w, d) = (Inr (), (w', d1))" and "crash_disk pol d1 g = Some (d2, g')"
  shows "save_hard_state quota hs' = io_bind (save_unsynced quota hs') (\<lambda>_. io_bind (on_disk (fsync ''state''))
      (\<lambda>_. bump_stats (\<lambda>t. t\<lparr>ws_fsyncs := ws_fsyncs t + 1\<rparr>))) \<and>
    read_hard_state (boot_disk d2) \<in> {(hs, sq), (hs', w_state_seq w + 1)}"
proof -
  let ?t = "w_state_seq w + 1"
  have "write_at quota ''state'' (unat (?t mod 2) * STATE_SLOT) (wal_frame (state_encode ?t hs')) d = (Inr (), d1)"
    using assms(6) by (auto simp: save_unsynced_def io_bind_def on_wal_def on_disk_def Let_def split: prod.splits)
  moreover have "sq < ?t" using assms(2,3) unat_plus_one [of "w_state_seq w"] by (simp add: word_less_nat_alt word_le_nat_alt)
  ultimately show ?thesis
    using slot_write_atomic [OF assms(1) _ assms(4,5) _ assms(7)] save_hard_state_halves by blast
qed

theorem hard_state_atomic_witness:
  "read_hard_state (boot_disk (fst (the (crash_disk (fp_disk benign)
     (snd (snd (save_unsynced None default_hard_state (one_wal, blank_disk)))) (from_seed 1)))))
   \<in> {(default_hard_state, 0), (default_hard_state, 1)}"
proof -
  let ?fr = "wal_frame (state_encode 1 default_hard_state)"
  define f where "f = (file_new ''state'')\<lparr>fs_view := splice [] 4096 ?fr, fs_pending := [OpWrite 4096 ?fr]\<rparr>"
  define d1 where "d1 = snd (write_at None ''state'' 4096 ?fr blank_disk)"
  have acc: "write_at None ''state'' 4096 ?fr blank_disk = (Inr (), d1)" and up: "nd_up d1" and fs: "nd_files d1 = [''state'' \<mapsto> f]"
    by (simp_all add: d1_def f_def write_at_def blank_disk_def open_file_def disk_new_def put_file_def file_new_def)
  have seq: "w_state_seq one_wal = 0" by (simp add: one_wal_def)
  obtain w' where run: "save_unsynced None default_hard_state (one_wal, blank_disk) = (Inr (), (w', d1))"
    using acc seq by (simp add: save_unsynced_def io_bind_def on_wal_def on_disk_def STATE_SLOT_def)
  have pend: "fs_pending f = [OpWrite 4096 ?fr]" by (simp add: f_def)
  have "\<exists>d'. crash_disk (fp_disk benign) d1 (from_seed 1) = Some (d', from_seed 1)"
    using up fs pend by (simp add: crash_disk_def power_loss_def power_loss_file_def op_fate_def benign_def rand_bind_def rand_return_def)
  then obtain d' where crash: "crash_disk (fp_disk benign) d1 (from_seed 1) = Some (d', from_seed 1)" by blast
  have "dk_sector_size (fp_disk benign) = STATE_SLOT" by (simp add: benign_def default_disk_def STATE_SLOT_def)
  then show ?thesis
    using hard_state_atomic [OF blank_saved _ _ _ _ run crash] run crash seq by (simp add: STATE_SLOT_def)
qed

text \<open>
  Double buffering is lost after a full disk. A save that fails has already advanced the
  sequence number, so the next save writes the slot that holds the state in force.
\<close>

lemma failed_save_then_live_slot:
  assumes "save_hard_state quota hs' (w, d) = (Inl DiskFull, (w', d'))"
  shows "unat ((w_state_seq w' + 1) mod 2) = unat (w_state_seq w mod 2)"
proof -
  have "w_state_seq w' = w_state_seq w + 1"
    using assms by (auto simp: save_hard_state_def Let_def io_bind_on_disk split: prod.splits sum.splits)
  moreover have "(x + 1 + 1) mod 2 = x mod 2" for x :: u64
  proof -
    have "x + 1 + 1 = x + 2" by simp
    then have "bit (x + 1 + 1) 0 = bit x 0" by (simp add: bit_0 even_add)
    then show ?thesis by (simp add: bit_0 mod_2_eq_odd)
  qed
  ultimately show ?thesis by simp
qed

subsection \<open>A hole at the start of the log\<close>

text \<open>
  Recovery checks that a segment continues the entries recovered before it, except when there
  are none. When the first segment lost its unsynced records and a later one kept them, the
  log that is recovered starts after a hole, and its tail is reported clean.
\<close>

definition two_entry :: entry where
  "two_entry = one_entry\<lparr>e_index := 2\<rparr>"

definition seg_at :: "entry \<Rightarrow> segment" where
  "seg_at e = \<lparr>sg_name = name_for (e_index e), sg_first = e_index e, sg_last = e_index e,
     sg_size = length (recs [e]), sg_offsets = [0], sg_dirty = True\<rparr>"

definition unsynced_file :: "entry \<Rightarrow> file_state" where
  "unsynced_file e = \<lparr>fs_id = 0, fs_durable = [], fs_view = recs [e], fs_pending = [OpTruncate 0, OpWrite 0 (rec_bytes e)]\<rparr>"

definition hole_before :: node_disk where
  "hole_before = \<lparr>nd_up = True, nd_files = [name_for 1 \<mapsto> unsynced_file one_entry, name_for 2 \<mapsto> unsynced_file two_entry],
     nd_used = 50\<rparr>"

definition hole_after :: node_disk where
  "hole_after = hole_before\<lparr>nd_files := [name_for 1 \<mapsto> settle (unsynced_file one_entry) [],
     name_for 2 \<mapsto> settle (unsynced_file two_entry) (recs [two_entry])]\<rparr>"

lemma two_entry_ok: "rec_ok two_entry" "e_index two_entry = 2"
  by (simp_all add: two_entry_def rec_ok_def one_entry_def entry_ok_def entry_to_bytes_eq MAX_RECORD_def)

definition hole_wal :: wal where
  "hole_wal = one_wal\<lparr>w_opts := default_wal_options\<lparr>wo_segment_bytes := 1\<rparr>, w_segments := [seg_at one_entry, seg_at two_entry]\<rparr>"

lemma hole_rep: "wal_rep hole_wal hole_before [([], [one_entry]), ([], [two_entry])]"
proof -
  have ok: "seg_rep hole_before (seg_at one_entry) ([], [one_entry])" "seg_rep hole_before (seg_at two_entry) ([], [two_entry])"
    using one_entry_ok two_entry_ok
    by (auto simp: seg_rep_def seg_entries_ok_def seg_at_def hole_before_def file_rep_def unsynced_file_def)
  have "file_ok (unsynced_file e)" for e by (simp add: file_ok_def unsynced_file_def splice_full)
  then have "files_ok hole_before" by (auto simp: files_ok_def hole_before_def ran_def split: if_splits)
  moreover have "linked (w_segments hole_wal) [([], [one_entry]), ([], [two_entry])]"
    using one_entry_ok two_entry_ok by (simp add: linked_def hole_wal_def seg_at_def less_Suc_eq)
  moreover have "{n \<in> dom (nd_files hole_before). index_from_name n \<noteq> None} = sg_name ` set (w_segments hole_wal)"
    using one_entry_ok two_entry_ok by (auto simp: hole_before_def hole_wal_def seg_at_def split: if_splits)
  ultimately show ?thesis using ok by (simp add: wal_rep_def hole_wal_def hole_before_def)
qed

lemma hole_lands: "disk_lands hole_before hole_after"
proof -
  have a: "[] \<in> outcomes [OpTruncate 0, OpWrite 0 b] []" for b
    by (auto intro!: exI [of _ Lost])
  have b: "recs [e] \<in> outcomes [OpTruncate 0, OpWrite 0 (rec_bytes e)] []" for e
    by (auto intro!: exI [of _ Landed] simp: splice_full)
  have "lands (unsynced_file one_entry) (settle (unsynced_file one_entry) [])"
    unfolding lands_def by (rule bexI [of _ "[]"]) (use a in \<open>simp_all only: unsynced_file_def file_state.simps\<close>)
  moreover have "lands (unsynced_file two_entry) (settle (unsynced_file two_entry) (recs [two_entry]))"
    unfolding lands_def by (rule bexI [of _ "recs [two_entry]"]) (use b in \<open>simp_all only: unsynced_file_def file_state.simps\<close>)
  ultimately show ?thesis by (simp add: disk_lands_def rel_fun_def hole_before_def hole_after_def)
qed

lemma recovery_skips_hole:
  "wal_rep hole_wal hole_before [([], [one_entry]), ([], [two_entry])] \<and> disk_lands hole_before hole_after \<and>
   (\<exists>rc d'. wal_open default_wal_options hole_after = (Inr rc, d') \<and> rc_tail rc = Clean \<and> snap_of rc = 0 \<and> rc_entries rc = [two_entry])"
proof (intro conjI hole_rep hole_lands)
  let ?ry = "\<lparr>ry_segments = [], ry_entries = [], ry_tail = Clean, ry_truncated = 0\<rparr>"
  let ?ss = "[segment_new 1, seg_at two_entry]"
  define d1 where "d1 = snd (open_file (snapshot_name 1) (snd (open_file (snapshot_name 0) (snd (open_file ''state'' hole_after)))))"
  have files: "nd_files d1 = (nd_files hole_after)(''state'' \<mapsto> file_new ''state'', snapshot_name 0 \<mapsto> file_new (snapshot_name 0),
      snapshot_name 1 \<mapsto> file_new (snapshot_name 1))"
    using snapshot_names_differ
    by (auto simp: d1_def open_file_def put_file_def hole_after_def)
  have names: "segment_names (sorted_list_of_set (dom (nd_files d1))) = [(1, name_for 1), (2, name_for 2)]"
  proof -
    have "{n \<in> dom (nd_files d1). index_from_name n \<noteq> None} = sg_name ` set ?ss"
      using two_entry_ok by (auto simp: files hole_after_def segment_new_def seg_at_def split: if_splits)
    from segment_names_eq [OF this] show ?thesis
      using two_entry_ok by (simp add: files hole_after_def segment_new_def seg_at_def)
  qed
  have f1: "found d1 (segment_new 1) ([], [])"
    by (auto simp: found_def leaves_def files hole_after_def segment_new_def settle_def
        seg_entries_ok_def sat_sub_def)
  have f2: "found d1 (seg_at two_entry) ([two_entry], [])"
    using two_entry_ok by (auto simp: found_def leaves_def files hole_after_def seg_at_def settle_def seg_entries_ok_def)
  show "\<exists>rc d'. wal_open default_wal_options hole_after = (Inr rc, d') \<and> rc_tail rc = Clean \<and> snap_of rc = 0 \<and> rc_entries rc = [two_entry]"
  proof -
    define d0 where "d0 = snd (open_file ''state'' hole_after)"
    obtain hs seq where hs: "read_hard_state d0 = (hs, seq)" by (cases "read_hard_state d0")
    have none: "read_snapshot (snd (open_file (snapshot_name k) d)) (snapshot_name k) = None" if "nd_files d (snapshot_name k) = None" for d k
      using that by (simp add: read_snapshot_def file_len_def open_file_def put_file_def file_new_def HEADER_def)
    have fresh: "nd_files d0 (snapshot_name 0) = None" "nd_files (snd (open_file (snapshot_name 0) d0)) (snapshot_name 1) = None"
      using snapshot_names_differ by (auto simp: d0_def open_file_def put_file_def hole_after_def)
    have snap: "recover_snapshot d0 = (Inr (None, 0, 0), d1)"
      unfolding recover_snapshot_def using none [OF fresh(1)] none [OF fresh(2)]
      by (simp only: bind_open Let_def better_snapshot_def option.case d1_def d0_def [symmetric])
    let ?ry1 = "?ry\<lparr>ry_segments := [undirty (segment_new 1)]\<rparr>"
    have r1: "recover_segment (1, name_for 1) ?ry d1 = (Inr ?ry1, d1)"
      using recover_synced [OF f1, of ?ry] by (simp add: follows_def segment_new_def)
    let ?ry2 = "?ry\<lparr>ry_segments := [undirty (segment_new 1), undirty (seg_at two_entry)], ry_entries := [two_entry]\<rparr>"
    have r2: "recover_segment (2, name_for 2) ?ry1 d1 = (Inr ?ry2, d1)"
      using recover_synced [OF f2, of ?ry1] two_entry_ok by (simp add: follows_def seg_at_def)
    have "recover_segments [(1, name_for 1), (2, name_for 2)] ?ry d1 = (Inr ?ry2, d1)"
      using r1 r2 by (simp add: io_bind_def io_return_def)
    then have run: "wal_open default_wal_options hole_after = wal_assemble default_wal_options hs seq None 0 0 ?ry2 d1"
      unfolding wal_open_def using snap names by (simp add: bind_open d0_def [symmetric] hs) (simp add: io_bind_def list_files_def)
    show ?thesis unfolding run by (simp add: wal_assemble_def snap_of_def Let_def)
  qed
qed

end
