(* ===== verification/Lin_History.thy ===== *)
theory Lin_History
  imports Chrono_Prelude "HOL-Library.List_Lexorder" "HOL-Library.Product_Lexorder"
begin

section \<open>Client histories\<close>

text \<open>
  The file \<open>history.rs\<close>: operations with what the client observed and when, histories as lists in
  the order they were recorded, their sorting, the split by key and the width of the concurrency.
  Display is not modelled.
\<close>

type_synonym cell = "bytes option"

datatype kv_op =
    OpRead bytes
  | OpPut bytes bytes
  | OpDel bytes
  | OpCas bytes cell cell

datatype op_ret =
    RetValue cell
  | RetOk
  | RetCasFailed
  | RetUnknown

record op_event =
  ev_client :: u64
  ev_op :: kv_op
  ev_ret :: op_ret
  ev_invoked :: u64
  ev_returned :: u64

fun op_key :: "kv_op \<Rightarrow> bytes" where
  "op_key (OpRead k) = k"
| "op_key (OpPut k v) = k"
| "op_key (OpDel k) = k"
| "op_key (OpCas k e v) = k"

definition is_unknown :: "op_event \<Rightarrow> bool" where
  "is_unknown e \<longleftrightarrow> ev_ret e = RetUnknown"

definition concurrent_with :: "op_event \<Rightarrow> op_event \<Rightarrow> bool" where
  "concurrent_with a b \<longleftrightarrow> ev_invoked a < ev_returned b \<and> ev_invoked b < ev_returned a"

type_synonym hist = "op_event list"

definition unknown_count :: "hist \<Rightarrow> nat" where
  "unknown_count h = length (filter is_unknown h)"

definition hist_sorted :: "hist \<Rightarrow> hist" where
  "hist_sorted h = sort_key (\<lambda>e. (ev_invoked e, ev_returned e, ev_client e)) h"

text \<open>The sub-history of one key, and the keys in the order of the map.\<close>

definition ev_key :: "op_event \<Rightarrow> bytes" where
  "ev_key e = op_key (ev_op e)"

definition hist_key :: "hist \<Rightarrow> bytes \<Rightarrow> hist" where
  "hist_key h k = hist_sorted (filter (\<lambda>e. ev_key e = k) h)"

definition by_key :: "hist \<Rightarrow> (bytes \<times> hist) list" where
  "by_key h = map (\<lambda>k. (k, hist_key h k)) (sorted_list_of_set (ev_key ` set h))"

fun widest :: "int \<Rightarrow> int \<Rightarrow> (u64 \<times> int) list \<Rightarrow> int" where
  "widest cur best [] = best"
| "widest cur best ((t, delta) # ps) = widest (cur + delta) (max best (cur + delta)) ps"

definition max_concurrency :: "hist \<Rightarrow> nat" where
  "max_concurrency h = nat (widest 0 0 (sort (concat (map (\<lambda>e. [(ev_invoked e, 1), (ev_returned e, - 1)]) h))))"

subsection \<open>Sorting and splitting\<close>

lemma mset_hist_sorted [simp]: "mset (hist_sorted h) = mset h"
  by (simp add: hist_sorted_def)

lemma set_hist_sorted [simp]: "set (hist_sorted h) = set h"
  by (simp add: hist_sorted_def)

lemma length_hist_sorted [simp]: "length (hist_sorted h) = length h"
  by (simp add: hist_sorted_def)

lemma hist_sorted_Nil [simp]: "hist_sorted h = [] \<longleftrightarrow> h = []"
  by (metis length_0_conv length_hist_sorted)

text \<open>The checker walks events in the order of their invocation.\<close>

definition by_invocation :: "hist \<Rightarrow> bool" where
  "by_invocation h \<longleftrightarrow> (\<forall>i j. i \<le> j \<longrightarrow> j < length h \<longrightarrow> ev_invoked (h ! i) \<le> ev_invoked (h ! j))"

lemma hist_sorted_by_invocation: "by_invocation (hist_sorted h)"
proof -
  let ?k = "\<lambda>e. (ev_invoked e, ev_returned e, ev_client e)"
  have "sorted (map ?k (hist_sorted h))" by (simp add: hist_sorted_def)
  then have "?k (hist_sorted h ! i) \<le> ?k (hist_sorted h ! j)" if "i \<le> j" "j < length h" for i j
    using that sorted_nth_mono [of "map ?k (hist_sorted h)" i j] by simp
  then have "ev_invoked (hist_sorted h ! i) \<le> ev_invoked (hist_sorted h ! j)" if "i \<le> j" "j < length h" for i j
    using that unfolding less_eq_prod_def fst_conv by (meson less_imp_le)
  then show ?thesis by (simp add: by_invocation_def)
qed

lemma filter_hist_sorted: "hist_key h k = filter (\<lambda>e. ev_key e = k) (hist_sorted h)"
  by (simp add: hist_key_def hist_sorted_def filter_sort)

end
