(* ===== verification/Lin_Check.thy ===== *)
theory Lin_Check
  imports Lin_History
begin

unbundle bit_operations_syntax

section \<open>The linearizability checker\<close>

text \<open>
  The file \<open>linearizability.rs\<close>: the register model, the Wing and Gong search of one key with its
  explicit stack, visited set and exploration budget, and the check of a whole history key by
  key. The loop over the stack runs at most \<open>max_states\<close> times by its own test, which is the
  recursion argument here; the loop over the cursor of a frame stops at a constant bound. The
  top of the stack is the head of the list. Display of verdicts is not modelled.
\<close>

fun model_step :: "cell \<Rightarrow> op_event \<Rightarrow> cell option" where
  "model_step m e = (case (ev_op e, ev_ret e) of
       (OpRead _, RetValue v) \<Rightarrow> if v = m then Some m else None
     | (OpPut _ v, RetOk) \<Rightarrow> Some (Some v)
     | (OpDel _, RetOk) \<Rightarrow> Some None
     | (OpCas _ e v, RetOk) \<Rightarrow> if e = m then Some v else None
     | (OpCas _ e v, RetCasFailed) \<Rightarrow> if e = m then None else Some m
     | (OpRead _, RetUnknown) \<Rightarrow> Some m
     | (OpPut _ v, RetUnknown) \<Rightarrow> Some (Some v)
     | (OpDel _, RetUnknown) \<Rightarrow> Some None
     | (OpCas _ e v, RetUnknown) \<Rightarrow> if e = m then Some v else Some m
     | _ \<Rightarrow> None)"

declare model_step.simps [simp del]

record violation =
  vi_culprit :: op_event
  vi_linearized :: "op_event list"
  vi_model_value :: cell
  vi_concurrent :: "op_event list"

datatype verdict =
    Linearizable
  | NotLinearizable violation
  | Inconclusive nat nat

definition is_linearizable :: "verdict \<Rightarrow> bool" where
  "is_linearizable v \<longleftrightarrow> v = Linearizable"

definition is_violation :: "verdict \<Rightarrow> bool" where
  "is_violation v \<longleftrightarrow> (case v of NotLinearizable _ \<Rightarrow> True | _ \<Rightarrow> False)"

definition default_max_states :: nat where "default_max_states = 2000000"

definition AHEAD :: nat where "AHEAD = 63"

definition trailing_ones :: "u64 \<Rightarrow> nat" where
  "trailing_ones a = length (takeWhile (bit a) [0..<64])"

text \<open>Where the frontier and the mask go when the operation at \<open>offset\<close> is placed.\<close>

definition place :: "nat \<Rightarrow> u64 \<Rightarrow> nat \<Rightarrow> nat \<times> u64" where
  "place frontier ahead offset =
     (if offset = 0
      then let t = trailing_ones ahead in
        (frontier + 1 + t, if t + 1 \<ge> 64 then 0 else drop_bit (t + 1) ahead)
      else (frontier, ahead OR push_bit (offset - 1) 1))"

type_synonym conf = "cell \<times> nat \<times> u64"

record lin_frame =
  fr_model :: cell
  fr_frontier :: nat
  fr_ahead :: u64
  fr_cursor :: nat
  fr_chose :: "nat option"

text \<open>
  The inner loop: the next move of a frame from its cursor on. The result is the new cursor,
  whether the window cut off a candidate, and the configuration and index of the move if any.
\<close>

function seek :: "hist \<Rightarrow> cell \<Rightarrow> nat \<Rightarrow> u64 \<Rightarrow> conf set \<Rightarrow> nat \<Rightarrow> nat \<times> bool \<times> (conf \<times> nat) option" where
  "seek es m frontier ahead visited cursor =
     (if \<not> cursor < 2 * (AHEAD + 2) then (cursor, False, None)
      else let horizon = ev_returned (es ! frontier);
               offset = cursor div 2;
               skip_effect = odd cursor;
               i = frontier + offset
        in if i \<ge> length es then (cursor + 1, False, None)
        else if offset > AHEAD then (cursor + 1, ev_invoked (es ! i) \<le> horizon, None)
        else if offset > 0 \<and> bit ahead (offset - 1) then seek es m frontier ahead visited (cursor + 1)
        else if ev_invoked (es ! i) > horizon then (cursor + 1, False, None)
        else if skip_effect \<and> \<not> is_unknown (es ! i) then seek es m frontier ahead visited (cursor + 1)
        else case (if skip_effect then Some m else model_step m (es ! i)) of
               None \<Rightarrow> seek es m frontier ahead visited (cursor + 1)
             | Some m' \<Rightarrow>
                 let c = (m', place frontier ahead offset) in
                 if c \<in> visited then seek es m frontier ahead visited (cursor + 1)
                 else (cursor + 1, False, Some (c, i)))"
  by pat_completeness auto

termination
  by (relation "measure (\<lambda>(_, _, _, _, _, cursor). 2 * (AHEAD + 2) - cursor)") (auto simp: AHEAD_def)

declare seek.simps [simp del]

record search_state =
  ss_stack :: "lin_frame list"
  ss_visited :: "conf set"
  ss_explored :: nat
  ss_bounded_out :: bool
  ss_best_depth :: nat
  ss_best_trace :: "nat list"
  ss_best_model :: cell

definition search_init :: search_state where
  "search_init = \<lparr>
     ss_stack = [\<lparr>fr_model = None, fr_frontier = 0, fr_ahead = 0, fr_cursor = 0, fr_chose = None\<rparr>],
     ss_visited = {}, ss_explored = 0, ss_bounded_out = False,
     ss_best_depth = 0, ss_best_trace = [], ss_best_model = None\<rparr>"

text \<open>One round on the top of the stack: push the next configuration, or pop.\<close>

definition search_round :: "hist \<Rightarrow> search_state \<Rightarrow> search_state" where
  "search_round es s = (case ss_stack s of
       [] \<Rightarrow> s
     | fr # rest \<Rightarrow>
         (case seek es (fr_model fr) (fr_frontier fr) (fr_ahead fr) (ss_visited s) (fr_cursor fr) of
            (cursor, bounded, None) \<Rightarrow>
              s\<lparr>ss_stack := rest, ss_bounded_out := ss_bounded_out s \<or> bounded\<rparr>
          | (cursor, bounded, Some ((m, frontier, ahead), i)) \<Rightarrow>
              let stack = fr\<lparr>fr_cursor := cursor\<rparr> # rest;
                  deeper = frontier > ss_best_depth s
              in s\<lparr>ss_stack := \<lparr>fr_model = m, fr_frontier = frontier, fr_ahead = ahead, fr_cursor = 0,
                                fr_chose = Some i\<rparr> # stack,
                   ss_visited := insert (m, frontier, ahead) (ss_visited s),
                   ss_bounded_out := ss_bounded_out s \<or> bounded,
                   ss_best_depth := (if deeper then frontier else ss_best_depth s),
                   ss_best_trace := (if deeper then List.map_filter fr_chose (rev stack) @ [i] else ss_best_trace s),
                   ss_best_model := (if deeper then m else ss_best_model s)\<rparr>))"

definition search_finish :: "hist \<Rightarrow> search_state \<Rightarrow> verdict" where
  "search_finish es s =
     (if ss_bounded_out s then Inconclusive (ss_explored s) (max_concurrency es)
      else let culprit = es ! min (ss_best_depth s) (length es - 1) in
        NotLinearizable \<lparr>vi_culprit = culprit,
          vi_linearized = map ((!) es) (ss_best_trace s),
          vi_model_value = ss_best_model s,
          vi_concurrent = filter (\<lambda>e. concurrent_with e culprit \<and> e \<noteq> culprit) es\<rparr>)"

primrec search :: "hist \<Rightarrow> nat \<Rightarrow> search_state \<Rightarrow> verdict" where
  "search es 0 s =
     (if ss_stack s = [] then search_finish es s
      else Inconclusive (ss_explored s + 1) (max_concurrency es))"
| "search es (Suc k) s =
     (if ss_stack s = [] then search_finish es s
      else let s = s\<lparr>ss_explored := ss_explored s + 1\<rparr> in
        if fr_frontier (hd (ss_stack s)) = length es then Linearizable
        else search es k (search_round es s))"

definition check_one_key :: "hist \<Rightarrow> nat \<Rightarrow> verdict" where
  "check_one_key h max_states =
     (let es = hist_sorted h in
      if length es = 0 then Linearizable else search es max_states search_init)"

fun check_keys :: "nat \<Rightarrow> (bytes \<times> hist) list \<Rightarrow> verdict" where
  "check_keys max_states [] = Linearizable"
| "check_keys max_states ((k, sub) # rest) =
     (case check_one_key sub max_states of Linearizable \<Rightarrow> check_keys max_states rest | other \<Rightarrow> other)"

text \<open>The limit is a \<open>u64\<close> in the code; as a natural number it covers every value it can have.\<close>

definition lin_check :: "hist \<Rightarrow> nat \<Rightarrow> verdict" where
  "lin_check h max_states = check_keys max_states (by_key h)"

end
