(* ===== verification/Lin_Correct.thy ===== *)
theory Lin_Correct
  imports Lin_Check
begin

unbundle bit_operations_syntax

section \<open>What the verdicts mean\<close>

text \<open>
  The specification of linearizability, independent of the search: a total order of the
  operations that took effect, legal for a register and compatible with real time. The search
  visits every configuration reachable by a legal move, so it never reports a violation of a
  linearizable history.
\<close>

subsection \<open>Specification\<close>

text \<open>
  An order of a history is a list of indices. It may leave out operations with an unknown
  outcome; it may not put an operation before one that had returned when it was invoked.
\<close>

definition covers :: "hist \<Rightarrow> nat list \<Rightarrow> bool" where
  "covers es ord \<longleftrightarrow> distinct ord \<and> set ord \<subseteq> {..<length es} \<and> (\<forall>i < length es. is_unknown (es ! i) \<or> i \<in> set ord)"

definition precedes :: "hist \<Rightarrow> nat \<Rightarrow> nat \<Rightarrow> bool" where
  "precedes es i j \<longleftrightarrow> ev_returned (es ! i) < ev_invoked (es ! j)"

definition real_time :: "hist \<Rightarrow> nat list \<Rightarrow> bool" where
  "real_time es ord \<longleftrightarrow> sorted_wrt (\<lambda>i j. \<not> precedes es j i) ord"

fun run_model :: "cell \<Rightarrow> hist \<Rightarrow> cell option" where
  "run_model m [] = Some m"
| "run_model m (e # es) = (case model_step m e of None \<Rightarrow> None | Some m' \<Rightarrow> run_model m' es)"

definition linearizes :: "hist \<Rightarrow> nat list \<Rightarrow> bool" where
  "linearizes es ord \<longleftrightarrow> covers es ord \<and> real_time es ord \<and> run_model None (map ((!) es) ord) \<noteq> None"

definition key_linearizable :: "hist \<Rightarrow> bool" where
  "key_linearizable es \<longleftrightarrow> (\<exists>ord. linearizes es ord)"

definition windows_ok :: "hist \<Rightarrow> bool" where
  "windows_ok es \<longleftrightarrow> (\<forall>e \<in> set es. ev_invoked e \<le> ev_returned e)"

lemma run_model_append:
  "run_model m (xs @ ys) = (case run_model m xs of None \<Rightarrow> None | Some m' \<Rightarrow> run_model m' ys)"
  by (induction xs arbitrary: m) (simp_all split: option.split)

subsection \<open>Placing operations\<close>

definition placed :: "nat \<Rightarrow> u64 \<Rightarrow> nat set" where
  "placed f a = {..<f} \<union> {f + 1 + k |k. bit a k}"

lemma placed_init [simp]: "placed 0 0 = {}"
  by (simp add: placed_def)

lemma frontier_not_placed [simp]: "f \<notin> placed f a"
  by (simp add: placed_def)

lemma placed_mem: "f + offset \<in> placed f a \<longleftrightarrow> 0 < offset \<and> bit a (offset - 1)"
proof (cases offset)
  case (Suc k)
  then show ?thesis by (auto simp: placed_def)
qed simp

lemma trailing_ones_bits:
  "k < trailing_ones a \<Longrightarrow> bit a k" "trailing_ones a < 64 \<Longrightarrow> \<not> bit a (trailing_ones a)" "trailing_ones a \<le> 64"
proof -
  let ?t = "takeWhile (bit a) [0..<64]"
  show le: "trailing_ones a \<le> 64" unfolding trailing_ones_def using length_takeWhile_le [of "bit a" "[0..<64]"] by simp
  show "bit a k" if "k < trailing_ones a"
  proof -
    have "?t ! k = [0..<64] ! k" using that by (simp add: trailing_ones_def takeWhile_nth)
    then have "?t ! k = k" using that le by simp
    moreover have "bit a (?t ! k)" using that by (metis nth_mem set_takeWhileD trailing_ones_def)
    ultimately show ?thesis by simp
  qed
  show "\<not> bit a (trailing_ones a)" if "trailing_ones a < 64"
    using that nth_length_takeWhile [of "bit a" "[0..<64]"] by (simp add: trailing_ones_def)
qed

lemma placed_place:
  assumes "offset \<le> AHEAD"
  shows "placed (fst (place f a offset)) (snd (place f a offset)) = insert (f + offset) (placed f a)"
proof (cases "offset = 0")
  case False
  then obtain k where k: "offset = Suc k" "k < 64" using assms by (cases offset) (simp_all add: AHEAD_def)
  have "bit (a OR push_bit k 1) j \<longleftrightarrow> bit a j \<or> j = k" for j
    using k(2) by (auto simp: bit_or_iff bit_exp_iff push_bit_of_1)
  then show ?thesis using k(1) by (auto simp: place_def placed_def)
next
  case True
  let ?t = "trailing_ones a"
  note t = trailing_ones_bits [where a = a]
  define a' where "a' = (if ?t + 1 \<ge> 64 then 0 else drop_bit (?t + 1) a)"
  have a': "bit a' k \<longleftrightarrow> bit a (?t + 1 + k)" for k
  proof (cases "?t + 1 \<ge> 64")
    case True
    then have "\<not> bit a (?t + 1 + k)" using bit_imp_le_length [of a "?t + 1 + k"] by auto
    then show ?thesis using True by (simp add: a'_def)
  qed (simp add: a'_def bit_drop_bit_eq)
  have nt: "\<not> bit a ?t" using t(2,3) bit_imp_le_length [of a ?t] by (cases "?t = 64") auto
  have "x \<in> placed (f + 1 + ?t) a' \<longleftrightarrow> x \<in> insert f (placed f a)" for x
  proof -
    consider "x < f" | "x = f" | k where "x = f + 1 + k" "k < ?t" | "x = f + 1 + ?t" | k where "x = f + 1 + ?t + 1 + k"
      by (metis add.assoc add.commute less_iff_Suc_add linorder_neqE_nat plus_1_eq_Suc add_Suc_right)
    then show ?thesis
    proof cases
      case 3
      then show ?thesis using t(1) by (auto simp: placed_def)
    next
      case 4
      then show ?thesis using nt by (auto simp: placed_def)
    next
      case (5 k)
      then show ?thesis using a' [of k] by (auto simp: placed_def add.assoc)
    qed (auto simp: placed_def)
  qed
  moreover have "place f a offset = (f + 1 + ?t, a')" using True by (simp add: place_def Let_def a'_def)
  ultimately show ?thesis using True by auto
qed

subsection \<open>Moves\<close>

text \<open>The moves of a configuration: place the operation at an offset, or discard an unknown one.\<close>

definition legal_move :: "hist \<Rightarrow> conf \<Rightarrow> nat \<Rightarrow> bool \<Rightarrow> cell option" where
  "legal_move es c offset skip = (case c of (m, f, a) \<Rightarrow>
     if f + offset < length es \<and> f + offset \<notin> placed f a \<and> ev_invoked (es ! (f + offset)) \<le> ev_returned (es ! f) \<and>
        (skip \<longrightarrow> is_unknown (es ! (f + offset)))
     then if skip then Some m else model_step m (es ! (f + offset)) else None)"

definition target :: "conf \<Rightarrow> nat \<Rightarrow> cell \<Rightarrow> conf" where
  "target c offset m' = (m', place (fst (snd c)) (snd (snd c)) offset)"

definition cursor_of :: "nat \<Rightarrow> bool \<Rightarrow> nat" where
  "cursor_of offset skip = 2 * offset + (if skip then 1 else 0)"

lemma cursor_of_parts [simp]: "cursor_of offset skip div 2 = offset" "odd (cursor_of offset skip) = skip"
  by (simp_all add: cursor_of_def)

lemma cursor_of_exhaust: "\<exists>offset skip. c = cursor_of offset skip"
  by (rule exI [of _ "c div 2"], rule exI [of _ "odd c"]) (simp add: cursor_of_def mult.commute div_mult_mod_eq)

text \<open>What every move from the cursor on, up to a limit, leads to.\<close>

definition explored_from :: "hist \<Rightarrow> conf \<Rightarrow> conf set \<Rightarrow> nat \<Rightarrow> nat \<Rightarrow> bool" where
  "explored_from es c vis lo hi \<longleftrightarrow> (\<forall>offset skip m'. lo \<le> cursor_of offset skip \<longrightarrow> cursor_of offset skip < hi \<longrightarrow>
     legal_move es c offset skip = Some m' \<longrightarrow> offset \<le> AHEAD \<and> target c offset m' \<in> vis)"

lemma explored_from_step:
  assumes "explored_from es c vis (Suc k) hi"
    and "\<And>m'. legal_move es c (k div 2) (odd k) = Some m' \<Longrightarrow> k div 2 \<le> AHEAD \<and> target c (k div 2) m' \<in> vis"
  shows "explored_from es c vis k hi"
  unfolding explored_from_def
proof (intro allI impI)
  fix offset skip m'
  assume lo: "k \<le> cursor_of offset skip" and hi: "cursor_of offset skip < hi" and m: "legal_move es c offset skip = Some m'"
  show "offset \<le> AHEAD \<and> target c offset m' \<in> vis"
  proof (cases "k = cursor_of offset skip")
    case True
    then show ?thesis using assms(2) m by simp
  next
    case False
    then have "Suc k \<le> cursor_of offset skip" using lo by simp
    then show ?thesis using assms(1) hi m unfolding explored_from_def by blast
  qed
qed

lemma explored_from_beyond:
  assumes "\<And>offset skip m'. k \<le> cursor_of offset skip \<Longrightarrow> legal_move es c offset skip \<noteq> Some m'"
  shows "explored_from es c vis k hi"
  using assms by (simp add: explored_from_def)

lemma legal_move_beyond:
  assumes sorted: "by_invocation es" and far: "ev_returned (es ! f) < ev_invoked (es ! (f + k div 2)) \<or> length es \<le> f + k div 2"
    and k: "k \<le> cursor_of offset skip"
  shows "legal_move es (m, f, a) offset skip = None"
proof -
  have "k div 2 \<le> offset" using k div_le_mono [of k "cursor_of offset skip" 2] by simp
  then have "ev_invoked (es ! (f + k div 2)) \<le> ev_invoked (es ! (f + offset))" if "f + offset < length es"
    using sorted that by (simp add: by_invocation_def)
  then show ?thesis using far \<open>k div 2 \<le> offset\<close> by (auto simp: legal_move_def)
qed

text \<open>The move at the cursor, as the inner loop sees it.\<close>

definition here :: "hist \<Rightarrow> cell \<Rightarrow> nat \<Rightarrow> u64 \<Rightarrow> nat \<Rightarrow> cell option" where
  "here es m f a k = legal_move es (m, f, a) (k div 2) (odd k)"

lemma seek_cases [consumes 2, case_names cut far onward found]:
  assumes "k \<le> 2 * (AHEAD + 1)" and "by_invocation es"
  obtains (cut) "seek es m f a vis k = (k + 1, True, None)" "k = 2 * (AHEAD + 1)"
    | (far) "seek es m f a vis k = (k + 1, False, None)" "\<And>hi. explored_from es (m, f, a) vis k hi"
    | (onward) "seek es m f a vis k = seek es m f a vis (k + 1)" "k < 2 * (AHEAD + 1)"
        "\<And>m'. here es m f a k = Some m' \<Longrightarrow> k div 2 \<le> AHEAD \<and> target (m, f, a) (k div 2) m' \<in> vis"
    | (found) m' where "seek es m f a vis k = (k + 1, False, Some (target (m, f, a) (k div 2) m', f + k div 2))"
        "k < 2 * (AHEAD + 1)" "here es m f a k = Some m'" "target (m, f, a) (k div 2) m' \<notin> vis" "k div 2 \<le> AHEAD"
proof -
  let ?i = "f + k div 2"
  have lt: "k < 2 * (AHEAD + 2)" using assms(1) by simp
  note unf = seek.simps [of es m f a vis k]
  have far': "explored_from es (m, f, a) vis k hi"
    if "ev_returned (es ! f) < ev_invoked (es ! ?i) \<or> length es \<le> ?i" for hi
    using legal_move_beyond [OF assms(2) that] by (intro explored_from_beyond) simp
  consider (A) "length es \<le> ?i" | (B) "?i < length es" "k div 2 > AHEAD"
    | (C) "?i < length es" "k div 2 \<le> AHEAD" "?i \<in> placed f a"
    | (D) "?i < length es" "k div 2 \<le> AHEAD" "?i \<notin> placed f a" "ev_invoked (es ! ?i) > ev_returned (es ! f)"
    | (E) "?i < length es" "k div 2 \<le> AHEAD" "?i \<notin> placed f a" "ev_invoked (es ! ?i) \<le> ev_returned (es ! f)"
    by (metis not_le)
  then show thesis
  proof cases
    case A
    then have "seek es m f a vis k = (k + 1, False, None)" using lt unf by (simp add: Let_def)
    then show thesis using far far' A by blast
  next
    case B
    then have k: "k = 2 * (AHEAD + 1)" using assms(1) by presburger
    show thesis
    proof (cases "ev_invoked (es ! ?i) \<le> ev_returned (es ! f)")
      case True
      then have "seek es m f a vis k = (k + 1, True, None)" using B lt unf by (simp add: Let_def)
      then show thesis using cut k by blast
    next
      case False
      then have "seek es m f a vis k = (k + 1, False, None)" using B lt unf by (simp add: Let_def)
      moreover have "ev_returned (es ! f) < ev_invoked (es ! ?i)" using False by (simp add: not_le)
      ultimately show thesis using far far' by blast
    qed
  next
    case C
    then have "seek es m f a vis k = seek es m f a vis (k + 1)" using lt unf by (simp add: Let_def placed_mem)
    moreover have "here es m f a k = None" using C by (simp add: here_def legal_move_def)
    moreover have "k < 2 * (AHEAD + 1)" using C(2) by presburger
    ultimately show thesis using onward by simp
  next
    case D
    then have "seek es m f a vis k = (k + 1, False, None)" using lt unf by (auto simp: Let_def placed_mem)
    then show thesis using far far' D by blast
  next
    case E
    have k: "k < 2 * (AHEAD + 1)" using E(2) by presburger
    have here: "here es m f a k = (if odd k \<longrightarrow> is_unknown (es ! ?i) then if odd k then Some m else model_step m (es ! ?i) else None)"
      using E by (simp add: here_def legal_move_def)
    have run: "seek es m f a vis k = (case here es m f a k of None \<Rightarrow> seek es m f a vis (k + 1)
        | Some m' \<Rightarrow> if target (m, f, a) (k div 2) m' \<in> vis then seek es m f a vis (k + 1)
            else (k + 1, False, Some (target (m, f, a) (k div 2) m', ?i)))"
    proof -
      have g: "(length es \<le> ?i) = False" "(k div 2 > AHEAD) = False" "(k div 2 > 0 \<and> bit a (k div 2 - 1)) = False"
        "(ev_invoked (es ! ?i) > ev_returned (es ! f)) = False" "(k < 2 * (AHEAD + 2)) = True"
        using E lt placed_mem [of f "k div 2" a] by auto
      show ?thesis unfolding unf Let_def g here target_def fst_conv snd_conv by (cases "odd k"; cases "is_unknown (es ! ?i)") simp_all
    qed
    show thesis
    proof (cases "here es m f a k")
      case None
      then show thesis using run k onward by simp
    next
      case (Some m')
      show thesis
      proof (cases "target (m, f, a) (k div 2) m' \<in> vis")
        case True
        then show thesis using run k Some E(2) onward by simp
      next
        case False
        then show thesis using run k Some E(2) found by simp
      qed
    qed
  qed
qed

definition last_cursor :: nat where "last_cursor = 2 * (AHEAD + 1)"

lemma seek_none:
  assumes "seek es m f a vis k = (k', False, None)" and "by_invocation es" and "k \<le> last_cursor"
  shows "explored_from es (m, f, a) vis k hi"
proof -
  have "explored_from es (m, f, a) vis k hi" if "seek es m f a vis k = (k', False, None)" "k + n = last_cursor" for n
    using that
  proof (induct n arbitrary: k)
    case (0 k)
    then have "k \<le> 2 * (AHEAD + 1)" by (simp add: last_cursor_def)
    from this assms(2) show ?case
      by (cases rule: seek_cases [of k es m f a vis]) (use 0 in \<open>auto simp: last_cursor_def\<close>)
  next
    case (Suc n k)
    then have "k \<le> 2 * (AHEAD + 1)" unfolding last_cursor_def [symmetric] by simp
    from this assms(2) show ?case
    proof (cases rule: seek_cases [of k es m f a vis])
      case onward
      have "seek es m f a vis (k + 1) = (k', False, None)" using onward(1) Suc.prems(1) by (simp only:)
      then have "explored_from es (m, f, a) vis (k + 1) hi" by (rule Suc.hyps) (use Suc.prems(2) in simp)
      then show ?thesis unfolding Suc_eq_plus1 [symmetric] by (rule explored_from_step) (rule onward(3) [unfolded here_def])
    next
      case cut
      then show ?thesis using Suc.prems(1) by simp
    next
      case (found m')
      then show ?thesis using Suc.prems(1) by simp
    qed
  qed
  then show ?thesis using assms(1,3) by (metis le_add_diff_inverse)
qed

definition seek_result :: "hist \<Rightarrow> conf \<Rightarrow> conf set \<Rightarrow> nat \<Rightarrow> nat \<Rightarrow> conf \<Rightarrow> nat \<Rightarrow> bool" where
  "seek_result es c vis k k' c' i \<longleftrightarrow> (\<exists>offset skip m'. k' = cursor_of offset skip + 1 \<and> k' \<le> last_cursor \<and> offset \<le> AHEAD \<and>
    i = fst (snd c) + offset \<and> legal_move es c offset skip = Some m' \<and> c' = target c offset m' \<and> c' \<notin> vis \<and>
    explored_from es c vis k (cursor_of offset skip))"

lemma seek_some:
  assumes "seek es m f a vis k = (k', b, Some (c', i))" and "by_invocation es" and "k \<le> last_cursor"
  shows "\<not> b \<and> seek_result es (m, f, a) vis k k' c' i"
proof -
  have "\<not> b \<and> seek_result es (m, f, a) vis k k' c' i" if "seek es m f a vis k = (k', b, Some (c', i))" "k + n = last_cursor" for n
    using that
  proof (induct n arbitrary: k)
    case (0 k)
    then have "k \<le> 2 * (AHEAD + 1)" by (simp add: last_cursor_def)
    from this assms(2) show ?case
      by (cases rule: seek_cases [of k es m f a vis]) (use 0 in \<open>auto simp: last_cursor_def\<close>)
  next
    case (Suc n k)
    then have "k \<le> 2 * (AHEAD + 1)" unfolding last_cursor_def [symmetric] by simp
    from this assms(2) show ?case
    proof (cases rule: seek_cases [of k es m f a vis])
      case onward
      have "seek es m f a vis (k + 1) = (k', b, Some (c', i))" using onward(1) Suc.prems(1) by (simp only:)
      then have "\<not> b \<and> seek_result es (m, f, a) vis (k + 1) k' c' i" by (rule Suc.hyps) (use Suc.prems(2) in simp)
      moreover have "explored_from es (m, f, a) vis k hi" if "explored_from es (m, f, a) vis (k + 1) hi" for hi
        using that unfolding Suc_eq_plus1 [symmetric] by (rule explored_from_step) (rule onward(3) [unfolded here_def])
      ultimately show ?thesis unfolding seek_result_def by blast
    next
      case (found m')
      have k: "k = cursor_of (k div 2) (odd k)" by (simp add: cursor_of_def)
      have "explored_from es (m, f, a) vis k k" by (simp add: explored_from_def)
      moreover have "k + 1 \<le> last_cursor" using Suc.prems(2) by simp
      moreover have "b = False" "k' = k + 1" "c' = target (m, f, a) (k div 2) m'" "i = f + k div 2"
        using found(1) Suc.prems(1) by simp_all
      ultimately show ?thesis using found(3-5) k unfolding seek_result_def here_def
        by (intro conjI exI [of _ "k div 2"] exI [of _ "odd k"] exI [of _ m']) simp_all
    next
      case cut
      then show ?thesis using Suc.prems(1) by simp
    next
      case far
      then show ?thesis using Suc.prems(1) by simp
    qed
  qed
  then show ?thesis using assms(1,3) by (metis le_add_diff_inverse)
qed

subsection \<open>The search explores everything\<close>

definition conf_of :: "lin_frame \<Rightarrow> conf" where
  "conf_of fr = (fr_model fr, fr_frontier fr, fr_ahead fr)"

definition conf_init :: conf where
  "conf_init = (None, 0, 0)"

text \<open>A configuration that is done: it is not final and every move from it was taken.\<close>

definition exhausted :: "hist \<Rightarrow> conf set \<Rightarrow> conf \<Rightarrow> bool" where
  "exhausted es vis c \<longleftrightarrow> fst (snd c) \<noteq> length es \<and>
     (\<forall>offset skip m'. legal_move es c offset skip = Some m' \<longrightarrow> offset \<le> AHEAD \<and> target c offset m' \<in> vis)"

lemma exhausted_mono: "exhausted es vis c \<Longrightarrow> vis \<subseteq> vis' \<Longrightarrow> exhausted es vis' c"
  unfolding exhausted_def by blast

lemma explored_from_mono: "explored_from es c vis lo hi \<Longrightarrow> vis \<subseteq> vis' \<Longrightarrow> explored_from es c vis' lo hi"
  unfolding explored_from_def by blast

lemma explored_all:
  assumes "explored_from es c vis 0 k" and "\<And>hi. explored_from es c vis k hi" and "fst (snd c) \<noteq> length es"
  shows "exhausted es vis c"
  unfolding exhausted_def
proof (intro conjI allI impI assms(3))
  fix offset skip m' assume m: "legal_move es c offset skip = Some m'"
  have "offset \<le> AHEAD \<and> target c offset m' \<in> vis"
  proof (cases "cursor_of offset skip < k")
    case True
    then show ?thesis using assms(1) m unfolding explored_from_def by blast
  next
    case False
    then show ?thesis using assms(2) [of "Suc (cursor_of offset skip)"] m unfolding explored_from_def by (metis lessI not_less)
  qed
  then show "offset \<le> AHEAD" "target c offset m' \<in> vis" by simp_all
qed

definition search_inv :: "hist \<Rightarrow> search_state \<Rightarrow> bool" where
  "search_inv es s \<longleftrightarrow> ss_bounded_out s \<or>
     (\<forall>fr \<in> set (ss_stack s). fr_cursor fr \<le> last_cursor \<and> explored_from es (conf_of fr) (ss_visited s) 0 (fr_cursor fr)) \<and>
     (\<forall>c \<in> insert conf_init (ss_visited s). c \<in> conf_of ` set (ss_stack s) \<or> exhausted es (ss_visited s) c)"

lemma search_inv_init: "search_inv es search_init"
  by (simp add: search_inv_def search_init_def conf_of_def conf_init_def explored_from_def)

lemma explored_extend:
  assumes "explored_from es c vis 0 k" and "seek_result es c vis k k' c' i"
  shows "explored_from es c (insert c' vis) 0 k'"
proof -
  obtain offset skip m' where r: "k' = cursor_of offset skip + 1" "offset \<le> AHEAD"
      "legal_move es c offset skip = Some m'" "c' = target c offset m'" "explored_from es c vis k (cursor_of offset skip)"
    using assms(2) unfolding seek_result_def by blast
  have "x \<le> AHEAD \<and> target c x m \<in> insert c' vis" if lt: "cursor_of x y < k'" and mv: "legal_move es c x y = Some m" for x y m
  proof -
    consider "cursor_of x y < k" | "k \<le> cursor_of x y" "cursor_of x y < cursor_of offset skip" | "cursor_of x y = cursor_of offset skip"
      using lt r(1) by linarith
    then show ?thesis
    proof cases
      case 3
      then have "x = offset" "y = skip" by (auto simp: cursor_of_def split: if_splits) presburger+
      then show ?thesis using r mv by simp
    qed (use assms(1) r(5) mv in \<open>unfold explored_from_def, blast+\<close>)
  qed
  then show ?thesis unfolding explored_from_def by blast
qed

lemma search_inv_round:
  assumes inv: "search_inv es s" and sorted: "by_invocation es" and top: "ss_stack s = fr # rest" and "fr_frontier fr \<noteq> length es"
  shows "search_inv es (search_round es s)"
proof (cases "ss_bounded_out s")
  case True
  then show ?thesis using top by (auto simp: search_inv_def search_round_def Let_def split: prod.split option.split)
next
  case False
  let ?vis = "ss_visited s" and ?c = "conf_of fr"
  have fr: "fr_cursor fr \<le> last_cursor" "explored_from es ?c ?vis 0 (fr_cursor fr)"
    and rest: "\<And>x. x \<in> set rest \<Longrightarrow> fr_cursor x \<le> last_cursor \<and> explored_from es (conf_of x) ?vis 0 (fr_cursor x)"
    and vis: "\<And>c. c \<in> insert conf_init ?vis \<Longrightarrow> c = ?c \<or> c \<in> conf_of ` set rest \<or> exhausted es ?vis c"
    using inv False top by (auto simp: search_inv_def)
  obtain k' b r where run: "seek es (fr_model fr) (fr_frontier fr) (fr_ahead fr) ?vis (fr_cursor fr) = (k', b, r)"
    by (cases "seek es (fr_model fr) (fr_frontier fr) (fr_ahead fr) ?vis (fr_cursor fr)") auto
  show ?thesis
  proof (cases r)
    case None
    have round: "search_round es s = s\<lparr>ss_stack := rest, ss_bounded_out := ss_bounded_out s \<or> b\<rparr>"
      using top run None by (simp add: search_round_def)
    show ?thesis
    proof (cases b)
      case False
      have "explored_from es ?c ?vis (fr_cursor fr) hi" for hi
        using seek_none [OF _ sorted fr(1)] run None False by (simp add: conf_of_def)
      from explored_all [OF fr(2) this] have "exhausted es ?vis ?c" using assms(4) by (simp add: conf_of_def)
      then have "c \<in> conf_of ` set rest \<or> exhausted es ?vis c" if "c \<in> insert conf_init ?vis" for c
        using vis [OF that] by blast
      then show ?thesis using rest unfolding round search_inv_def by (auto simp del: split_paired_All)
    qed (simp add: round search_inv_def)
  next
    case (Some ci)
    obtain m f a i where ci: "ci = ((m, f, a), i)" by (cases ci) auto
    have res: "\<not> b" "seek_result es ?c ?vis (fr_cursor fr) k' (m, f, a) i"
      using seek_some [OF _ sorted fr(1), of "fr_model fr" "fr_frontier fr" "fr_ahead fr" ?vis k' b "(m, f, a)" i] run Some ci
      by (simp_all add: conf_of_def)
    let ?vis' = "insert (m, f, a) ?vis" and ?fr = "fr\<lparr>fr_cursor := k'\<rparr>"
    let ?new = "\<lparr>fr_model = m, fr_frontier = f, fr_ahead = a, fr_cursor = 0, fr_chose = Some i\<rparr>"
    obtain s' where round: "search_round es s = s'" "ss_stack s' = ?new # ?fr # rest" "ss_visited s' = ?vis'"
      "ss_bounded_out s' = (ss_bounded_out s \<or> b)"
      using top run Some ci by (simp add: search_round_def Let_def)
    have cur: "k' \<le> last_cursor" "explored_from es ?c ?vis' 0 k'"
      using res(2) explored_extend [OF fr(2) res(2)] by (auto simp: seek_result_def)
    have "conf_of ?fr = ?c" "conf_of ?new = (m, f, a)" by (simp_all add: conf_of_def)
    moreover have "explored_from es (m, f, a) ?vis' 0 0" by (simp add: explored_from_def)
    moreover have "fr_cursor x \<le> last_cursor \<and> explored_from es (conf_of x) ?vis' 0 (fr_cursor x)" if "x \<in> set rest" for x
      using rest [OF that] explored_from_mono by blast
    moreover have "c = (m, f, a) \<or> c = ?c \<or> c \<in> conf_of ` set rest \<or> exhausted es ?vis' c" if "c \<in> insert conf_init ?vis'" for c
      using vis [of c] that exhausted_mono by blast
    ultimately show ?thesis using cur unfolding round(1) search_inv_def round(2,3) by auto
  qed
qed

subsection \<open>No false alarm\<close>

text \<open>What is left of an order when the operations of a configuration are placed.\<close>

definition left_of :: "hist \<Rightarrow> cell \<Rightarrow> nat set \<Rightarrow> nat list \<Rightarrow> bool" where
  "left_of es m P ord \<longleftrightarrow> P \<subseteq> {..<length es} \<and> distinct ord \<and> set ord \<subseteq> {..<length es} - P \<and>
     (\<forall>i < length es. i \<in> P \<or> is_unknown (es ! i) \<or> i \<in> set ord) \<and>
     real_time es ord \<and> run_model m (map ((!) es) ord) \<noteq> None"

definition remains :: "hist \<Rightarrow> conf \<Rightarrow> nat list \<Rightarrow> bool" where
  "remains es c ord \<longleftrightarrow> (case c of (m, f, a) \<Rightarrow> left_of es m (placed f a) ord)"

lemma target_placed:
  assumes "offset \<le> AHEAD"
  obtains f' a' where "target (m, f, a) offset m' = (m', f', a')" "placed f' a' = insert (f + offset) (placed f a)"
  using placed_place [OF assms, of f a] that by (cases "place f a offset") (simp add: target_def)

lemma remains_target:
  assumes "offset \<le> AHEAD"
  shows "remains es (target (m, f, a) offset m') ord \<longleftrightarrow> left_of es m' (insert (f + offset) (placed f a)) ord"
  by (rule target_placed [OF assms, of m f a m']) (simp add: remains_def)

lemma placed_le: "placed f a \<subseteq> {..<n} \<Longrightarrow> f \<le> n"
  by (cases f) (auto simp: placed_def)

lemma remains_move:
  assumes "remains es c ord" and "windows_ok es" and "fst (snd c) \<noteq> length es"
  obtains offset skip m' ord' where "legal_move es c offset skip = Some m'"
    "offset \<le> AHEAD \<Longrightarrow> remains es (target c offset m') ord'"
proof -
  obtain m f a where c: "c = (m, f, a)" by (cases c) auto
  have r: "placed f a \<subseteq> {..<length es}" "distinct ord" "set ord \<subseteq> {..<length es} - placed f a"
      "\<forall>i < length es. i \<in> placed f a \<or> is_unknown (es ! i) \<or> i \<in> set ord" "real_time es ord"
      "run_model m (map ((!) es) ord) \<noteq> None"
    using assms(1) by (auto simp: remains_def left_of_def c)
  have f: "f < length es" using placed_le [OF r(1)] assms(3) c by simp
  then have w: "ev_invoked (es ! f) \<le> ev_returned (es ! f)" using assms(2) by (simp add: windows_ok_def)
  show ?thesis
  proof (cases "f \<in> set ord")
    case False
    then have u: "is_unknown (es ! f)" using r(4) f frontier_not_placed by blast
    then have "legal_move es c 0 True = Some m" using f w by (simp add: legal_move_def c)
    moreover have "remains es (target c 0 m) ord"
      using r False f by (auto simp: c remains_target left_of_def)
    ultimately show ?thesis using that by blast
  next
    case True
    then obtain j ord' where ord: "ord = j # ord'" by (cases ord) auto
    have "f \<le> j" using r(3) ord by (auto simp: placed_def)
    then obtain offset where j: "j = f + offset" using le_Suc_ex by blast
    have "ev_invoked (es ! j) \<le> ev_returned (es ! f)"
      using w r(5) True unfolding ord real_time_def precedes_def by (cases "j = f") auto
    moreover obtain m' where m': "model_step m (es ! j) = Some m'" "run_model m' (map ((!) es) ord') \<noteq> None"
      using r(6) ord by (auto split: option.splits)
    ultimately have "legal_move es c offset False = Some m'" using r(3) ord j by (simp add: legal_move_def c)
    moreover have "remains es (target c offset m') ord'" if "offset \<le> AHEAD"
      using r(1-5) m'(2) unfolding ord c remains_target [OF that] left_of_def real_time_def j by auto
    ultimately show ?thesis using that by blast
  qed
qed

lemma remains_exhausted:
  assumes "\<And>c. c \<in> insert conf_init vis \<Longrightarrow> exhausted es vis c" and "windows_ok es"
    and "remains es c ord" and "c \<in> insert conf_init vis"
  shows False
  using assms(3,4)
proof (induction "card ({..<length es} - placed (fst (snd c)) (snd (snd c)))" arbitrary: c ord rule: less_induct)
  case less
  have ex: "exhausted es vis c" using assms(1) less.prems(2) .
  then have "fst (snd c) \<noteq> length es" by (simp add: exhausted_def)
  then obtain offset skip m' ord' where mv: "legal_move es c offset skip = Some m'" and rem: "offset \<le> AHEAD \<Longrightarrow> remains es (target c offset m') ord'"
    using remains_move [OF less.prems(1) assms(2)] by metis
  have off: "offset \<le> AHEAD" "target c offset m' \<in> vis" using ex mv by (auto simp: exhausted_def)
  obtain m f a where c: "c = (m, f, a)" by (cases c) auto
  obtain f' a' where t: "target c offset m' = (m', f', a')" "placed f' a' = insert (f + offset) (placed f a)"
    using target_placed [OF off(1)] c by metis
  have "f + offset \<in> {..<length es} - placed f a" using mv by (auto simp: legal_move_def c split: if_splits)
  then have "{..<length es} - placed f' a' \<subset> {..<length es} - placed f a" unfolding t(2) by blast
  then have "card ({..<length es} - placed f' a') < card ({..<length es} - placed f a)" by (simp add: psubset_card_mono)
  then show ?case using less.hyps [OF _ rem [OF off(1)]] off(2) t(1) c by simp
qed

lemma finish_no_false_alarm:
  assumes "search_finish es s = NotLinearizable v" and "search_inv es s" and "ss_stack s = []" and "windows_ok es"
  shows "\<not> key_linearizable es"
proof
  assume "key_linearizable es"
  then obtain ord where "remains es conf_init ord"
    by (auto simp: key_linearizable_def linearizes_def covers_def remains_def left_of_def conf_init_def)
  moreover have "exhausted es (ss_visited s) c" if "c \<in> insert conf_init (ss_visited s)" for c
    using assms(1-3) that by (auto simp: search_inv_def search_finish_def split: if_splits)
  ultimately show False using remains_exhausted assms(4) by blast
qed

lemma search_no_false_alarm:
  assumes "search es k s = NotLinearizable v" and "search_inv es s" and "by_invocation es" and "windows_ok es"
  shows "\<not> key_linearizable es"
  using assms(1,2)
proof (induction k arbitrary: s)
  case 0
  then show ?case using finish_no_false_alarm [of es s v] assms(4) by (simp split: if_splits)
next
  case (Suc k)
  show ?case
  proof (cases "ss_stack s")
    case Nil
    then show ?thesis using finish_no_false_alarm [of es s v] assms(4) Suc.prems by simp
  next
    case (Cons fr rest)
    let ?s = "s\<lparr>ss_explored := ss_explored s + 1\<rparr>"
    have "fr_frontier fr \<noteq> length es" "search es k (search_round es ?s) = NotLinearizable v"
      using Suc.prems(1) Cons by (auto simp: Let_def split: if_splits)
    moreover have "search_inv es ?s" using Suc.prems(2) by (simp add: search_inv_def)
    ultimately show ?thesis using search_inv_round [of es ?s fr rest] assms(3) Cons Suc.IH by simp
  qed
qed

end
