(* ===== verification/Lin_Spec.thy ===== *)
theory Lin_Spec
  imports Lin_Correct
begin

section \<open>Linearizable histories\<close>

text \<open>
  Linearizability of a whole history over a store of many keys, stated on the events themselves,
  and its locality: a history is linearizable if and only if the sub-history of every key is.
  Locality is what lets the checker treat keys one by one.
\<close>

subsection \<open>Specification\<close>

definition order_of :: "hist \<Rightarrow> hist \<Rightarrow> bool" where
  "order_of h l \<longleftrightarrow> mset l \<subseteq># mset h \<and> (\<forall>e \<in># mset h - mset l. is_unknown e) \<and>
     sorted_wrt (\<lambda>a b. \<not> ev_returned b < ev_invoked a) l"

fun run_store :: "(bytes \<Rightarrow> cell) \<Rightarrow> hist \<Rightarrow> (bytes \<Rightarrow> cell) option" where
  "run_store st [] = Some st"
| "run_store st (e # es) = (case model_step (st (ev_key e)) e of
     None \<Rightarrow> None | Some m \<Rightarrow> run_store (st(ev_key e := m)) es)"

text \<open>
  An operation of unknown outcome may be left out, and if it is taken in, it takes effect inside
  its recorded window like any other. The history's documentation lets it take effect at any
  later time; the checker does not, and this is the notion the checker decides.
\<close>

definition linearizable :: "hist \<Rightarrow> bool" where
  "linearizable h \<longleftrightarrow> (\<exists>l. order_of h l \<and> run_store (\<lambda>_. None) l \<noteq> None)"

definition on_key :: "bytes \<Rightarrow> hist \<Rightarrow> hist" where
  "on_key k h = filter (\<lambda>e. ev_key e = k) h"

lemma on_key_simps [simp]:
  "on_key k [] = []" "on_key k (e # h) = (if ev_key e = k then e # on_key k h else on_key k h)"
  by (simp_all add: on_key_def)

lemma run_store_keys: "run_store st l \<noteq> None \<longleftrightarrow> (\<forall>k. run_model (st k) (on_key k l) \<noteq> None)"
proof (induction l arbitrary: st)
  case (Cons e l)
  show ?case
  proof (cases "model_step (st (ev_key e)) e")
    case None
    then have "run_model (st (ev_key e)) (on_key (ev_key e) (e # l)) = None" by simp
    moreover have "run_store st (e # l) = None" using None by simp
    ultimately show ?thesis by metis
  next
    case (Some m)
    have "run_model (st k) (on_key k (e # l)) = run_model ((st(ev_key e := m)) k) (on_key k l)" for k
      using Some by simp
    moreover have "run_store st (e # l) = run_store (st(ev_key e := m)) l" using Some by simp
    ultimately show ?thesis using Cons.IH [of "st(ev_key e := m)"] by (simp only:)
  qed
qed simp

subsection \<open>Orders as lists of indices\<close>

lemma count_map_distinct: "distinct xs \<Longrightarrow> count (mset (map f xs)) y = card {x \<in> set xs. f x = y}"
proof (induction xs)
  case (Cons x xs)
  have "{z \<in> set (x # xs). f z = y} = (if f x = y then insert x {z \<in> set xs. f z = y} else {z \<in> set xs. f z = y})" by auto
  then show ?case using Cons by simp
qed simp

lemma count_nth: "count (mset es) y = card {i. i < length es \<and> es ! i = y}"
  using count_map_distinct [of "[0..<length es]" "(!) es" y] by (simp add: map_nth)

lemma unused_index:
  assumes "distinct ord" and "set ord \<subseteq> {..<length es}" and "count (mset (map ((!) es) ord)) y < count (mset es) y"
  shows "\<exists>i < length es. i \<notin> set ord \<and> es ! i = y"
proof (rule ccontr)
  assume "\<not> ?thesis"
  then have "{i. i < length es \<and> es ! i = y} \<subseteq> {i \<in> set ord. es ! i = y}" by auto
  then have "card {i. i < length es \<and> es ! i = y} \<le> card {i \<in> set ord. es ! i = y}" by (intro card_mono) auto
  then show False using assms(3) count_map_distinct [OF assms(1), of "(!) es" y] count_nth [of es y] by simp
qed

lemma used_index:
  assumes "distinct ord" and "set ord \<subseteq> {..<length es}" and "i < length es" and "i \<notin> set ord"
  shows "count (mset (map ((!) es) ord)) (es ! i) < count (mset es) (es ! i)"
proof -
  have "{j \<in> set ord. es ! j = es ! i} \<subset> {j. j < length es \<and> es ! j = es ! i}" using assms(2-4) by auto
  then have "card {j \<in> set ord. es ! j = es ! i} < card {j. j < length es \<and> es ! j = es ! i}" by (intro psubset_card_mono) auto
  then show ?thesis using count_map_distinct [OF assms(1), of "(!) es" "es ! i"] count_nth [of es "es ! i"] by simp
qed

lemma indices_of:
  assumes "mset l \<subseteq># mset es"
  obtains ord where "distinct ord" "set ord \<subseteq> {..<length es}" "map ((!) es) ord = l"
proof -
  have "\<exists>ord. distinct ord \<and> set ord \<subseteq> {..<length es} \<and> map ((!) es) ord = l"
    using assms
  proof (induction l)
    case (Cons x l)
    have "mset l \<subseteq># mset es" using Cons.prems by (metis mset.simps(2) mset_subset_eq_insertD subset_mset.less_imp_le)
    then obtain ord where ord: "distinct ord" "set ord \<subseteq> {..<length es}" "map ((!) es) ord = l" using Cons.IH by auto
    have "count (mset l) x < count (mset es) x" using Cons.prems by (metis count_add_mset le_imp_less_Suc less_Suc_eq_le less_le_trans mset.simps(2) order_refl mset_subset_eq_count Suc_le_lessD)
    then obtain i where "i < length es" "i \<notin> set ord" "es ! i = x" using unused_index [OF ord(1,2)] ord(3) by blast
    then have "distinct (i # ord) \<and> set (i # ord) \<subseteq> {..<length es} \<and> map ((!) es) (i # ord) = x # l" using ord by simp
    then show ?case by (rule exI)
  qed simp
  then show ?thesis using that by blast
qed

lemma order_of_indices:
  assumes "distinct ord" and "set ord \<subseteq> {..<length es}"
  shows "order_of es (map ((!) es) ord) \<longleftrightarrow> covers es ord \<and> real_time es ord"
proof -
  have sub: "mset (map ((!) es) ord) \<subseteq># mset es"
  proof (rule mset_subset_eqI)
    fix y
    have "{i \<in> set ord. es ! i = y} \<subseteq> {i. i < length es \<and> es ! i = y}" using assms(2) by auto
    then show "count (mset (map ((!) es) ord)) y \<le> count (mset es) y"
      unfolding count_map_distinct [OF assms(1)] count_nth [of es] by (intro card_mono) auto
  qed
  have "(\<forall>e \<in># mset es - mset (map ((!) es) ord). is_unknown e) \<longleftrightarrow> (\<forall>i < length es. is_unknown (es ! i) \<or> i \<in> set ord)" (is "?l \<longleftrightarrow> ?r")
  proof
    assume ?l
    then show ?r using used_index [OF assms] by (metis in_diff_count)
  next
    assume ?r
    then show ?l using unused_index [OF assms] by (metis in_diff_count)
  qed
  then show ?thesis using assms sub
    by (auto simp: order_of_def covers_def real_time_def precedes_def sorted_wrt_map)
qed

lemma key_linearizable_iff: "key_linearizable es \<longleftrightarrow> (\<exists>l. order_of es l \<and> run_model None l \<noteq> None)"
proof
  assume "key_linearizable es"
  then obtain ord where "linearizes es ord" by (auto simp: key_linearizable_def)
  moreover from this have "distinct ord" "set ord \<subseteq> {..<length es}" by (simp_all add: linearizes_def covers_def)
  ultimately show "\<exists>l. order_of es l \<and> run_model None l \<noteq> None"
    using order_of_indices [of ord es] by (auto simp only: linearizes_def)
next
  assume "\<exists>l. order_of es l \<and> run_model None l \<noteq> None"
  then obtain l where l: "order_of es l" "run_model None l \<noteq> None" by blast
  then obtain ord where "distinct ord" "set ord \<subseteq> {..<length es}" "map ((!) es) ord = l"
    using indices_of [of l es] by (auto simp: order_of_def)
  then show "key_linearizable es" using l order_of_indices [of ord es] unfolding key_linearizable_def linearizes_def by blast
qed

lemma order_of_cong: "mset h = mset h' \<Longrightarrow> order_of h l \<longleftrightarrow> order_of h' l"
  by (simp add: order_of_def)

lemma key_linearizable_sorted [simp]: "key_linearizable (hist_sorted h) \<longleftrightarrow> key_linearizable h"
  unfolding key_linearizable_iff using order_of_cong [of "hist_sorted h" h] by simp

lemma key_linearizable_hist_key: "key_linearizable (hist_key h k) \<longleftrightarrow> key_linearizable (on_key k h)"
  by (simp add: hist_key_def on_key_def)

subsection \<open>Locality\<close>

lemma order_of_on_key:
  assumes "order_of h l"
  shows "order_of (on_key k h) (on_key k l)"
proof -
  let ?P = "\<lambda>e. ev_key e = k"
  have "mset (on_key k h) - mset (on_key k l) = filter_mset ?P (mset h - mset l)"
    by (simp add: on_key_def)
  then have "\<forall>e \<in># mset (on_key k h) - mset (on_key k l). is_unknown e"
    using assms by (simp del: filter_diff_mset add: order_of_def)
  moreover have "mset (on_key k l) \<subseteq># mset (on_key k h)"
    using assms by (simp add: order_of_def on_key_def multiset_filter_mono)
  ultimately show ?thesis using assms by (simp add: order_of_def on_key_def sorted_wrt_filter)
qed

text \<open>Every operation of an order takes effect at a point between its invocation and its return.\<close>

fun with_points :: "u64 \<Rightarrow> hist \<Rightarrow> (op_event \<times> u64) list" where
  "with_points t [] = []"
| "with_points t (e # l) = (e, max t (ev_invoked e)) # with_points (max t (ev_invoked e)) l"

lemma map_with_points [simp]: "map fst (with_points t l) = l"
  by (induction l arbitrary: t) simp_all

lemma with_points_ge: "x \<in> set (with_points t l) \<Longrightarrow> t \<le> snd x"
proof (induction l arbitrary: t)
  case (Cons e l)
  then show ?case by (auto dest: Cons.IH)
qed simp

lemma with_points_sorted: "sorted (map snd (with_points t l))"
  by (induction l arbitrary: t) (auto dest: with_points_ge)

lemma with_points_in_window:
  assumes "sorted_wrt (\<lambda>a b. \<not> ev_returned b < ev_invoked a) l" and "windows_ok l"
    and "\<forall>e \<in> set l. t \<le> ev_returned e" and "(e, p) \<in> set (with_points t l)"
  shows "ev_invoked e \<le> p \<and> p \<le> ev_returned e"
  using assms
proof (induction l arbitrary: t)
  case (Cons x l)
  have "\<forall>y \<in> set l. max t (ev_invoked x) \<le> ev_returned y" using Cons.prems(1,3) by (auto simp: not_less)
  then show ?case using Cons.IH [of "max t (ev_invoked x)"] Cons.prems by (auto simp: windows_ok_def)
qed simp

lemma points_real_time:
  assumes "sorted (map snd ps)" and "\<And>e p. (e, p) \<in> set ps \<Longrightarrow> ev_invoked e \<le> p \<and> p \<le> ev_returned e"
  shows "sorted_wrt (\<lambda>a b. \<not> ev_returned b < ev_invoked a) (map fst ps)"
proof -
  have "sorted_wrt (\<lambda>x y. snd x \<le> snd y) ps" using assms(1) by (simp add: sorted_map)
  then have "sorted_wrt (\<lambda>x y. \<not> ev_returned (fst y) < ev_invoked (fst x)) ps"
  proof (rule sorted_wrt_mono_rel [rotated])
    fix x y assume "x \<in> set ps" "y \<in> set ps" "snd x \<le> snd y"
    then have "ev_invoked (fst x) \<le> snd x" "snd y \<le> ev_returned (fst y)" using assms(2) by (metis prod.collapse)+
    then show "\<not> ev_returned (fst y) < ev_invoked (fst x)" using \<open>snd x \<le> snd y\<close> by simp
  qed
  then show ?thesis by (simp add: sorted_wrt_map)
qed

definition merge_keys :: "bytes list \<Rightarrow> (bytes \<Rightarrow> hist) \<Rightarrow> (op_event \<times> u64) list" where
  "merge_keys ks L = sort_key snd (concat (map (\<lambda>k. with_points 0 (L k)) ks))"

lemma filter_concat_keys:
  assumes "distinct ks" and "\<And>k x. x \<in> set (L k) \<Longrightarrow> K x = k"
  shows "filter (\<lambda>x. K x = k) (concat (map L ks)) = (if k \<in> set ks then L k else [])"
  using assms(1)
proof (induction ks)
  case (Cons k' ks)
  have "filter (\<lambda>x. K x = k) (L k') = (if k = k' then L k' else [])"
    using assms(2) by (auto simp: filter_empty_conv intro: filter_True)
  then show ?case using Cons by auto
qed simp

lemma merge_keys_on_key:
  assumes "distinct ks" and "\<And>k e. e \<in> set (L k) \<Longrightarrow> ev_key e = k"
  shows "on_key k (map fst (merge_keys ks L)) = (if k \<in> set ks then L k else [])"
proof -
  let ?W = "\<lambda>k. with_points 0 (L k)"
  have keys: "ev_key (fst x) = k" if "x \<in> set (?W k)" for k x
    using that assms(2) map_with_points by (metis image_eqI list.set_map)
  have "filter (\<lambda>x. ev_key (fst x) = k) (merge_keys ks L) = sort_key snd (if k \<in> set ks then ?W k else [])"
    unfolding merge_keys_def filter_sort using filter_concat_keys [OF assms(1), of ?W "ev_key \<circ> fst" k] keys by simp
  also have "\<dots> = (if k \<in> set ks then ?W k else [])" by (simp add: sort_key_id_if_sorted with_points_sorted)
  finally show ?thesis by (simp add: on_key_def filter_map comp_def)
qed

text \<open>
  The orders of the keys merge into one order: sort all operations by their points. The sort is
  stable, so the order within a key stays, and two operations with the same points overlap.
\<close>

lemma merge_order:
  assumes "distinct ks" and "ev_key ` set h \<subseteq> set ks" and "windows_ok h" and L: "\<And>k. order_of (on_key k h) (L k)"
  shows "order_of h (map fst (merge_keys ks L))" and "\<And>k. on_key k (map fst (merge_keys ks L)) = (if k \<in> set ks then L k else [])"
proof -
  let ?M = "map fst (merge_keys ks L)"
  have sub: "set (L k) \<subseteq> set (on_key k h)" for k using L [of k] by (metis order_of_def set_mset_mono set_mset_mset)
  then have keys: "ev_key e = k" if "e \<in> set (L k)" for k e using that by (auto simp: on_key_def)
  show on: "on_key k ?M = (if k \<in> set ks then L k else [])" for k using assms(1) keys by (rule merge_keys_on_key)
  have count: "count (mset l) e = count (mset (on_key (ev_key e) l)) e" for l e by (simp add: on_key_def)
  have le: "count (mset ?M) e \<le> count (mset h) e" for e
  proof (cases "ev_key e \<in> set ks")
    case True
    then have "mset (on_key (ev_key e) ?M) \<subseteq># mset (on_key (ev_key e) h)" using on L [of "ev_key e"] by (simp add: order_of_def)
    then show ?thesis unfolding count [of ?M e] count [of h e] by (rule mset_subset_eq_count)
  next
    case False
    then have "on_key (ev_key e) ?M = []" using on by simp
    then show ?thesis unfolding count [of ?M e] by (simp only: mset.simps count_empty)
  qed
  have un: "is_unknown e" if "e \<in># mset h - mset ?M" for e
  proof -
    have "e \<in> set h" using that by (meson in_diffD in_multiset_in_set)
    then have k: "ev_key e \<in> set ks" using assms(2) by blast
    then have "e \<in># mset (on_key (ev_key e) h) - mset (L (ev_key e))"
      using that on [of "ev_key e"] k unfolding in_diff_count count [of ?M e] count [of h e] by simp
    then show ?thesis using L [of "ev_key e"] by (simp add: order_of_def)
  qed
  have "ev_invoked e \<le> p \<and> p \<le> ev_returned e" if mem: "(e, p) \<in> set (merge_keys ks L)" for e p
  proof -
    obtain k where k: "(e, p) \<in> set (with_points 0 (L k))" using mem by (auto simp: merge_keys_def)
    have "windows_ok (L k)" using sub [of k] assms(3) by (auto simp: windows_ok_def on_key_def)
    then show ?thesis using with_points_in_window [OF _ _ _ k] L [of k] by (simp add: order_of_def)
  qed
  then have "sorted_wrt (\<lambda>a b. \<not> ev_returned b < ev_invoked a) ?M"
    using points_real_time [of "merge_keys ks L"] by (simp add: merge_keys_def)
  then show "order_of h ?M" using le un by (simp add: order_of_def subseteq_mset_def)
qed

lemma locality:
  assumes "windows_ok h"
  shows "linearizable h \<longleftrightarrow> (\<forall>k \<in> ev_key ` set h. key_linearizable (on_key k h))"
proof
  assume "linearizable h"
  then show "\<forall>k \<in> ev_key ` set h. key_linearizable (on_key k h)"
    unfolding linearizable_def key_linearizable_iff using order_of_on_key run_store_keys by metis
next
  assume r: "\<forall>k \<in> ev_key ` set h. key_linearizable (on_key k h)"
  let ?ks = "sorted_list_of_set (ev_key ` set h)"
  have "\<exists>l. order_of (on_key k h) l \<and> run_model None l \<noteq> None" for k
  proof (cases "k \<in> ev_key ` set h")
    case False
    then have "on_key k h = []" by (auto simp: on_key_def filter_empty_conv)
    then show ?thesis by (auto simp: order_of_def intro: exI [of _ "[]"])
  qed (use r key_linearizable_iff in blast)
  then obtain L where L: "\<And>k. order_of (on_key k h) (L k)" "\<And>k. run_model None (L k) \<noteq> None" by metis
  have ks: "distinct ?ks" "ev_key ` set h \<subseteq> set ?ks" by simp_all
  let ?M = "map fst (merge_keys ?ks L)"
  note m = merge_order [OF ks assms L(1)]
  have "run_model None (on_key k ?M) \<noteq> None" for k
    using m(2) [of k] L(2) [of k] by simp
  then show "linearizable h" using m(1) run_store_keys unfolding linearizable_def by blast
qed

end
