(* ===== verification/Lin_Verdict.thy ===== *)
theory Lin_Verdict
  imports Lin_Spec
begin

section \<open>The verdicts of the checker\<close>

text \<open>
  What a verdict of the checker says of a history. A reported violation is always one. A pass
  gives a legal order of the operations, which also respects real time when no operation runs
  inside the window of another; with nested windows the checker can pass a history that is not
  linearizable. The search ends by itself, so a large enough budget decides.
\<close>

subsection \<open>What a pass shows\<close>

definition by_return :: "hist \<Rightarrow> bool" where
  "by_return es \<longleftrightarrow> (\<forall>i j. i \<le> j \<longrightarrow> j < length es \<longrightarrow> ev_returned (es ! i) \<le> ev_returned (es ! j))"

definition reached :: "hist \<Rightarrow> conf \<Rightarrow> bool" where
  "reached es c \<longleftrightarrow> (case c of (m, f, a) \<Rightarrow> placed f a \<subseteq> {..<length es} \<and> (\<exists>ord. distinct ord \<and> set ord \<subseteq> placed f a \<and>
     (\<forall>i \<in> placed f a. is_unknown (es ! i) \<or> i \<in> set ord) \<and> run_model None (map ((!) es) ord) = Some m \<and>
     (by_return es \<longrightarrow> real_time es ord \<and> (\<forall>i \<in> set ord. \<forall>j < length es. j \<in> placed f a \<or> \<not> precedes es j i))))"

lemma reached_init: "reached es conf_init"
  by (simp add: reached_def conf_init_def real_time_def exI [of _ "[]"])

lemma reached_move:
  assumes "reached es c" and mv: "legal_move es c offset skip = Some m'" and off: "offset \<le> AHEAD"
  shows "reached es (target c offset m')"
proof -
  obtain m f a where c: "c = (m, f, a)" by (cases c) auto
  let ?P = "placed f a" and ?i = "f + offset"
  obtain ord where r: "?P \<subseteq> {..<length es}" "distinct ord" "set ord \<subseteq> ?P" "\<forall>i \<in> ?P. is_unknown (es ! i) \<or> i \<in> set ord"
      "run_model None (map ((!) es) ord) = Some m"
      and rt: "by_return es \<Longrightarrow> real_time es ord \<and> (\<forall>i \<in> set ord. \<forall>j < length es. j \<in> ?P \<or> \<not> precedes es j i)"
    using assms(1) unfolding reached_def c by auto
  have i: "?i < length es" "?i \<notin> ?P" "ev_invoked (es ! ?i) \<le> ev_returned (es ! f)" "skip \<longrightarrow> is_unknown (es ! ?i)"
      "(if skip then Some m else model_step m (es ! ?i)) = Some m'"
    using mv by (auto simp: legal_move_def c split: if_splits)
  have free: "\<not> precedes es j ?i" if "by_return es" "j < length es" "j \<notin> ?P" for j
  proof -
    have "f \<le> j" using that(3) by (auto simp: placed_def)
    then have "ev_returned (es ! f) \<le> ev_returned (es ! j)" using that(1,2) by (simp add: by_return_def)
    then show ?thesis using i(3) by (simp add: precedes_def)
  qed
  let ?ord = "if skip then ord else ord @ [?i]"
  have "distinct ?ord" "set ?ord \<subseteq> insert ?i ?P" using r(2,3) i(2) by auto
  moreover have "\<forall>j \<in> insert ?i ?P. is_unknown (es ! j) \<or> j \<in> set ?ord" using r(4) i(4) by auto
  moreover have "run_model None (map ((!) es) ?ord) = Some m'" using r(5) i(5) by (auto simp: run_model_append split: if_splits)
  moreover have "real_time es ?ord \<and> (\<forall>x \<in> set ?ord. \<forall>j < length es. j \<in> insert ?i ?P \<or> \<not> precedes es j x)" if "by_return es"
    using rt [OF that] free [OF that] i(1,2) by (auto simp: real_time_def sorted_wrt_append)
  ultimately have "\<exists>ord. distinct ord \<and> set ord \<subseteq> insert ?i ?P \<and> (\<forall>j \<in> insert ?i ?P. is_unknown (es ! j) \<or> j \<in> set ord) \<and>
      run_model None (map ((!) es) ord) = Some m' \<and>
      (by_return es \<longrightarrow> real_time es ord \<and> (\<forall>x \<in> set ord. \<forall>j < length es. j \<in> insert ?i ?P \<or> \<not> precedes es j x))"
    by blast
  moreover obtain f' a' where "target c offset m' = (m', f', a')" "placed f' a' = insert ?i ?P"
    using target_placed [OF off, of m f a m'] c by metis
  ultimately show ?thesis using r(1) i(1) by (simp add: reached_def)
qed

definition stack_ok :: "hist \<Rightarrow> search_state \<Rightarrow> bool" where
  "stack_ok es s \<longleftrightarrow> (\<forall>fr \<in> set (ss_stack s). fr_cursor fr \<le> last_cursor \<and> reached es (conf_of fr))"

lemma stack_ok_init: "stack_ok es search_init"
  using reached_init by (simp add: stack_ok_def search_init_def conf_of_def conf_init_def)

text \<open>A round either drops the top of the stack or pushes a new configuration, reached by a move.\<close>

lemma search_round_cases [consumes 3, case_names popped pushed]:
  assumes top: "ss_stack s = fr # rest" and "by_invocation es" and "fr_cursor fr \<le> last_cursor"
  obtains "ss_stack (search_round es s) = rest" "ss_visited (search_round es s) = ss_visited s"
  | c k i where "c \<notin> ss_visited s" "seek_result es (conf_of fr) (ss_visited s) (fr_cursor fr) k c i" "k \<le> last_cursor"
      "ss_stack (search_round es s) = \<lparr>fr_model = fst c, fr_frontier = fst (snd c), fr_ahead = snd (snd c), fr_cursor = 0,
         fr_chose = Some i\<rparr> # fr\<lparr>fr_cursor := k\<rparr> # rest"
      "ss_visited (search_round es s) = insert c (ss_visited s)"
proof -
  obtain k b r where run: "seek es (fr_model fr) (fr_frontier fr) (fr_ahead fr) (ss_visited s) (fr_cursor fr) = (k, b, r)"
    by (cases "seek es (fr_model fr) (fr_frontier fr) (fr_ahead fr) (ss_visited s) (fr_cursor fr)") auto
  show ?thesis
  proof (cases r)
    case None
    then show ?thesis using that(1) top run by (simp add: search_round_def)
  next
    case (Some ci)
    obtain m f a i where ci: "ci = ((m, f, a), i)" by (cases ci) auto
    have "seek_result es (conf_of fr) (ss_visited s) (fr_cursor fr) k (m, f, a) i"
      using seek_some [OF _ assms(2,3)] run Some ci by (simp add: conf_of_def)
    moreover from this have "(m, f, a) \<notin> ss_visited s" "k \<le> last_cursor" by (auto simp: seek_result_def)
    ultimately show ?thesis using that(2) [of "(m, f, a)" k i] top run Some ci by (simp add: search_round_def Let_def)
  qed
qed

lemma stack_ok_round:
  assumes "stack_ok es s" and "by_invocation es" and top: "ss_stack s = fr # rest"
  shows "stack_ok es (search_round es s)"
proof -
  have fr: "fr_cursor fr \<le> last_cursor" "reached es (conf_of fr)" using assms(1) top by (auto simp: stack_ok_def)
  from top assms(2) fr(1) show ?thesis
  proof (cases rule: search_round_cases)
    case popped
    then show ?thesis using assms(1) top by (simp add: stack_ok_def)
  next
    case (pushed c k i)
    have "reached es c" using pushed(2) reached_move [OF fr(2)] by (auto simp: seek_result_def)
    then show ?thesis using pushed(3,4) assms(1) fr(2) top by (auto simp: stack_ok_def conf_of_def)
  qed
qed

lemma reached_end:
  assumes "reached es (m, length es, a)"
  obtains ord where "covers es ord" "run_model None (map ((!) es) ord) = Some m" "by_return es \<Longrightarrow> real_time es ord"
proof -
  have "placed (length es) a = {..<length es}" using assms unfolding reached_def by (auto simp: placed_def)
  then show ?thesis using assms that unfolding reached_def covers_def by auto
qed

lemma search_pass:
  assumes "search es k s = Linearizable" and "stack_ok es s" and "by_invocation es"
  obtains ord where "covers es ord" "run_model None (map ((!) es) ord) \<noteq> None" "by_return es \<Longrightarrow> real_time es ord"
  using assms(1,2)
proof (induction k arbitrary: s)
  case 0
  then show ?case by (simp add: search_finish_def Let_def split: if_splits)
next
  case (Suc k)
  show ?case
  proof (cases "ss_stack s")
    case Nil
    then show ?thesis using Suc.prems by (simp add: search_finish_def Let_def split: if_splits)
  next
    case (Cons fr rest)
    let ?s = "s\<lparr>ss_explored := ss_explored s + 1\<rparr>"
    have ok: "stack_ok es ?s" using Suc.prems(3) by (simp add: stack_ok_def)
    show ?thesis
    proof (cases "fr_frontier fr = length es")
      case True
      then have "reached es (fr_model fr, length es, fr_ahead fr)" using ok Cons by (simp add: stack_ok_def conf_of_def)
      then show ?thesis by (rule reached_end) (use Suc.prems(1) in auto)
    next
      case False
      then have "search es k (search_round es ?s) = Linearizable" using Suc.prems(2) Cons by simp
      then show ?thesis using Suc.IH Suc.prems(1) stack_ok_round [OF ok assms(3)] Cons by simp
    qed
  qed
qed

subsection \<open>The search ends\<close>

fun op_values :: "kv_op \<Rightarrow> cell set" where
  "op_values (OpRead k) = {}"
| "op_values (OpPut k v) = {Some v}"
| "op_values (OpDel k) = {None}"
| "op_values (OpCas k e v) = {v}"

lemma model_step_values: "model_step m e = Some m' \<Longrightarrow> m' \<in> insert m (op_values (ev_op e))"
  by (cases "ev_op e"; cases "ev_ret e") (simp_all add: model_step.simps split: if_splits)

definition cells :: "hist \<Rightarrow> cell set" where
  "cells es = insert None (\<Union>e \<in> set es. op_values (ev_op e))"

lemma run_model_values: "run_model m l = Some m' \<Longrightarrow> m' \<in> insert m (\<Union>e \<in> set l. op_values (ev_op e))"
proof (induction l arbitrary: m)
  case (Cons e l)
  then show ?case using model_step_values [of m e] by (auto split: option.splits dest!: Cons.IH)
qed simp

definition confs :: "hist \<Rightarrow> conf set" where
  "confs es = {(m, f, a). m \<in> cells es \<and> placed f a \<subseteq> {..<length es}}"

lemma reached_confs:
  assumes "reached es c"
  shows "c \<in> confs es"
proof -
  obtain m f a where c: "c = (m, f, a)" by (cases c) auto
  obtain ord where ord: "placed f a \<subseteq> {..<length es}" "set ord \<subseteq> placed f a" "run_model None (map ((!) es) ord) = Some m"
    using assms unfolding reached_def c by auto
  have "set (map ((!) es) ord) \<subseteq> set es" using ord(1,2) by auto
  then have "m \<in> cells es" using run_model_values [OF ord(3)] unfolding cells_def by blast
  then show ?thesis using ord(1) by (simp add: confs_def c)
qed

lemma placed_inj: "placed f a = placed f' a' \<Longrightarrow> f = f' \<and> a = a'"
proof -
  assume eq: "placed f a = placed f' a'"
  have "\<not> f < f'" "\<not> f' < f" using eq frontier_not_placed [of f a] frontier_not_placed [of f' a'] by (auto simp: placed_def)
  then have f: "f = f'" by simp
  then have "bit a n \<longleftrightarrow> bit a' n" for n using eq placed_mem [of f "Suc n"] by auto
  then show ?thesis using f by (simp add: bit_eq_iff)
qed

lemma card_op_values: "finite (op_values p) \<and> card (op_values p) \<le> 1"
  by (cases p) simp_all

lemma card_cells: "finite (cells es) \<and> card (cells es) \<le> length es + 1"
proof (induction es)
  case (Cons e es)
  have "cells (e # es) = op_values (ev_op e) \<union> cells es" by (auto simp: cells_def)
  then show ?case using Cons card_op_values [of "ev_op e"] card_Un_le [of "op_values (ev_op e)" "cells es"] by simp
qed (simp add: cells_def)

lemma card_confs: "finite (confs es) \<and> card (confs es) \<le> (length es + 1) * 2 ^ length es"
proof -
  let ?g = "\<lambda>(m, f, a). (m :: cell, placed f a)" and ?U = "cells es \<times> Pow {..<length es}"
  have inj: "inj_on ?g (confs es)" by (auto simp: inj_on_def dest: placed_inj)
  have sub: "?g ` confs es \<subseteq> ?U" by (auto simp: confs_def)
  have fin: "finite ?U" using card_cells [of es] by simp
  have "card (confs es) \<le> card ?U" by (rule card_inj_on_le [OF inj sub fin])
  also have "\<dots> \<le> (length es + 1) * 2 ^ length es" using mult_le_mono1 [of "card (cells es)" "length es + 1"] card_cells [of es]
    by (simp add: card_cartesian_product card_Pow)
  finally show ?thesis using inj_on_finite [OF inj sub fin] by simp
qed

text \<open>A round uses up one unit of the work left.\<close>

definition work :: "hist \<Rightarrow> search_state \<Rightarrow> nat" where
  "work es s = 2 * (card (confs es) - card (ss_visited s)) + length (ss_stack s)"

definition in_confs :: "hist \<Rightarrow> search_state \<Rightarrow> bool" where
  "in_confs es s \<longleftrightarrow> ss_visited s \<subseteq> confs es"

lemma work_round:
  assumes "stack_ok es s" and "in_confs es s" and "by_invocation es" and top: "ss_stack s = fr # rest"
  shows "work es s = Suc (work es (search_round es s))" and "in_confs es (search_round es s)"
proof -
  have fr: "fr_cursor fr \<le> last_cursor" "reached es (conf_of fr)" using assms(1) top by (auto simp: stack_ok_def)
  have "work es s = Suc (work es (search_round es s)) \<and> in_confs es (search_round es s)"
    using top assms(3) fr(1)
  proof (cases rule: search_round_cases)
    case popped
    then show ?thesis using assms(2) top by (simp add: work_def in_confs_def)
  next
    case (pushed c k i)
    have "reached es c" using pushed(2) reached_move [OF fr(2)] by (auto simp: seek_result_def)
    then have sub: "insert c (ss_visited s) \<subseteq> confs es" using assms(2) reached_confs by (simp add: in_confs_def)
    have fin: "finite (confs es)" using card_confs [of es] by simp
    have "finite (ss_visited s)" by (rule finite_subset [OF _ fin]) (use sub in simp)
    then have "card (insert c (ss_visited s)) = Suc (card (ss_visited s))" using pushed(1) by simp
    moreover have "card (insert c (ss_visited s)) \<le> card (confs es)" using card_mono [OF fin sub] .
    ultimately show ?thesis using pushed(4,5) sub top by (simp add: work_def in_confs_def)
  qed
  then show "work es s = Suc (work es (search_round es s))" "in_confs es (search_round es s)" by simp_all
qed

lemma search_enough:
  assumes "work es s \<le> k" and "stack_ok es s" and "in_confs es s" and "by_invocation es"
  shows "search es k s = search es (work es s) s"
  using assms(1-3)
proof (induction k arbitrary: s)
  case (Suc k)
  show ?case
  proof (cases "ss_stack s")
    case Nil
    then show ?thesis by (cases "work es s") simp_all
  next
    case (Cons fr rest)
    let ?s = "s\<lparr>ss_explored := ss_explored s + 1\<rparr>"
    have s: "stack_ok es ?s" "in_confs es ?s" "ss_stack ?s = fr # rest" "work es ?s = work es s"
      using Suc.prems Cons by (simp_all add: stack_ok_def in_confs_def work_def)
    note w = work_round [OF s(1,2) assms(4) s(3)]
    have "search es k (search_round es ?s) = search es (work es (search_round es ?s)) (search_round es ?s)"
      using Suc.IH [OF _ stack_ok_round [OF s(1) assms(4) s(3)] w(2)] w(1) Suc.prems(1) s(4) by simp
    moreover have "work es s = Suc (work es (search_round es ?s))" using w(1) s(4) by simp
    ultimately show ?thesis using Cons by (simp only: search.simps Let_def)
  qed
qed simp

text \<open>With at most \<open>AHEAD + 1\<close> operations the window cuts nothing off.\<close>

lemma seek_in_window: "length es \<le> AHEAD + 1 \<Longrightarrow> seek es m f a vis k = (k', b, r) \<Longrightarrow> \<not> b"
proof (induction es m f a vis k arbitrary: k' b r rule: seek.induct)
  case (1 es m f a vis k)
  note IH = 1(1-4) [OF _ refl refl refl refl]
  show ?case using 1(5,6) IH unfolding seek.simps [of es m f a vis k]
    by (simp add: Let_def split: if_splits option.splits) blast
qed

lemma search_decides:
  assumes "work es s \<le> k" and "stack_ok es s" and "in_confs es s" and "by_invocation es"
    and "length es \<le> AHEAD + 1" and "\<not> ss_bounded_out s"
  shows "search es k s \<noteq> Inconclusive x y"
  using assms(1-3,6)
proof (induction k arbitrary: s)
  case 0
  then show ?case by (simp add: work_def search_finish_def Let_def)
next
  case (Suc k)
  show ?case
  proof (cases "ss_stack s")
    case Nil
    then show ?thesis using Suc.prems by (simp add: search_finish_def Let_def)
  next
    case (Cons fr rest)
    let ?s = "s\<lparr>ss_explored := ss_explored s + 1\<rparr>"
    have s: "stack_ok es ?s" "in_confs es ?s" "ss_stack ?s = fr # rest" "work es ?s = work es s" "\<not> ss_bounded_out ?s"
      using Suc.prems Cons by (simp_all add: stack_ok_def in_confs_def work_def)
    note w = work_round [OF s(1,2) assms(4) s(3)]
    obtain k' b r where run: "seek es (fr_model fr) (fr_frontier fr) (fr_ahead fr) (ss_visited ?s) (fr_cursor fr) = (k', b, r)"
      using prod_cases3 by blast
    moreover from seek_in_window [OF assms(5) run] have "\<not> b" .
    ultimately have "\<not> ss_bounded_out (search_round es ?s)" using s(3,5) by (auto simp: search_round_def Let_def split: option.split)
    then have "search es k (search_round es ?s) \<noteq> Inconclusive x y"
      using Suc.IH [OF _ stack_ok_round [OF s(1) assms(4) s(3)] w(2)] w(1) Suc.prems(1) s(4) by simp
    then show ?thesis using Cons by simp
  qed
qed

subsection \<open>One key\<close>

definition enough_states :: "nat \<Rightarrow> nat" where
  "enough_states n = 2 * (n + 1) * 2 ^ n + 1"

definition unnested :: "hist \<Rightarrow> bool" where
  "unnested h \<longleftrightarrow> (\<forall>a \<in> set h. \<forall>b \<in> set h. ev_invoked a < ev_invoked b \<longrightarrow> ev_returned a \<le> ev_returned b)"

lemma unnested_by_return:
  assumes "unnested h"
  shows "by_return (hist_sorted h)"
proof -
  let ?k = "\<lambda>e. (ev_invoked e, ev_returned e, ev_client e)" and ?es = "hist_sorted h"
  have "sorted (map ?k ?es)" by (simp add: hist_sorted_def)
  then have "?k (?es ! i) \<le> ?k (?es ! j)" if "i \<le> j" "j < length ?es" for i j
    using that sorted_nth_mono [of "map ?k ?es" i j] by simp
  moreover have "ev_returned a \<le> ev_returned b" if "?k a \<le> ?k b" "a \<in> set ?es" "b \<in> set ?es" for a b
    using that assms unfolding unnested_def less_eq_prod_def fst_conv snd_conv set_hist_sorted by (meson less_imp_le)
  ultimately have "ev_returned (?es ! i) \<le> ev_returned (?es ! j)" if "i \<le> j" "j < length ?es" for i j
    using that nth_mem [of i ?es] nth_mem [of j ?es] by (meson le_less_trans)
  then show ?thesis unfolding by_return_def by blast
qed

lemma windows_ok_sorted [simp]: "windows_ok (hist_sorted h) \<longleftrightarrow> windows_ok h"
  by (simp add: windows_ok_def)

lemma key_linearizable_Nil: "key_linearizable []"
  by (auto simp: key_linearizable_iff order_of_def intro: exI [of _ "[]"])

lemma one_key_violation:
  assumes "check_one_key h n = NotLinearizable v" and "windows_ok h"
  shows "\<not> key_linearizable h"
  using assms search_no_false_alarm [OF _ search_inv_init hist_sorted_by_invocation, of h n v]
  by (simp add: check_one_key_def Let_def split: if_splits)

lemma one_key_pass:
  assumes "check_one_key h n = Linearizable"
  obtains ord where "covers (hist_sorted h) ord" "run_model None (map ((!) (hist_sorted h)) ord) \<noteq> None"
    "by_return (hist_sorted h) \<Longrightarrow> real_time (hist_sorted h) ord"
proof (cases "h = []")
  case True
  then show ?thesis using that [of "[]"] by (simp add: covers_def real_time_def)
next
  case False
  then have "search (hist_sorted h) n search_init = Linearizable"
    using assms by (simp add: check_one_key_def Let_def)
  then show ?thesis using that search_pass [OF _ stack_ok_init hist_sorted_by_invocation] by blast
qed

lemma one_key_pass_unnested:
  assumes "check_one_key h n = Linearizable" and "unnested h"
  shows "key_linearizable h"
proof (rule one_key_pass [OF assms(1)])
  fix ord assume "covers (hist_sorted h) ord" "run_model None (map ((!) (hist_sorted h)) ord) \<noteq> None"
    "by_return (hist_sorted h) \<Longrightarrow> real_time (hist_sorted h) ord"
  then have "linearizes (hist_sorted h) ord" using unnested_by_return [OF assms(2)] by (simp add: linearizes_def)
  then have "key_linearizable (hist_sorted h)" unfolding key_linearizable_def by (rule exI)
  then show ?thesis by (simp only: key_linearizable_sorted)
qed

lemma one_key_decides:
  assumes "length h \<le> AHEAD + 1" and "enough_states (length h) \<le> n"
  shows "check_one_key h n \<noteq> Inconclusive x y"
proof -
  let ?es = "hist_sorted h"
  have "work ?es search_init \<le> n"
    using card_confs [of ?es] assms(2) by (simp add: work_def search_init_def enough_states_def)
  moreover have "in_confs ?es search_init" "\<not> ss_bounded_out search_init" by (simp_all add: in_confs_def search_init_def)
  ultimately have "search ?es n search_init \<noteq> Inconclusive x y"
    using search_decides [OF _ stack_ok_init _ hist_sorted_by_invocation] assms(1) by simp
  then show ?thesis by (simp add: check_one_key_def Let_def)
qed

subsection \<open>The whole history\<close>

lemma check_keys_verdict:
  "check_keys n ks = Linearizable \<longleftrightarrow> (\<forall>(k, sub) \<in> set ks. check_one_key sub n = Linearizable)"
  "check_keys n ks = NotLinearizable v \<Longrightarrow> \<exists>(k, sub) \<in> set ks. check_one_key sub n = NotLinearizable v"
  "check_keys n ks = Inconclusive x y \<Longrightarrow> \<exists>(k, sub) \<in> set ks. check_one_key sub n = Inconclusive x y"
  by (induction n ks rule: check_keys.induct) (auto split: verdict.splits)

lemma set_by_key: "set (by_key h) = (\<lambda>k. (k, hist_key h k)) ` ev_key ` set h"
  by (simp add: by_key_def)

lemma windows_ok_hist_key: "windows_ok h \<Longrightarrow> windows_ok (hist_key h k)"
  by (simp add: windows_ok_def hist_key_def)

lemma unnested_hist_key: "unnested h \<Longrightarrow> unnested (hist_key h k)"
  by (simp add: unnested_def hist_key_def)

lemma length_hist_key [simp]: "length (hist_key h k) = length (on_key k h)"
  by (simp add: hist_key_def on_key_def)

lemma lin_check_violation:
  assumes "lin_check h n = NotLinearizable v" and "windows_ok h"
  shows "\<not> linearizable h"
proof -
  obtain k where k: "k \<in> ev_key ` set h" "check_one_key (hist_key h k) n = NotLinearizable v"
    using check_keys_verdict(2) [of n "by_key h" v] assms(1) by (auto simp: lin_check_def set_by_key)
  then have "\<not> key_linearizable (on_key k h)"
    using one_key_violation windows_ok_hist_key [OF assms(2)] by (simp add: key_linearizable_hist_key [symmetric])
  then show ?thesis using k(1) locality [OF assms(2)] by blast
qed

lemma lin_check_pass:
  assumes "lin_check h n = Linearizable" and "windows_ok h" and "unnested h"
  shows "linearizable h"
proof -
  have "key_linearizable (on_key k h)" if "k \<in> ev_key ` set h" for k
    using that assms(1) one_key_pass_unnested [OF _ unnested_hist_key [OF assms(3)]] check_keys_verdict(1) [of n "by_key h"]
    by (auto simp: lin_check_def set_by_key key_linearizable_hist_key [symmetric])
  then show ?thesis using locality [OF assms(2)] by blast
qed

lemma lin_check_decides:
  assumes "\<And>k. length (on_key k h) \<le> AHEAD + 1" and "\<And>k. enough_states (length (on_key k h)) \<le> n"
  shows "lin_check h n \<noteq> Inconclusive x y"
proof
  assume "lin_check h n = Inconclusive x y"
  then obtain k where "check_one_key (hist_key h k) n = Inconclusive x y"
    using check_keys_verdict(3) [of n "by_key h" x y] by (auto simp: lin_check_def set_by_key)
  then show False using one_key_decides [of "hist_key h k" n x y] assms by simp
qed

lemma enough_states_default: "n \<le> 15 \<Longrightarrow> enough_states n \<le> default_max_states"
proof -
  assume "n \<le> 15"
  then have "(n + 1) * 2 ^ n \<le> (15 + 1) * 2 ^ (15 :: nat)" by (intro mult_le_mono add_right_mono power_increasing) simp_all
  then show ?thesis by (simp add: enough_states_def default_max_states_def)
qed

subsection \<open>Examples\<close>

text \<open>Small histories, for the examples below.\<close>

definition ev :: "u64 \<Rightarrow> kv_op \<Rightarrow> op_ret \<Rightarrow> u64 \<Rightarrow> u64 \<Rightarrow> op_event" where
  "ev c p r i t = \<lparr>ev_client = c, ev_op = p, ev_ret = r, ev_invoked = i, ev_returned = t\<rparr>"

definition stale_read :: hist where
  "stale_read = [ev 1 (OpRead [0]) (RetValue (Some [1])) 0 100, ev 2 (OpPut [0] [1]) RetOk 1 2, ev 3 (OpRead [0]) (RetValue None) 5 6]"

definition late_write :: hist where
  "late_write = [ev 1 (OpPut [0] [1]) RetUnknown 0 10, ev 2 (OpRead [0]) (RetValue None) 12 15, ev 3 (OpRead [0]) (RetValue (Some [1])) 20 30]"

definition open_ended :: "hist \<Rightarrow> hist" where
  "open_ended h = map (\<lambda>e. if is_unknown e then e\<lparr>ev_returned := - 1\<rparr> else e) h"

lemma linearizes_all:
  assumes "\<forall>i < length es. \<not> is_unknown (es ! i)" and "linearizes es ord"
  shows "ord \<in> set (List.n_lists (length es) [0..<length es])"
proof -
  have "set ord \<subseteq> {..<length es}" "distinct ord" using assms(2) by (simp_all add: linearizes_def covers_def)
  moreover have "{..<length es} \<subseteq> set ord" using assms by (auto simp: linearizes_def covers_def)
  ultimately have set: "set ord = {..<length es}" and "length ord = length es" using distinct_card [of ord] by simp_all
  then show ?thesis by (simp add: set_n_lists lessThan_atLeast0)
qed

lemma stale_read_not_linearizable: "\<not> linearizable stale_read"
proof
  assume "linearizable stale_read"
  then have "\<forall>k \<in> ev_key ` set stale_read. key_linearizable (on_key k stale_read)"
    by (subst (asm) locality) (simp_all add: windows_ok_def stale_read_def ev_def)
  moreover have "on_key [0] stale_read = stale_read" by (simp add: stale_read_def ev_def ev_key_def)
  moreover have "[0] \<in> ev_key ` set stale_read" by (simp add: stale_read_def ev_def ev_key_def)
  ultimately obtain ord where o: "linearizes stale_read ord" by (metis key_linearizable_def)
  have "\<forall>i < length stale_read. \<not> is_unknown (stale_read ! i)" by code_simp
  from linearizes_all [OF this o] o
  show False
  proof -
    have "\<forall>ord \<in> set (List.n_lists (length stale_read) [0..<length stale_read]). \<not> linearizes stale_read ord" by code_simp
    then show ?thesis using o \<open>ord \<in> _\<close> by blast
  qed
qed

lemma checker_misses_stale_read: "lin_check stale_read 100 = Linearizable \<and> \<not> linearizable stale_read"
proof
  show "lin_check stale_read 100 = Linearizable" by code_simp
qed (rule stale_read_not_linearizable)

lemma late_write_reported: "is_violation (lin_check late_write 100) \<and> linearizable (open_ended late_write)"
proof
  show "is_violation (lin_check late_write 100)" by code_simp
  let ?l = "[open_ended late_write ! 1, open_ended late_write ! 0, open_ended late_write ! 2]"
  have "order_of (open_ended late_write) ?l" 
    by (simp add: order_of_def late_write_def open_ended_def is_unknown_def ev_def)
  moreover have "run_store (\<lambda>_. None) ?l \<noteq> None"
    by (simp add: late_write_def open_ended_def is_unknown_def ev_def ev_key_def model_step.simps)
  ultimately show "linearizable (open_ended late_write)" unfolding linearizable_def by blast
qed
definition busy_register :: hist where
  "busy_register = [ev 1 (OpPut [0] [1]) RetOk 0 10, ev 2 (OpRead [0]) (RetValue (Some [1])) 5 12, ev 3 (OpDel [7]) RetUnknown 6 14]"

definition lost_write :: hist where
  "lost_write = [ev 1 (OpPut [0] [1]) RetOk 0 10, ev 2 (OpRead [0]) (RetValue None) 12 15]"

subsection \<open>Properties\<close>

text \<open>
  C8: a violation the checker reports is one: no order of the operations that is legal for the store and
  compatible with their recorded windows exists, for the whole history and not only for the key.
\<close>

theorem reported_violation_is_real:
  assumes "lin_check h max_states = NotLinearizable v" and "windows_ok h"
  shows "\<not> linearizable h"
  using assms by (rule lin_check_violation)

theorem reported_violation_is_real_witness: "\<not> linearizable lost_write"
proof -
  obtain v where "lin_check lost_write 100 = NotLinearizable v"
  proof (cases "lin_check lost_write 100")
    case (NotLinearizable v)
    then show ?thesis using that by blast
  next
    have "is_violation (lin_check lost_write 100)" by code_simp
    moreover case Linearizable
    ultimately show ?thesis by (simp add: is_violation_def)
  next
    have "is_violation (lin_check lost_write 100)" by code_simp
    moreover case (Inconclusive x y)
    ultimately show ?thesis by (simp add: is_violation_def)
  qed
  moreover have "windows_ok lost_write" by code_simp
  ultimately show ?thesis by (rule reported_violation_is_real)
qed

text \<open>
  C9: on a history where no operation runs inside the window of another and where no key has more
  than fifteen operations, the check with the default limits decides linearizability.
\<close>

theorem default_check_exact:
  assumes "windows_ok h" and "unnested h" and "\<forall>k. length (on_key k h) \<le> 15"
  shows "lin_check h default_max_states = Linearizable \<longleftrightarrow> linearizable h"
proof (cases "lin_check h default_max_states")
  case Linearizable
  then show ?thesis using lin_check_pass assms by simp
next
  case (NotLinearizable v)
  then show ?thesis using lin_check_violation assms by simp
next
  case (Inconclusive x y)
  have "length (on_key k h) \<le> AHEAD + 1" for k using assms(3) [rule_format, of k] by (simp add: AHEAD_def)
  then show ?thesis using lin_check_decides [of h default_max_states x y] enough_states_default assms(3) Inconclusive by blast
qed

theorem default_check_exact_witness: "lin_check busy_register default_max_states = Linearizable \<longleftrightarrow> linearizable busy_register"
proof (rule default_check_exact)
  have "length (on_key k busy_register) \<le> length busy_register" for k by (simp add: on_key_def)
  then show "\<forall>k. length (on_key k busy_register) \<le> 15" by (auto simp: busy_register_def intro: order_trans)
qed code_simp+

text \<open>
  C10: the search ends by itself. With at most 64 operations per key it never gives up, provided the limit
  leaves room for the configurations that exist: a value of the register and a set of placed operations.
\<close>

theorem check_never_gives_up:
  assumes "\<forall>k. length (on_key k h) \<le> AHEAD + 1 \<and> enough_states (length (on_key k h)) \<le> max_states"
  shows "is_linearizable (lin_check h max_states) \<or> is_violation (lin_check h max_states)"
proof (cases "lin_check h max_states")
  case (Inconclusive x y)
  then show ?thesis using lin_check_decides [of h max_states x y] assms by blast
qed (simp_all add: is_linearizable_def is_violation_def)

theorem check_never_gives_up_witness: "is_linearizable (lin_check lost_write 25) \<or> is_violation (lin_check lost_write 25)"
proof (rule check_never_gives_up, intro allI)
  fix k
  consider "length (on_key k lost_write) = 0" | "length (on_key k lost_write) = 2"
    by (cases "k = [0]") (simp_all add: lost_write_def ev_def ev_key_def)
  then show "length (on_key k lost_write) \<le> AHEAD + 1 \<and> enough_states (length (on_key k lost_write)) \<le> 25"
    by cases (simp_all only: AHEAD_def enough_states_def, simp_all)
qed

text \<open>C11: linearizability is local: a history is linearizable if and only if the history of every key is.\<close>

theorem linearizability_local:
  assumes "windows_ok h"
  shows "linearizable h \<longleftrightarrow> (\<forall>k. key_linearizable (hist_key h k))"
proof -
  have "key_linearizable (on_key k h)" if "k \<notin> ev_key ` set h" for k
  proof -
    have "on_key k h = []" using that by (auto simp: on_key_def filter_empty_conv)
    then show ?thesis using key_linearizable_Nil by simp
  qed
  then show ?thesis using locality [OF assms] unfolding key_linearizable_hist_key by blast
qed

theorem linearizability_local_witness: "linearizable busy_register \<longleftrightarrow> (\<forall>k. key_linearizable (hist_key busy_register k))"
  by (rule linearizability_local) code_simp

end
