(* ===== verification/Node_Chan.thy ===== *)
theory Node_Chan
  imports Chrono_Prelude
begin

section \<open>The driver's event queue (chronolog/src/chan.rs)\<close>

text \<open>
  A queue with many senders and one receiver, which a future polls. Locking is one step per
  call; a waker is the identity of the task it wakes, and every operation that takes wakers out
  of the queue returns them, to be called once the lock is released. Debug output is not
  modelled.
\<close>

record 'a chan =
  ch_queue :: "'a list"
  ch_wakers :: "nat list"
  ch_closed :: bool

definition chan_new :: "'a chan" where
  "chan_new = \<lparr>ch_queue = [], ch_wakers = [], ch_closed = False\<rparr>"

definition chan_send :: "'a chan \<Rightarrow> 'a \<Rightarrow> nat list \<times> 'a chan" where
  "chan_send c v =
     (if ch_closed c then ([], c)
      else (ch_wakers c, c\<lparr>ch_queue := ch_queue c @ [v], ch_wakers := []\<rparr>))"

definition chan_try_recv :: "'a chan \<Rightarrow> 'a option \<times> 'a chan" where
  "chan_try_recv c = (case ch_queue c of [] \<Rightarrow> (None, c) | v # vs \<Rightarrow> (Some v, c\<lparr>ch_queue := vs\<rparr>))"

definition chan_len :: "'a chan \<Rightarrow> nat" where
  "chan_len c = length (ch_queue c)"

definition chan_is_empty :: "'a chan \<Rightarrow> bool" where
  "chan_is_empty c \<longleftrightarrow> chan_len c = 0"

definition chan_close :: "'a chan \<Rightarrow> nat list \<times> 'a chan" where
  "chan_close c = (ch_wakers c, c\<lparr>ch_closed := True, ch_wakers := []\<rparr>)"

datatype 'a poll = Ready "'a option" | Pending

definition recv_poll :: "'a chan \<Rightarrow> nat \<Rightarrow> 'a poll \<times> 'a chan" where
  "recv_poll c waker =
     (case ch_queue c of
        v # vs \<Rightarrow> (Ready (Some v), c\<lparr>ch_queue := vs\<rparr>)
      | [] \<Rightarrow> if ch_closed c then (Ready None, c)
              else (Pending, c\<lparr>ch_wakers := ch_wakers c @ [waker]\<rparr>))"

subsection \<open>Runs\<close>

text \<open>
  A run of the queue, with what was accepted, what was received, which tasks went to sleep on it
  and which were woken.
\<close>

record 'a chan_run =
  cr_chan :: "'a chan"
  cr_sent :: "'a list"
  cr_got :: "'a list"
  cr_slept :: "nat list"
  cr_woken :: "nat list"

definition chan_start :: "'a chan_run" where
  "chan_start = \<lparr>cr_chan = chan_new, cr_sent = [], cr_got = [], cr_slept = [], cr_woken = []\<rparr>"

inductive chan_step :: "'a chan_run \<Rightarrow> 'a chan_run \<Rightarrow> bool" where
  send: "chan_send (cr_chan s) v = (ws, c) \<Longrightarrow>
    chan_step s (s\<lparr>cr_chan := c, cr_woken := cr_woken s @ ws,
      cr_sent := cr_sent s @ (if ch_closed (cr_chan s) then [] else [v])\<rparr>)"
| close: "chan_close (cr_chan s) = (ws, c) \<Longrightarrow> chan_step s (s\<lparr>cr_chan := c, cr_woken := cr_woken s @ ws\<rparr>)"
| try_recv: "chan_try_recv (cr_chan s) = (Some v, c) \<Longrightarrow> chan_step s (s\<lparr>cr_chan := c, cr_got := cr_got s @ [v]\<rparr>)"
| ready: "recv_poll (cr_chan s) w = (Ready (Some v), c) \<Longrightarrow> chan_step s (s\<lparr>cr_chan := c, cr_got := cr_got s @ [v]\<rparr>)"
| ended: "recv_poll (cr_chan s) w = (Ready None, c) \<Longrightarrow> chan_step s (s\<lparr>cr_chan := c\<rparr>)"
| pending: "recv_poll (cr_chan s) w = (Pending, c) \<Longrightarrow> chan_step s (s\<lparr>cr_chan := c, cr_slept := cr_slept s @ [w]\<rparr>)"

definition chan_inv :: "'a chan_run \<Rightarrow> bool" where
  "chan_inv s \<longleftrightarrow> cr_sent s = cr_got s @ ch_queue (cr_chan s) \<and> cr_slept s = cr_woken s @ ch_wakers (cr_chan s) \<and>
     (ch_wakers (cr_chan s) \<noteq> [] \<longrightarrow> ch_queue (cr_chan s) = [] \<and> \<not> ch_closed (cr_chan s))"

lemma chan_inv_step: "chan_step s s' \<Longrightarrow> chan_inv s \<Longrightarrow> chan_inv s'"
  by (induction rule: chan_step.induct)
    (auto simp: chan_inv_def chan_send_def chan_close_def chan_try_recv_def recv_poll_def split: if_splits list.splits)

lemma chan_inv_run: "chan_step\<^sup>*\<^sup>* chan_start s \<Longrightarrow> chan_inv s"
proof (induction rule: rtranclp_induct)
  case base
  show ?case by (simp add: chan_inv_def chan_start_def chan_new_def)
qed (rule chan_inv_step)

subsection \<open>Properties\<close>

text \<open>
  C39: no lost wake-up. In every run of sends, closes and polls, tasks are woken in the order in which
  they went to sleep, and a task that has not been woken yet really has nothing to wake up for:
  the queue is empty and open. So an event that is queued is always seen.
\<close>

theorem no_lost_wakeup:
  assumes "chan_step\<^sup>*\<^sup>* chan_start s" and "ch_queue (cr_chan s) \<noteq> [] \<or> ch_closed (cr_chan s)"
  shows "cr_woken s = cr_slept s"
  using chan_inv_run [OF assms(1)] assms(2) by (auto simp: chan_inv_def)

theorem no_lost_wakeup_witness:
  "\<exists>s :: nat chan_run. chan_step\<^sup>*\<^sup>* chan_start s \<and> cr_slept s = [7] \<and> cr_woken s = [7]"
proof -
  let ?s = "chan_start\<lparr>cr_chan := \<lparr>ch_queue = [], ch_wakers = [7], ch_closed = False\<rparr>, cr_slept := [7]\<rparr> :: nat chan_run"
  let ?t = "?s\<lparr>cr_chan := \<lparr>ch_queue = [1], ch_wakers = [], ch_closed = False\<rparr>, cr_woken := [7], cr_sent := [1]\<rparr>"
  have "chan_step chan_start ?s"
    using chan_step.pending [of "chan_start :: nat chan_run" 7] by (simp add: chan_start_def chan_new_def recv_poll_def)
  moreover have "chan_step ?s ?t"
    using chan_step.send [of ?s 1] by (simp add: chan_start_def chan_new_def chan_send_def)
  ultimately have run: "chan_step\<^sup>*\<^sup>* chan_start ?t" by (meson r_into_rtranclp rtranclp.rtrancl_into_rtrancl)
  have "cr_slept ?t = [7]" by simp
  moreover from no_lost_wakeup [OF run] have "cr_woken ?t = cr_slept ?t" by simp
  ultimately show ?thesis using run by metis
qed

text \<open>Nothing is lost, duplicated or reordered between the senders and the receiver.\<close>

lemma chan_fifo: "chan_step\<^sup>*\<^sup>* chan_start s \<Longrightarrow> cr_sent s = cr_got s @ ch_queue (cr_chan s)"
  using chan_inv_run by (auto simp: chan_inv_def)

end
