(* ===== verification/Node_Driver.thy ===== *)
theory Node_Driver
  imports Raft_Core Kv_Store Wire_Msg Wal Node_Chan
begin

section \<open>The driver of a node (chronolog/src/node.rs)\<close>

text \<open>
  What turns the state machine into a server: the events, the handling of clients, the
  \<open>Ready\<close> cycle with its writes, the application of committed entries, compaction and the
  published state. The driver is one task, so a cycle is a function of its state; the calls that
  wait for the disk are the calls of \<open>Wal\<close> on the simulated disk, and an error of theirs is
  returned or answered as in the source. Packets handed to the network are collected in order in
  \<open>dr_sent\<close>. The number drawn from the host's generator by a tick comes with the event. Notes
  written to the trace, the \<open>config\<close> text of the published state and \<open>batch_ratio\<close> (a
  floating-point statistic) are not modelled.
\<close>

record node_metrics =
  nm_proposals :: u64
  nm_commits :: u64
  nm_applies :: u64
  nm_batches :: u64
  nm_batched_entries :: u64
  nm_fsyncs :: u64
  nm_elections_started :: u64
  nm_leadership_gained :: u64
  nm_leadership_lost :: u64
  nm_snapshots_taken :: u64
  nm_snapshots_installed :: u64
  nm_client_requests :: u64
  nm_not_leader_redirects :: u64
  nm_reads_linearizable :: u64
  nm_reads_lease :: u64
  nm_reads_stale :: u64
  nm_config_changes_proposed :: u64
  nm_config_changes_applied :: u64
  nm_enospc :: u64

definition metrics_zero :: node_metrics where
  "metrics_zero = \<lparr>nm_proposals = 0, nm_commits = 0, nm_applies = 0, nm_batches = 0, nm_batched_entries = 0,
     nm_fsyncs = 0, nm_elections_started = 0, nm_leadership_gained = 0, nm_leadership_lost = 0,
     nm_snapshots_taken = 0, nm_snapshots_installed = 0, nm_client_requests = 0, nm_not_leader_redirects = 0,
     nm_reads_linearizable = 0, nm_reads_lease = 0, nm_reads_stale = 0, nm_config_changes_proposed = 0,
     nm_config_changes_applied = 0, nm_enospc = 0\<rparr>"

definition metrics_get :: "node_metrics \<Rightarrow> string \<Rightarrow> u64" where
  "metrics_get m name =
     (if name = ''proposals'' then nm_proposals m
      else if name = ''commits'' then nm_commits m
      else if name = ''applies'' then nm_applies m
      else if name = ''batches'' then nm_batches m
      else if name = ''batched_entries'' then nm_batched_entries m
      else if name = ''fsyncs'' then nm_fsyncs m
      else if name = ''elections_started'' then nm_elections_started m
      else if name = ''leadership_gained'' then nm_leadership_gained m
      else if name = ''leadership_lost'' then nm_leadership_lost m
      else if name = ''snapshots_taken'' then nm_snapshots_taken m
      else if name = ''snapshots_installed'' then nm_snapshots_installed m
      else if name = ''client_requests'' then nm_client_requests m
      else if name = ''not_leader_redirects'' then nm_not_leader_redirects m
      else if name = ''reads_linearizable'' then nm_reads_linearizable m
      else if name = ''reads_lease'' then nm_reads_lease m
      else if name = ''reads_stale'' then nm_reads_stale m
      else if name = ''config_changes_proposed'' then nm_config_changes_proposed m
      else if name = ''config_changes_applied'' then nm_config_changes_applied m
      else if name = ''enospc'' then nm_enospc m
      else 0)"

record public_state =
  ps_node :: node_id
  ps_generation :: u64
  ps_role :: string
  ps_term :: raft_term
  ps_leader :: "node_id option"
  ps_commit_index :: index
  ps_applied_index :: index
  ps_last_index :: index
  ps_persisted_index :: index
  ps_snapshot_index :: index
  ps_voters :: "node_id list"
  ps_keys :: nat
  ps_wal_segments :: nat
  ps_wal_bytes :: nat
  ps_up :: bool
  ps_recovered :: bool
  ps_driver_error :: "io_error option"
  ps_log_terms :: "(index \<times> raft_term) list"
  ps_apply_checkpoints :: "(index \<times> u64) list"

definition public_default :: public_state where
  "public_default = \<lparr>ps_node = 0, ps_generation = 0, ps_role = [], ps_term = 0, ps_leader = None,
     ps_commit_index = 0, ps_applied_index = 0, ps_last_index = 0, ps_persisted_index = 0, ps_snapshot_index = 0,
     ps_voters = [], ps_keys = 0, ps_wal_segments = 0, ps_wal_bytes = 0, ps_up = False, ps_recovered = False,
     ps_driver_error = None, ps_log_terms = [], ps_apply_checkpoints = []\<rparr>"

record node_options =
  no_raft :: raft_options
  no_wal :: wal_options
  no_bootstrap :: config
  no_inspect :: bool

datatype driver_event =
    EvTick u64
  | EvWire node_id message
  | EvClient node_id request
  | EvAdmin node_id config_change

record driver =
  dr_raft :: raft
  dr_kv :: kv_store
  dr_disk :: wal_disk
  dr_writes :: "index \<rightharpoonup> node_id \<times> request"
  dr_reads :: "u64 \<rightharpoonup> (node_id \<times> request) list"
  dr_was_leader :: bool
  dr_digest :: "(index \<times> u64) list"
  dr_metrics :: node_metrics
  dr_public :: public_state
  dr_sent :: "(node_id \<times> bytes) list"

subsection \<open>Small pieces\<close>

definition metric :: "(node_metrics \<Rightarrow> node_metrics) \<Rightarrow> driver \<Rightarrow> driver" where
  "metric f dr = dr\<lparr>dr_metrics := f (dr_metrics dr)\<rparr>"

definition net_send :: "node_id \<Rightarrow> wire \<Rightarrow> driver \<Rightarrow> driver" where
  "net_send to w dr = dr\<lparr>dr_sent := dr_sent dr @ [(to, wire_encode w)]\<rparr>"

definition reply :: "node_id \<Rightarrow> request \<Rightarrow> outcome \<Rightarrow> driver \<Rightarrow> driver" where
  "reply to rq out = net_send to (Reply \<lparr>rs_client_id = rq_client_id rq, rs_seq = rq_seq rq, rs_outcome = out\<rparr>)"

definition serve_read :: "kv_store \<Rightarrow> request \<Rightarrow> outcome" where
  "serve_read kv rq = (case rq_op rq of
       Get key _ \<Rightarrow> Value (kv_get kv key)
     | GetAt key version \<Rightarrow> Value (kv_get_at kv key version)
     | _ \<Rightarrow> Unavailable)"

text \<open>The number a tick draws is fixed when the event is handled; it is an argument here.\<close>

definition decode :: "node_id \<Rightarrow> bytes \<Rightarrow> driver_event option" where
  "decode from payload = (case wire_decode payload of
       Inl _ \<Rightarrow> None
     | Inr (Raft m) \<Rightarrow> Some (EvWire from m)
     | Inr (Client rq) \<Rightarrow> Some (EvClient from rq)
     | Inr (Admin change) \<Rightarrow> Some (EvAdmin from change)
     | Inr (Reply _) \<Rightarrow> None
     | Inr (AdminReply _) \<Rightarrow> None)"

text \<open>One FNV-1a round per byte of a 64-bit number, low byte first.\<close>

definition digest_mix :: "u64 \<Rightarrow> u64 \<Rightarrow> u64" where
  "digest_mix v h = foldl (\<lambda>h i. (h XOR (drop_bit (i * 8) v AND 0xFF)) * 0x100000001b3) h [0..<8]"

definition entry_digest :: "entry \<Rightarrow> u64" where
  "entry_digest e =
     (let h = digest_mix (e_term e) (digest_mix (e_index e) 0xcbf29ce484222325) in
      case e_kind e of
        Noop \<Rightarrow> digest_mix 1 h
      | Config _ \<Rightarrow> digest_mix 2 h
      | Normal d \<Rightarrow> foldl (\<lambda>h b. digest_mix (ucast b) h) (digest_mix 3 h) d)"

definition digest_feed :: "(index \<times> u64) list \<Rightarrow> entry \<Rightarrow> (index \<times> u64) list" where
  "digest_feed cps e =
     (let cps = cps @ [(e_index e, entry_digest e)] in if length cps > 4096 then drop 2048 cps else cps)"

definition safe_to_compact :: "snapshot \<Rightarrow> raft \<Rightarrow> wal \<Rightarrow> bool" where
  "safe_to_compact snap r w \<longleftrightarrow> sn_last_index snap > l_snapshot_index (rf_log r) \<and> sn_last_index snap \<le> wal_last_index w"

definition role_name :: "role \<Rightarrow> string" where
  "role_name r = (case r of Follower \<Rightarrow> ''follower'' | PreCandidate \<Rightarrow> ''pre-candidate''
     | Candidate \<Rightarrow> ''candidate'' | Leader \<Rightarrow> ''leader'')"

definition publish :: "bool \<Rightarrow> driver \<Rightarrow> driver" where
  "publish inspect dr =
     (let r = dr_raft dr; cfg = raft_config r; w = fst (dr_disk dr);
          s = (dr_public dr)\<lparr>ps_node := rf_id r, ps_recovered := True, ps_role := role_name (rf_role r),
            ps_term := rf_term r, ps_leader := rf_leader r, ps_commit_index := rf_commit r,
            ps_applied_index := rf_applied r, ps_last_index := last_index (rf_log r),
            ps_persisted_index := rf_persisted r, ps_snapshot_index := l_snapshot_index (rf_log r),
            ps_voters := sorted_list_of_set (voters cfg \<union> outgoing cfg), ps_keys := kv_len (dr_kv dr),
            ps_wal_segments := segment_count w, ps_wal_bytes := total_bytes w\<rparr>;
          s = (if inspect
               then s\<lparr>ps_log_terms := map (\<lambda>e. (e_index e, e_term e)) (entries_from (rf_log r) (first_index (rf_log r))),
                      ps_apply_checkpoints := dr_digest dr\<rparr>
               else s)
      in dr\<lparr>dr_public := s\<rparr>)"

subsection \<open>Events\<close>

definition handle_client :: "node_id \<Rightarrow> request \<Rightarrow> driver \<Rightarrow> driver" where
  "handle_client from rq dr =
     (let redirect = (\<lambda>dr. reply from rq (NotLeader (rf_leader (dr_raft dr))) dr);
          answer = (\<lambda>dr. reply from rq (serve_read (dr_kv dr) rq) dr);
          confirm = (\<lambda>dr. case read_index (dr_raft dr) of
              (None, r) \<Rightarrow> reply from rq Unavailable (dr\<lparr>dr_raft := r\<rparr>)
            | (Some ctx, r) \<Rightarrow> dr\<lparr>dr_raft := r, dr_reads := (dr_reads dr)(ctx \<mapsto>
                (case dr_reads dr ctx of None \<Rightarrow> [] | Some ws \<Rightarrow> ws) @ [(from, rq)])\<rparr>);
          write = (\<lambda>dr. case propose (dr_raft dr) (request_encode rq) of
              (None, r) \<Rightarrow> redirect (dr\<lparr>dr_raft := r\<rparr>)
            | (Some i, r) \<Rightarrow> metric (\<lambda>m. m\<lparr>nm_proposals := nm_proposals m + 1\<rparr>)
                (dr\<lparr>dr_raft := r, dr_writes := (dr_writes dr)(i \<mapsto> (from, rq))\<rparr>))
      in case rq_op rq of
           Get _ Stale \<Rightarrow> answer (metric (\<lambda>m. m\<lparr>nm_reads_stale := nm_reads_stale m + 1\<rparr>) dr)
         | GetAt _ _ \<Rightarrow> answer dr
         | op \<Rightarrow>
             if rf_role (dr_raft dr) \<noteq> Leader
             then redirect (metric (\<lambda>m. m\<lparr>nm_not_leader_redirects := nm_not_leader_redirects m + 1\<rparr>) dr)
             else (case op of
               Get _ mode \<Rightarrow>
                 if mode = Lease \<and> lease_valid (dr_raft dr)
                 then answer (metric (\<lambda>m. m\<lparr>nm_reads_lease := nm_reads_lease m + 1\<rparr>) dr)
                 else confirm (metric (\<lambda>m. m\<lparr>nm_reads_linearizable := nm_reads_linearizable m + 1\<rparr>) dr)
             | _ \<Rightarrow> write dr))"

definition handle_admin :: "node_id \<Rightarrow> config_change \<Rightarrow> driver \<Rightarrow> driver" where
  "handle_admin from change dr =
     (let dr = metric (\<lambda>m. m\<lparr>nm_config_changes_proposed := nm_config_changes_proposed m + 1\<rparr>) dr in
      if rf_role (dr_raft dr) \<noteq> Leader
      then net_send from (AdminReply (AdminNotLeader (rf_leader (dr_raft dr)))) dr
      else case propose_config (dr_raft dr) change of
          (Some i, r) \<Rightarrow> net_send from (AdminReply (Accepted i)) (dr\<lparr>dr_raft := r\<rparr>)
        | (None, r) \<Rightarrow> net_send from (AdminReply Rejected) (dr\<lparr>dr_raft := r\<rparr>))"

definition handle_event :: "driver \<Rightarrow> driver_event \<Rightarrow> driver" where
  "handle_event dr ev = (case ev of
       EvTick rnd \<Rightarrow>
         let before = rf_role (dr_raft dr); dr = dr\<lparr>dr_raft := tick (dr_raft dr) rnd\<rparr> in
         if before = Follower \<and> rf_role (dr_raft dr) \<noteq> Follower
         then metric (\<lambda>m. m\<lparr>nm_elections_started := nm_elections_started m + 1\<rparr>) dr else dr
     | EvWire from m \<Rightarrow> dr\<lparr>dr_raft := step (dr_raft dr) from m\<rparr>
     | EvAdmin from change \<Rightarrow> handle_admin from change dr
     | EvClient from rq \<Rightarrow> handle_client from rq (metric (\<lambda>m. m\<lparr>nm_client_requests := nm_client_requests m + 1\<rparr>) dr))"

text \<open>The first event waits; whatever else is queued joins the batch, up to 4096 events.\<close>

fun drain :: "nat \<Rightarrow> driver_event list \<Rightarrow> driver_event chan \<Rightarrow> driver_event list \<times> driver_event chan" where
  "drain 0 batch c = (batch, c)"
| "drain (Suc k) batch c = (case chan_try_recv c of
       (None, c) \<Rightarrow> (batch, c)
     | (Some ev, c) \<Rightarrow> drain k (batch @ [ev]) c)"

definition next_batch :: "driver_event chan \<Rightarrow> driver_event list option \<times> driver_event chan" where
  "next_batch c = (case chan_try_recv c of
       (None, c) \<Rightarrow> (None, c)
     | (Some ev, c) \<Rightarrow> (case drain 4095 [ev] c of (batch, c) \<Rightarrow> (Some batch, c)))"

text \<open>A node that lost leadership tells the clients it was working for to look elsewhere.\<close>

definition leadership_change :: "driver \<Rightarrow> driver" where
  "leadership_change dr =
     (let is_leader = (rf_role (dr_raft dr) = Leader);
          out = NotLeader (rf_leader (dr_raft dr));
          gained = is_leader \<and> \<not> dr_was_leader dr;
          lost_it = \<not> is_leader \<and> dr_was_leader dr;
          dr = (if gained then metric (\<lambda>m. m\<lparr>nm_leadership_gained := nm_leadership_gained m + 1\<rparr>) dr else dr);
          dr = (if lost_it then
                  let dr = metric (\<lambda>m. m\<lparr>nm_leadership_lost := nm_leadership_lost m + 1\<rparr>) dr;
                      ws = map (\<lambda>i. the (dr_writes dr i)) (sorted_list_of_set (dom (dr_writes dr)));
                      rs = concat (map (\<lambda>c. the (dr_reads dr c)) (sorted_list_of_set (dom (dr_reads dr))))
                  in foldl (\<lambda>dr (client, rq). reply client rq out dr)
                       (dr\<lparr>dr_writes := Map.empty, dr_reads := Map.empty\<rparr>) (ws @ rs)
                else dr)
      in dr\<lparr>dr_was_leader := is_leader\<rparr>)"

subsection \<open>Storage\<close>

definition on_storage :: "(wal_disk, 'a) io \<Rightarrow> (driver, 'a) io" where
  "on_storage m = (\<lambda>dr. case m (dr_disk dr) of (x, s) \<Rightarrow> (x, dr\<lparr>dr_disk := s\<rparr>))"

definition on_driver :: "(driver \<Rightarrow> driver) \<Rightarrow> (driver, unit) io" where
  "on_driver f = (\<lambda>dr. (Inr (), f dr))"

definition io_when :: "'b option \<Rightarrow> ('b \<Rightarrow> ('s, unit) io) \<Rightarrow> ('s, unit) io" where
  "io_when x f = (case x of None \<Rightarrow> io_return () | Some y \<Rightarrow> f y)"

definition count_batch :: "entry list \<Rightarrow> driver \<Rightarrow> driver" where
  "count_batch es = metric (\<lambda>m. m\<lparr>nm_batched_entries := nm_batched_entries m + word_of_nat (length es),
     nm_batches := nm_batches m + 1\<rparr>)"

definition persist :: "nat option \<Rightarrow> ready \<Rightarrow> index option \<Rightarrow> (driver, unit) io" where
  "persist quota rd tail_from =
     io_bind (io_when tail_from (\<lambda>from. on_storage (wal_truncate_from from))) (\<lambda>_.
     if \<not> needs_durability rd then io_return ()
     else
       io_bind (io_when (rdy_snapshot rd) (\<lambda>snap.
         io_bind (on_storage (save_snapshot quota snap)) (\<lambda>_.
         io_bind (on_driver (\<lambda>dr. case kv_restore (sn_data snap) of Inr kv \<Rightarrow> dr\<lparr>dr_kv := kv\<rparr> | Inl _ \<Rightarrow> dr)) (\<lambda>_.
         io_bind (on_storage (reset_to (sn_last_index snap))) (\<lambda>_.
         on_driver (metric (\<lambda>m. m\<lparr>nm_snapshots_installed := nm_snapshots_installed m + 1\<rparr>))))))) (\<lambda>_.
       io_bind (io_when (rdy_hard_state rd) (\<lambda>hs. on_storage (save_hard_state quota hs))) (\<lambda>_.
       io_bind (if rdy_entries rd = [] then io_return ()
                else io_bind (on_storage (wal_append quota (rdy_entries rd))) (\<lambda>_. on_driver (count_batch (rdy_entries rd)))) (\<lambda>_.
       io_bind (on_storage wal_sync) (\<lambda>_.
       on_driver (metric (\<lambda>m. m\<lparr>nm_fsyncs := nm_fsyncs m + 1\<rparr>)))))))"

definition reconcile :: "nat option \<Rightarrow> (driver, unit) io" where
  "reconcile quota = (\<lambda>dr.
     let log = rf_log (dr_raft dr); first = first_index log; last = last_index log;
         have = wal_last_index (fst (dr_disk dr))
     in if have = last \<and> have + 1 \<ge> first then (Inr (), dr)
        else io_bind (if have > last \<or> have + 1 < first then on_storage (reset_to (sat_sub first 1)) else io_return ()) (\<lambda>_. \<lambda>dr.
          let missing = entries_from log (wal_last_index (fst (dr_disk dr)) + 1)
          in if missing = [] then (Inr (), dr)
             else io_bind (on_storage (wal_append quota missing)) (\<lambda>_.
                  io_bind (on_driver (count_batch missing)) (\<lambda>_.
                  io_bind (on_storage wal_sync) (\<lambda>_.
                  on_driver (metric (\<lambda>m. m\<lparr>nm_fsyncs := nm_fsyncs m + 1\<rparr>))))) dr) dr)"

text \<open>Both places that compact write the snapshot first and are best effort.\<close>

definition compact_at :: "nat option \<Rightarrow> snapshot \<Rightarrow> driver \<Rightarrow> driver" where
  "compact_at quota snap dr =
     (case on_storage (save_snapshot quota snap) dr of
        (Inl _, dr) \<Rightarrow> dr
      | (Inr _, dr) \<Rightarrow>
          let dr = dr\<lparr>dr_raft := compact (dr_raft dr) snap\<rparr> in
          (case on_storage (wal_compact_through (sn_last_index snap)) dr of
             (Inl _, dr) \<Rightarrow> dr
           | (Inr _, dr) \<Rightarrow> metric (\<lambda>m. m\<lparr>nm_snapshots_taken := nm_snapshots_taken m + 1\<rparr>) dr))"

definition free_space :: "nat option \<Rightarrow> driver \<Rightarrow> driver" where
  "free_space quota dr = (case snapshot_at_applied (dr_raft dr) (kv_snapshot (dr_kv dr)) of
       None \<Rightarrow> dr
     | Some snap \<Rightarrow>
         if safe_to_compact snap (dr_raft dr) (fst (dr_disk dr)) then compact_at quota snap dr else dr)"

definition disk_full :: "nat option \<Rightarrow> driver \<Rightarrow> driver" where
  "disk_full quota dr =
     (let dr = metric (\<lambda>m. m\<lparr>nm_enospc := nm_enospc m + 1\<rparr>) dr
      in free_space quota (dr\<lparr>dr_raft := step_down (dr_raft dr)\<rparr>))"

subsection \<open>The Ready cycle\<close>

definition apply_entry :: "driver \<Rightarrow> entry \<Rightarrow> driver" where
  "apply_entry dr e =
     (let dr = metric (\<lambda>m. m\<lparr>nm_commits := nm_commits m + 1\<rparr>) dr;
          dr = dr\<lparr>dr_digest := digest_feed (dr_digest dr) e\<rparr>
      in case e_kind e of
           Noop \<Rightarrow> dr
         | Config _ \<Rightarrow> metric (\<lambda>m. m\<lparr>nm_config_changes_applied := nm_config_changes_applied m + 1\<rparr>) dr
         | Normal data \<Rightarrow>
             (case request_decode data of
                Inl _ \<Rightarrow> dr
              | Inr rq \<Rightarrow>
                  let (out, kv) = kv_apply (dr_kv dr) (e_index e) rq;
                      dr = metric (\<lambda>m. m\<lparr>nm_applies := nm_applies m + 1\<rparr>) (dr\<lparr>dr_kv := kv\<rparr>)
                  in (case dr_writes dr (e_index e) of
                        None \<Rightarrow> dr
                      | Some (client, original) \<Rightarrow>
                          let dr = dr\<lparr>dr_writes := (dr_writes dr)(e_index e := None)\<rparr> in
                          if rq_client_id original = rq_client_id rq \<and> rq_seq original = rq_seq rq
                          then reply client original out dr
                          else reply client original (NotLeader None) dr)))"

definition apply_committed :: "ready \<Rightarrow> driver \<Rightarrow> driver" where
  "apply_committed rd dr = foldl apply_entry dr (rdy_committed rd)"

definition serve_confirmed :: "driver \<Rightarrow> read_state \<Rightarrow> driver" where
  "serve_confirmed dr rd = (case dr_reads dr (rd_ctx rd) of
       None \<Rightarrow> dr
     | Some waiting \<Rightarrow>
         foldl (\<lambda>dr (client, rq). reply client rq (serve_read (dr_kv dr) rq) dr)
           (dr\<lparr>dr_reads := (dr_reads dr)(rd_ctx rd := None)\<rparr>) waiting)"

definition housekeeping :: "nat option \<Rightarrow> driver \<Rightarrow> driver" where
  "housekeeping quota dr =
     (let dr = (if rf_role (dr_raft dr) = Leader then
                  let dr = dr\<lparr>dr_raft := snd (maybe_finish_config_change (dr_raft dr))\<rparr>;
                      needy = followers_needing_snapshot (dr_raft dr)
                  in if needy = [] then dr
                     else (case snapshot_at_applied (dr_raft dr) (kv_snapshot (dr_kv dr)) of
                         None \<Rightarrow> dr
                       | Some snap \<Rightarrow> dr\<lparr>dr_raft := foldl (\<lambda>r peer. send_snapshot r peer snap) (dr_raft dr) needy\<rparr>)
                else dr)
      in if should_snapshot (dr_raft dr) then
           (case snapshot_at_applied (dr_raft dr) (kv_snapshot (dr_kv dr)) of
              None \<Rightarrow> dr
            | Some snap \<Rightarrow>
                if safe_to_compact snap (dr_raft dr) (fst (dr_disk dr)) then compact_at quota snap dr else dr)
         else dr)"

definition send_ready :: "ready \<Rightarrow> driver \<Rightarrow> driver" where
  "send_ready rd dr = foldl (\<lambda>dr (to, m). net_send to (Raft m) dr) dr (rdy_messages rd)"

text \<open>After the writes succeeded: only now may anything be sent.\<close>

definition after_writes :: "nat option \<Rightarrow> ready \<Rightarrow> driver \<Rightarrow> driver" where
  "after_writes quota rd dr =
     (let dr = dr\<lparr>dr_raft := set_persisted (dr_raft dr) (wal_last_index (fst (dr_disk dr)))\<rparr>;
          dr = send_ready rd dr;
          dr = apply_committed rd dr;
          dr = foldl serve_confirmed dr (rdy_reads rd);
          dr = dr\<lparr>dr_raft := advance (dr_raft dr) rd\<rparr>
      in housekeeping quota dr)"

definition ready_cycle :: "nat option \<Rightarrow> bool \<Rightarrow> (driver, unit) io" where
  "ready_cycle quota inspect = (\<lambda>dr.
     let tail_from = truncate_to (dr_raft dr);
         (rd, r) = take_ready (dr_raft dr);
         dr = dr\<lparr>dr_raft := r\<rparr>
     in case persist quota rd tail_from dr of
          (Inl e, dr) \<Rightarrow> if is_enospc e then (Inr (), disk_full quota dr) else (Inl e, dr)
        | (Inr _, dr) \<Rightarrow>
            (case reconcile quota dr of
               (Inl e, dr) \<Rightarrow> if is_enospc e then (Inr (), disk_full quota dr) else (Inl e, dr)
             | (Inr _, dr) \<Rightarrow> (Inr (), publish inspect (after_writes quota rd dr))))"

definition driver_cycle :: "nat option \<Rightarrow> bool \<Rightarrow> driver_event list \<Rightarrow> (driver, unit) io" where
  "driver_cycle quota inspect batch = (\<lambda>dr.
     ready_cycle quota inspect (leadership_change (foldl handle_event dr batch)))"

definition driver_start :: "node_id \<Rightarrow> node_options \<Rightarrow> node_disk \<Rightarrow> (io_error + driver) \<times> node_disk" where
  "driver_start node opts d = (case wal_open (no_wal opts) d of
       (Inl e, d) \<Rightarrow> (Inl e, d)
     | (Inr rc, d) \<Rightarrow>
         let kv = (case rc_snapshot rc of
               None \<Rightarrow> kv_new
             | Some s \<Rightarrow> (case kv_restore (sn_data s) of Inr kv \<Rightarrow> kv | Inl _ \<Rightarrow> kv_new))
         in (Inr \<lparr>dr_raft = raft_restore node (no_raft opts) (rc_hard_state rc) (rc_snapshot rc) (rc_entries rc) (no_bootstrap opts),
                  dr_kv = kv, dr_disk = (rc_wal rc, d), dr_writes = Map.empty, dr_reads = Map.empty,
                  dr_was_leader = False, dr_digest = [], dr_metrics = metrics_zero,
                  dr_public = public_default\<lparr>ps_node := node, ps_role := ''follower''\<rparr>, dr_sent = []\<rparr>, d))"

end
