(* ===== verification/Raft_Track.thy ===== *)
theory Raft_Track
  imports Raft_Core Wal_Ops
begin

section \<open>What the state machine owes to the durable log\<close>

text \<open>
  The watermark \<open>dirty_from\<close> says from which index on the log in memory may differ from the log
  on disk. This theory shows that every input of the state machine keeps that promise: below the
  watermark the two logs agree, whatever ticks, messages and proposals arrive, and the snapshot,
  applied, committed and last indices stay in order.
\<close>

subsection \<open>Steps that leave the log alone\<close>

definition quiet :: "raft \<Rightarrow> raft \<Rightarrow> bool" where
  "quiet r r' \<longleftrightarrow> rf_log r' = rf_log r \<and> rf_dirty_from r' = rf_dirty_from r \<and>
     rdy_snapshot (rf_pending r') = rdy_snapshot (rf_pending r) \<and> rdy_entries (rf_pending r') = rdy_entries (rf_pending r) \<and>
     rdy_committed (rf_pending r') = rdy_committed (rf_pending r) \<and> rf_applied r' = rf_applied r \<and> rf_commit r \<le> rf_commit r' \<and>
     (log_wf (rf_log r) \<and> rf_commit r \<le> last_index (rf_log r) \<longrightarrow> rf_commit r' \<le> last_index (rf_log r))"

lemma quiet_refl [simp]: "quiet r r"
  by (simp add: quiet_def)

lemma quiet_trans [trans]: "quiet r r' \<Longrightarrow> quiet r' r'' \<Longrightarrow> quiet r r''"
  by (auto simp: quiet_def)

lemma quiet_foldl: "(\<And>r x. quiet r (f r x)) \<Longrightarrow> quiet r (foldl f r xs)"
proof (induction xs arbitrary: r)
  case (Cons x xs)
  then show ?case using quiet_trans [of r "f r x"] by simp
qed simp

lemma quiet_If: "quiet r x \<Longrightarrow> quiet r y \<Longrightarrow> quiet r (if c then x else y)"
  by simp

lemma quiet_log: "quiet r r' \<Longrightarrow> rf_log r' = rf_log r"
  by (simp add: quiet_def)

lemma quiet_push: "quiet r (push_message r to m)"
  by (simp add: quiet_def push_message_def)

lemma quiet_send: "quiet r (send r to b)"
  by (simp add: send_def quiet_push)

lemma quiet_send_append: "quiet r (send_append_to r peer)"
  using quiet_send [of r peer] by (auto simp: send_append_to_def Let_def quiet_def split: option.split)

lemma quiet_broadcast: "quiet r (broadcast_append r)"
  unfolding broadcast_append_def by (rule quiet_foldl) (simp add: quiet_send_append)

lemma quiet_commit: "quiet r (maybe_advance_commit r)"
  using term_at_last by (auto simp: maybe_advance_commit_def Let_def quiet_def)

lemma quiet_reset: "quiet r (reset_progress_for_config r)"
  by (simp add: reset_progress_for_config_def Let_def quiet_def)

lemma quiet_follower: "quiet r (become_follower r t l)"
  by (simp add: become_follower_def Let_def quiet_def)

lemma quiet_campaign_begin: "quiet r (campaign_begin r)"
  by (simp add: campaign_begin_def stir_def Let_def quiet_def)

lemma quiet_expire: "quiet r (expire_pending_snapshots r)"
proof -
  let ?t = "max (o_election_ticks (rf_opts r)) 1"
  let ?r = "r\<lparr>rf_progress := map_option (age_snapshot ?t) \<circ> rf_progress r\<rparr>"
  have "quiet r ?r" by (simp add: quiet_def)
  moreover have "quiet ?r (foldl send_append_to ?r xs)" for xs by (rule quiet_foldl) (rule quiet_send_append)
  ultimately show ?thesis unfolding expire_pending_snapshots_def Let_def by (rule quiet_trans)
qed

lemma quiet_check_quorum: "quiet r (check_quorum r)"
proof -
  let ?r = "r\<lparr>rf_progress := map_option (\<lambda>p. p\<lparr>p_active := False\<rparr>) \<circ> rf_progress r\<rparr>"
  have "quiet r ?r" by (simp add: quiet_def)
  then show ?thesis
    using quiet_trans [OF _ quiet_follower, of r ?r] by (simp add: check_quorum_def Let_def) (simp add: quiet_def)
qed

lemma quiet_defer: "quiet r (defer_to r from)"
  using quiet_follower [of r "rf_term r" "Some from"] by (auto simp: defer_to_def Let_def quiet_def)

lemma quiet_read_index: "quiet r (snd (read_index r))"
proof -
  have q: "quiet r (r\<lparr>rf_read_ctx := c, rf_pending_reads := ps\<rparr>)" for c ps by (simp add: quiet_def)
  have f: "quiet r (foldl (\<lambda>r peer. if peer \<noteq> rf_id r then
      let matched = (case rf_progress r peer of Some p \<Rightarrow> p_matched p | None \<Rightarrow> 0)
      in send r peer (HeartbeatReq (min (rf_commit r) matched) ctx) else r) r xs)" for r ctx xs
    by (rule quiet_foldl) (simp add: quiet_send Let_def)
  have p: "quiet r (r\<lparr>rf_read_ctx := c, rf_pending := (rf_pending r)\<lparr>rdy_reads := rs\<rparr>\<rparr>)" for c rs by (simp add: quiet_def)
  show ?thesis unfolding read_index_def Let_def using p quiet_trans [OF q f [unfolded Let_def]] by simp
qed

lemma quiet_transfer: "quiet r (snd (transfer_leadership r t))"
  by (simp add: transfer_leadership_def quiet_send)

lemma quiet_send_snapshot: "quiet r (send_snapshot r peer snap)"
proof -
  have "quiet r (case rf_progress r peer of None \<Rightarrow> r
      | Some p \<Rightarrow> r\<lparr>rf_progress := (rf_progress r)(peer \<mapsto> p\<lparr>p_pending_snapshot := sn_last_index snap,
          p_pending_snapshot_age := 0, p_state := Snapshotting\<rparr>)\<rparr>)"
    by (simp add: quiet_def split: option.split)
  then show ?thesis unfolding send_snapshot_def Let_def using quiet_send by (rule quiet_trans)
qed

lemma quiet_append_resp: "quiet r (handle_append_resp r from ok mi ci ct)"
proof -
  have q: "quiet r (r\<lparr>rf_progress := pr\<rparr>)" for pr by (simp add: quiet_def)
  note c = quiet_trans [OF q quiet_commit] and s = quiet_trans [OF q quiet_send_append]
  show ?thesis unfolding handle_append_resp_def Let_def
    by (auto intro: c s quiet_trans [OF c quiet_send_append] split: option.split)
qed

lemma quiet_snapshot_resp: "quiet r (handle_snapshot_resp r from ok i)"
proof -
  have q: "quiet r (r\<lparr>rf_progress := pr\<rparr>)" for pr by (simp add: quiet_def)
  show ?thesis unfolding handle_snapshot_resp_def Let_def
    by (auto intro: q quiet_trans [OF q quiet_commit] split: option.split)
qed

lemma quiet_heartbeat: "quiet r (handle_heartbeat r from c ctx)"
proof -
  let ?d = "defer_to r from"
  let ?r = "if min c (last_index (rf_log ?d)) > rf_commit ?d
    then ?d\<lparr>rf_commit := min c (last_index (rf_log ?d)), rf_hard_state_dirty := True\<rparr> else ?d"
  have "quiet ?d ?r" by (auto simp: quiet_def)
  then show ?thesis unfolding handle_heartbeat_def Let_def
    using quiet_trans [OF quiet_defer quiet_trans [OF _ quiet_send]] by blast
qed

lemma quiet_heartbeat_resp: "quiet r (handle_heartbeat_resp r from ctx)"
  by (auto simp: handle_heartbeat_resp_def Let_def quiet_def split: option.split)

lemma quiet_votes: "quiet r (handle_pre_vote_req r from pt li lt)" "quiet r (handle_vote_req r from li lt)" "quiet r (step_stale r from b)"
proof -
  show "quiet r (handle_pre_vote_req r from pt li lt)" by (simp add: handle_pre_vote_req_def Let_def quiet_push)
  have "quiet r (if g then r\<lparr>rf_vote := v, rf_hard_state_dirty := True, rf_election_elapsed := 0\<rparr> else r)" for g v
    by (simp add: quiet_def)
  then show "quiet r (handle_vote_req r from li lt)" unfolding handle_vote_req_def Let_def using quiet_send by (rule quiet_trans)
  show "quiet r (step_stale r from b)" by (auto simp: step_stale_def quiet_send split: body.split)
qed

lemmas quiet_intros = quiet_push quiet_send quiet_send_append quiet_broadcast quiet_commit quiet_reset quiet_follower
  quiet_campaign_begin quiet_expire quiet_check_quorum quiet_defer quiet_read_index quiet_transfer quiet_send_snapshot
  quiet_append_resp quiet_snapshot_resp quiet_heartbeat quiet_heartbeat_resp quiet_votes

subsection \<open>The promise\<close>

text \<open>
  \<open>W\<close> is what the durable log holds at an index and \<open>wl\<close> its last index. While a snapshot waits
  to be installed on disk the durable log is about to be replaced, so nothing is promised of it.
\<close>

definition clean_to :: "raft \<Rightarrow> nat" where
  "clean_to r = (case rf_dirty_from r of None \<Rightarrow> unat (last_index (rf_log r)) + 1 | Some f \<Rightarrow> unat f)"

definition indices_ok :: "raft \<Rightarrow> bool" where
  "indices_ok r \<longleftrightarrow> log_wf (rf_log r) \<and> rdy_entries (rf_pending r) = [] \<and> rdy_committed (rf_pending r) = [] \<and> list_all rec_ok (l_entries (rf_log r)) \<and>
     l_snapshot_index (rf_log r) \<le> rf_applied r \<and> rf_applied r \<le> rf_commit r \<and> rf_commit r \<le> last_index (rf_log r) \<and>
     unat (l_snapshot_index (rf_log r)) < clean_to r \<and> clean_to r \<le> unat (last_index (rf_log r)) + 1"

definition in_sync :: "(index \<Rightarrow> entry option) \<Rightarrow> index \<Rightarrow> raft \<Rightarrow> bool" where
  "in_sync W wl r \<longleftrightarrow> (case rdy_snapshot (rf_pending r) of
       None \<Rightarrow> clean_to r \<le> unat wl + 1 \<and> (rf_dirty_from r = None \<longrightarrow> wl = last_index (rf_log r)) \<and>
         (\<forall>i. l_snapshot_index (rf_log r) < i \<and> unat i < clean_to r \<longrightarrow> W i = log_get (rf_log r) i)
     | Some s \<Rightarrow> sn_last_index s = l_snapshot_index (rf_log r) \<and> clean_to r = unat (l_snapshot_index (rf_log r)) + 1)"

definition tracked :: "(index \<Rightarrow> entry option) \<Rightarrow> index \<Rightarrow> raft \<Rightarrow> bool" where
  "tracked W wl r \<longleftrightarrow> indices_ok r \<and> in_sync W wl r"

definition room :: "raft \<Rightarrow> bool" where
  "room r \<longleftrightarrow> unat (last_index (rf_log r)) + 2 < 2 ^ 64"

lemma tracked_quiet:
  assumes "tracked W wl r" and "quiet r r'"
  shows "tracked W wl r'"
proof -
  have "clean_to r' = clean_to r" using assms(2) by (simp add: clean_to_def quiet_def cong: option.case_cong)
  then show ?thesis using assms unfolding tracked_def indices_ok_def in_sync_def quiet_def by (auto split: option.splits)
qed

lemma room_quiet: "room r \<Longrightarrow> quiet r r' \<Longrightarrow> room r'"
  by (simp add: room_def quiet_def)

text \<open>A new entry at the end of the log.\<close>

lemma tracked_own_append:
  assumes t: "tracked W wl r" and "room r" and e: "e_index e = last_index (rf_log r) + 1" "rec_ok e"
  shows "tracked W wl (append_to_own_log r [e])"
proof -
  let ?l = "rf_log r" and ?r = "append_to_own_log r [e]"
  have wf: "log_wf ?l" and ok: "list_all rec_ok (l_entries ?l)" using t by (auto simp: tracked_def indices_ok_def)
  have one: "unat (last_index ?l + 1) = unat (last_index ?l) + 1"
    using assms(2) unat_plus_nat [of "last_index ?l" 1] by (simp add: room_def)
  have wf': "log_wf (log_append ?l [e])"
    using wf e(1) assms(2) by (intro log_append_wf) (simp_all add: fits_def room_def)
  have last: "last_index (log_append ?l [e]) = last_index ?l + 1" using e(1) by (simp add: last_index_def log_append_def)
  have r: "rf_log ?r = log_append ?l [e]" "rf_applied ?r = rf_applied r" "rf_commit ?r = rf_commit r" "rf_pending ?r = rf_pending r"
    "rf_dirty_from ?r \<noteq> None" and clean: "clean_to ?r = clean_to r"
    using t e(1) one by (auto simp: append_to_own_log_def mark_dirty_def tracked_def indices_ok_def clean_to_def
        min_def word_le_nat_alt split: option.splits)
  have get: "log_get (log_append ?l [e]) i = log_get ?l i" if "unat i \<le> unat (last_index ?l)" for i
    using that log_get_eq [OF wf, of i] log_get_eq [OF wf', of i] last_index_eq(2) [OF wf]
    by (auto simp: log_append_def nth_append)
  have snap: "l_snapshot_index (log_append ?l [e]) = l_snapshot_index ?l" by (simp add: log_append_def)
  have "rf_commit r \<le> last_index ?l + 1" using t one by (simp add: tracked_def indices_ok_def word_le_nat_alt)
  then have "indices_ok ?r" using t wf' ok e(2) one
    by (simp add: tracked_def indices_ok_def r clean last snap) (simp add: log_append_def)
  moreover have "in_sync W wl ?r"
    using t get r(5) unfolding tracked_def in_sync_def r clean snap indices_ok_def by (auto split: option.splits)
  ultimately show ?thesis by (simp add: tracked_def)
qed

text \<open>A request of the leader. It never contradicts a committed entry.\<close>

definition append_ok :: "raft \<Rightarrow> index \<Rightarrow> entry list \<Rightarrow> bool" where
  "append_ok r p es \<longleftrightarrow> contiguous p es \<and> fits p (length es) \<and> list_all rec_ok es \<and>
     (\<forall>e \<in> set es. e_index e \<le> rf_commit r \<longrightarrow> term_at (rf_log r) (e_index e) = Some (e_term e))"

lemma merge_loop_entries: "merge_pre l p es \<Longrightarrow> set (l_entries (merge_loop l es)) \<subseteq> set (l_entries l) \<union> set es"
  by (erule merge_loop_cut) (auto dest: in_set_takeD in_set_dropD)

lemma matching_committed:
  assumes "contiguous p es" and "fits p (length es)" and "matching l es < length es"
    and "\<forall>e \<in> set es. e_index e \<le> c \<longrightarrow> term_at l (e_index e) = Some (e_term e)"
  shows "unat c \<le> unat p + matching l es"
proof -
  let ?k = "matching l es"
  have "term_at l (e_index (es ! ?k)) \<noteq> Some (e_term (es ! ?k))"
    using assms(3) unfolding matching_def by (rule nth_length_takeWhile)
  then have "c < e_index (es ! ?k)" using assms(3,4) by (meson not_le nth_mem)
  moreover have "e_index (es ! ?k) = p + word_of_nat (Suc ?k)" using contiguous_nth [OF assms(1,3)] by simp
  ultimately show ?thesis
    using assms(2,3) unat_plus_nat [of p "Suc ?k"] by (simp add: fits_def word_less_nat_alt)
qed

lemma merge_keeps_committed:
  assumes pre: "merge_pre l p es" and agree: "\<forall>e \<in> set es. e_index e \<le> c \<longrightarrow> term_at l (e_index e) = Some (e_term e)"
    and "c \<le> last_index l"
  shows "c \<le> last_index (merge_loop l es)"
  using pre
proof (cases rule: merge_loop_cut)
  case (2 k)
  note p = merge_preD [OF pre]
  have "unat c \<le> unat p + k" using matching_committed [OF p(2,3) _ agree] 2(1,2) by simp
  moreover have "unat (last_index (merge_loop l es)) = unat p + length es"
    using last_index_eq(2) [OF merge_loop_wf [OF pre]] 2 p(4) by simp
  ultimately show ?thesis using 2(1) by (simp add: word_le_nat_alt)
qed (use assms(3) in simp)

lemma unat_last_ge: "log_wf l \<Longrightarrow> unat (l_snapshot_index l) \<le> unat (last_index l)"
  using last_index_eq(2) [of l] by simp

lemma tracked_merge:
  assumes t: "tracked W wl r" and pre: "merge_pre (rf_log r) p (e # es)" and ok: "append_ok r p (e # es)"
  shows "tracked W wl (mark_dirty (r\<lparr>rf_log := merge_loop (rf_log r) (e # es)\<rparr>) (e_index e))" (is "tracked W wl ?r")
proof -
  let ?l = "rf_log r" and ?m = "merge_loop (rf_log r) (e # es)"
  note wf = merge_loop_wf [OF pre] and q = merge_preD [OF pre]
  have e: "unat (e_index e) = unat p + 1" using q(2,3) fits_Suc [of p "length es"] by simp
  have r: "rf_log ?r = ?m" "rf_applied ?r = rf_applied r" "rf_commit ?r = rf_commit r" "rf_pending ?r = rf_pending r"
    "rf_dirty_from ?r \<noteq> None" by (simp_all add: mark_dirty_def)
  have clean: "clean_to ?r = min (clean_to r) (unat p + 1)"
    using t e merge_last_le [OF pre] q(5) last_index_eq(2) [OF q(1)]
    by (auto simp: clean_to_def mark_dirty_def min_def word_le_nat_alt split: option.split)
  have snap: "l_snapshot_index ?m = l_snapshot_index ?l" by (rule merge_loop_snapshot)
  have com: "rf_commit r \<le> last_index ?m"
    using t ok unfolding tracked_def indices_ok_def append_ok_def by (intro merge_keeps_committed [OF pre]) blast+
  have "unat p + 1 \<le> unat (last_index ?m) + 1"
    using merge_last_le [OF pre] merge_last [OF pre] q(3) unat_plus_nat [of p "length (e # es)"]
    by (simp add: fits_def word_le_nat_alt)
  moreover have "list_all rec_ok (l_entries ?m)"
    using merge_loop_entries [OF pre] t ok by (auto simp: tracked_def indices_ok_def append_ok_def list_all_iff)
  ultimately have "indices_ok ?r" using t wf com q(4) unfolding tracked_def indices_ok_def r clean snap by auto
  moreover have "log_get ?m i = log_get ?l i" if "unat i < unat p + 1" for i
    using that by (intro merge_loop_below [OF pre]) simp
  then have "in_sync W wl ?r" using t r(5) q(4) unfolding tracked_def in_sync_def r clean snap by (auto split: option.splits)
  ultimately show ?thesis by (simp add: tracked_def)
qed

lemma quiet_raise:
  assumes "rf_commit r \<le> last_index (rf_log r)" and "n \<le> last_index (rf_log r)"
  shows "quiet r (let r = (if n > rf_commit r then r\<lparr>rf_commit := n, rf_hard_state_dirty := True\<rparr> else r);
    r = (if rf_commit r > last_index (rf_log r) then r\<lparr>rf_commit := last_index (rf_log r), rf_hard_state_dirty := True\<rparr> else r)
    in send r to b)"
proof -
  let ?r = "if n > rf_commit r then r\<lparr>rf_commit := n, rf_hard_state_dirty := True\<rparr> else r"
  have "\<not> rf_commit ?r > last_index (rf_log ?r)" using assms by (simp add: not_less)
  moreover have "quiet r (send ?r to b)" using assms(2) by (intro quiet_trans [OF _ quiet_send]) (auto simp: quiet_def)
  ultimately show ?thesis unfolding Let_def by (simp only: if_False)
qed

lemma defer_to_commit: "rf_commit (defer_to r from) = rf_commit r"
  by (simp add: defer_to_def become_follower_def Let_def)

lemma tracked_append:
  assumes t: "tracked W wl r" and ok: "append_ok r p es"
  shows "tracked W wl (handle_append r from p pt es lc)"
proof -
  let ?d = "defer_to r from" and ?l = "rf_log r"
  have td: "tracked W wl ?d" using t quiet_defer by (rule tracked_quiet)
  have d: "rf_log ?d = ?l" using quiet_log [OF quiet_defer] .
  have s: "tracked W wl (send ?d from b)" for b using td quiet_send by (rule tracked_quiet)
  show ?thesis
  proof (cases "p < l_snapshot_index ?l \<or> term_at ?l p \<noteq> Some pt")
    case True
    then show ?thesis using s unfolding handle_append_def Let_def d by (auto split: option.split)
  next
    case False
    then have p: "l_snapshot_index ?l \<le> p" "term_at ?l p = Some pt" by auto
    have wf: "log_wf ?l" using t by (simp add: tracked_def indices_ok_def)
    then have pre: "merge_pre ?l p es" using ok p term_at_last [OF wf p(2)] by (simp add: merge_pre_def append_ok_def)
    let ?r1 = "case es of [] \<Rightarrow> ?d\<lparr>rf_log := merge_loop ?l es\<rparr> | e # _ \<Rightarrow> mark_dirty (?d\<lparr>rf_log := merge_loop ?l es\<rparr>) (e_index e)"
    have t1: "tracked W wl ?r1"
    proof (cases es)
      case Nil
      then have "?r1 = ?d" using d by simp
      then show ?thesis using td by (simp only:)
    next
      case (Cons e es')
      have "append_ok ?d p es" using ok d by (simp add: append_ok_def defer_to_commit)
      then show ?thesis using tracked_merge [OF td, of p e es'] pre Cons d by simp
    qed
    have r1: "rf_log ?r1 = merge_loop ?l es" by (simp add: mark_dirty_def split: list.split)
    have "rf_commit ?r1 \<le> last_index (merge_loop ?l es)" using t1 by (simp add: tracked_def indices_ok_def r1)
    moreover have "min lc (fst (log_merge ?l p es)) \<le> last_index (merge_loop ?l es)"
      using merge_last_le [OF pre] by (simp add: min.coboundedI2)
    moreover have "handle_append r from p pt es lc = (let r = ?r1; new_commit = min lc (fst (log_merge ?l p es));
        r = (if new_commit > rf_commit r then r\<lparr>rf_commit := new_commit, rf_hard_state_dirty := True\<rparr> else r);
        r = (if rf_commit r > last_index (rf_log r) then r\<lparr>rf_commit := last_index (rf_log r), rf_hard_state_dirty := True\<rparr> else r)
        in send r from (AppendResp True (fst (log_merge ?l p es)) 0 0))"
      using p by (simp add: handle_append_def Let_def d case_prod_beta not_less)
    ultimately have "quiet ?r1 (handle_append r from p pt es lc)"
      using quiet_raise [of ?r1 "min lc (fst (log_merge ?l p es))"] by (simp only: r1 Let_def)
    with t1 show ?thesis by (rule tracked_quiet)
  qed
qed

lemma tracked_snapshot:
  assumes t: "tracked W wl r" and ok: "unat (sn_last_index snap) + 1 < 2 ^ 64"
  shows "tracked W wl (handle_snapshot r from snap)"
proof -
  let ?d = "defer_to r from" and ?i = "sn_last_index snap"
  have td: "tracked W wl ?d" using t quiet_defer by (rule tracked_quiet)
  show ?thesis
  proof (cases "?i \<le> rf_commit ?d")
    case True
    then show ?thesis using tracked_quiet [OF td quiet_send] by (simp add: handle_snapshot_def Let_def)
  next
    case False
    let ?l = "rf_log ?d" and ?n = "install_snapshot (rf_log ?d) snap"
    have wf: "log_wf ?l" and lt: "l_snapshot_index ?l < ?i" using td False by (auto simp: tracked_def indices_ok_def)
    note wf' = install_snapshot_wf [OF wf ok]
    have snap: "l_snapshot_index ?n = ?i"
      using lt term_at_last [OF wf, of ?i] by (auto simp: install_snapshot_def compact_through_entries [OF wf lt] min_def)
    have ents: "list_all rec_ok (l_entries ?n)"
      using td by (auto simp: tracked_def indices_ok_def install_snapshot_def compact_through_entries [OF wf lt] list_all_iff dest: in_set_dropD)
    let ?r = "?d\<lparr>rf_log := ?n, rf_commit := max (rf_commit ?d) ?i, rf_applied := ?i, rf_hard_state_dirty := True,
      rf_dirty_from := (if last_index ?n > ?i then Some (?i + 1) else None),
      rf_pending := (rf_pending ?d)\<lparr>rdy_entries := [], rdy_snapshot := Some snap\<rparr>\<rparr>"
    have le: "?i \<le> last_index ?n" using unat_last_ge [OF wf'] snap by (simp add: word_le_nat_alt)
    have "unat (?i + 1) = unat ?i + 1" using ok unat_plus_nat [of ?i 1] by simp
    then have clean: "clean_to ?r = unat ?i + 1" using le by (auto simp: clean_to_def)
    have "max (rf_commit ?d) ?i = ?i" using False by (intro max_absorb2) simp
    moreover have "rdy_committed (rf_pending ?d) = []" using td by (simp add: tracked_def indices_ok_def)
    ultimately have "indices_ok ?r" using wf' ents snap le clean by (simp add: indices_ok_def word_le_nat_alt)
    moreover have "in_sync W wl ?r" using snap clean by (simp add: in_sync_def)
    ultimately have "tracked W wl ?r" by (simp add: tracked_def)
    moreover have "handle_snapshot r from snap = send ?r from (SnapshotResp True ?i)"
      using False by (simp add: handle_snapshot_def Let_def)
    ultimately show ?thesis using tracked_quiet [OF _ quiet_send] by simp
  qed
qed

subsection \<open>Every input\<close>

lemma rec_ok_noop: "rec_ok \<lparr>e_term = t, e_index = i, e_kind = Noop\<rparr>"
  by (simp add: rec_ok_def entry_ok_def entry_to_bytes_eq MAX_RECORD_def)

lemma tracked_become_leader:
  assumes "tracked W wl r" and "room r"
  shows "tracked W wl (become_leader r)"
proof -
  let ?r = "r\<lparr>rf_role := Leader, rf_leader := Some (rf_id r), rf_heartbeat_elapsed := 0, rf_election_elapsed := 0,
    rf_quorum_contact_elapsed := 0, rf_committed_own_term := False, rf_pending_reads := []\<rparr>"
  let ?r = "reset_progress_for_config ?r"
  have q: "quiet r ?r" by (rule quiet_trans [OF _ quiet_reset]) (simp add: quiet_def)
  have "tracked W wl (append_to_own_log ?r [\<lparr>e_term = rf_term ?r, e_index = last_index (rf_log ?r) + 1, e_kind = Noop\<rparr>])"
    by (rule tracked_own_append [OF tracked_quiet [OF assms(1) q] room_quiet [OF assms(2) q]]) (simp_all add: rec_ok_noop)
  then show ?thesis unfolding become_leader_def Let_def using quiet_broadcast by (rule tracked_quiet)
qed

lemma tracked_campaign_vote:
  assumes "tracked W wl r" and "room r"
  shows "tracked W wl (campaign_vote r)"
proof -
  let ?b = "campaign_begin r"
  let ?r = "?b\<lparr>rf_role := Candidate, rf_term := rf_term ?b + 1, rf_vote := Some (rf_id ?b), rf_leader := None,
    rf_hard_state_dirty := True, rf_votes := (rf_votes ?b)(rf_id ?b \<mapsto> True)\<rparr>"
  have q: "quiet r ?r" by (rule quiet_trans [OF quiet_campaign_begin]) (simp add: quiet_def)
  note t = tracked_quiet [OF assms(1) q] and m = room_quiet [OF assms(2) q]
  have "quiet ?r (foldl (\<lambda>r peer. if peer \<noteq> rf_id r then send r peer (VoteReq li lt) else r) ?r xs)" for li lt xs
    by (rule quiet_foldl) (simp add: quiet_send)
  then show ?thesis unfolding campaign_vote_def Let_def
    using tracked_become_leader [OF t m] tracked_quiet [OF t] by (auto simp only: split: if_splits)
qed

lemma tracked_campaign:
  assumes "tracked W wl r" and "room r"
  shows "tracked W wl (campaign r pre)"
proof -
  let ?b = "campaign_begin r"
  let ?r = "?b\<lparr>rf_role := PreCandidate, rf_votes := (rf_votes ?b)(rf_id ?b \<mapsto> True)\<rparr>"
  have q: "quiet r ?r" by (rule quiet_trans [OF quiet_campaign_begin]) (simp add: quiet_def)
  note t = tracked_quiet [OF assms(1) q] and m = room_quiet [OF assms(2) q]
  have "quiet ?r (foldl (\<lambda>r peer. if peer \<noteq> rf_id r then push_message r peer (message_new pt (PreVoteReq li lt)) else r) ?r xs)" for pt li lt xs
    by (rule quiet_foldl) (simp add: quiet_push)
  then show ?thesis unfolding campaign_def Let_def
    using tracked_campaign_vote [OF t m] tracked_campaign_vote [OF assms] tracked_quiet [OF t] by (auto simp only: split: if_splits)
qed

lemma tracked_tick:
  assumes "tracked W wl r" and "room r"
  shows "tracked W wl (tick r rnd)"
proof -
  let ?r = "r\<lparr>rf_rand := rf_rand r XOR rnd, rf_election_elapsed := rf_election_elapsed r + 1\<rparr>"
  have q: "quiet r ?r" by (simp add: quiet_def)
  note t = tracked_quiet [OF assms(1) q] and m = room_quiet [OF assms(2) q]
  show ?thesis
  proof (cases "rf_role ?r = Leader")
    case True
    let ?a = "?r\<lparr>rf_heartbeat_elapsed := rf_heartbeat_elapsed ?r + 1, rf_quorum_contact_elapsed := rf_quorum_contact_elapsed ?r + 1\<rparr>"
    let ?b = "if rf_heartbeat_elapsed ?a \<ge> o_heartbeat_ticks (rf_opts ?a) then broadcast_append (?a\<lparr>rf_heartbeat_elapsed := 0\<rparr>) else ?a"
    let ?c = "if rf_election_elapsed ?b \<ge> o_election_ticks (rf_opts ?b) then check_quorum (?b\<lparr>rf_election_elapsed := 0\<rparr>) else ?b"
    have "quiet ?r ?a" by (simp add: quiet_def)
    also have "quiet ?a ?b" by (intro quiet_If quiet_trans [OF _ quiet_broadcast] quiet_refl) (simp add: quiet_def)
    also have "quiet ?b ?c" by (intro quiet_If quiet_trans [OF _ quiet_check_quorum] quiet_refl) (simp add: quiet_def)
    also have "quiet ?c (expire_pending_snapshots ?c)" by (rule quiet_expire)
    finally have "tracked W wl (expire_pending_snapshots ?c)" by (rule tracked_quiet [OF t])
    then show ?thesis using True by (simp only: tick_def Let_def simp_thms if_True)
  next
    case False
    then show ?thesis using t tracked_campaign [OF t m] by (simp add: tick_def Let_def start_election_def)
  qed
qed

definition message_ok :: "raft \<Rightarrow> message \<Rightarrow> bool" where
  "message_ok r m \<longleftrightarrow> (case m_body m of
       AppendReq p _ es _ \<Rightarrow> append_ok r p es
     | SnapshotReq snap \<Rightarrow> unat (sn_last_index snap) + 1 < 2 ^ 64
     | _ \<Rightarrow> True)"

lemma tracked_vote_resp:
  assumes "tracked W wl r" and "room r"
  shows "tracked W wl (handle_vote_resp r from g)" and "tracked W wl (handle_pre_vote_resp r from rt g)"
proof -
  let ?r = "r\<lparr>rf_votes := (rf_votes r)(from \<mapsto> g)\<rparr>"
  have q: "quiet r ?r" by (simp add: quiet_def)
  note t = tracked_quiet [OF assms(1) q] and m = room_quiet [OF assms(2) q]
  have f: "tracked W wl (?r\<lparr>rf_role := Follower\<rparr>)" by (rule tracked_quiet [OF t]) (simp add: quiet_def)
  show "tracked W wl (handle_vote_resp r from g)"
    using assms(1) tracked_become_leader [OF t m] t tracked_quiet [OF t quiet_follower] by (simp add: handle_vote_resp_def Let_def)
  show "tracked W wl (handle_pre_vote_resp r from rt g)"
    using assms(1) tracked_campaign [OF t m] t f tracked_quiet [OF assms(1) quiet_follower]
    by (cases g) (simp_all add: handle_pre_vote_resp_def Let_def)
qed

lemma tracked_step:
  assumes t: "tracked W wl r" and m: "room r" and ok: "message_ok r msg"
  shows "tracked W wl (step r from msg)"
proof -
  let ?r = "if m_term msg > rf_term r \<and> \<not> is_pre_vote msg then become_follower r (m_term msg)
    (case m_body msg of VoteReq _ _ \<Rightarrow> None | VoteResp _ \<Rightarrow> None | _ \<Rightarrow> Some from) else r"
  have q: "quiet r ?r" by (simp add: quiet_follower)
  note t' = tracked_quiet [OF t q] and m' = room_quiet [OF m q]
  have "rf_commit ?r = rf_commit r" by (simp add: become_follower_def Let_def)
  then have ok': "message_ok ?r msg" using ok quiet_log [OF q] by (cases "m_body msg") (simp_all add: message_ok_def append_ok_def)
  note qt = tracked_quiet [OF t']
  have "tracked W wl (step_body ?r from msg)"
    using ok' t' tracked_vote_resp [OF t' m'] tracked_append [OF t'] tracked_snapshot [OF t'] tracked_campaign [OF t' m']
    unfolding step_body_def message_ok_def
    by (cases "m_body msg") (simp_all add: qt quiet_votes quiet_append_resp quiet_snapshot_resp quiet_heartbeat quiet_heartbeat_resp)
  then show ?thesis using qt [OF quiet_votes(3)] by (simp only: step_def Let_def) (simp split: if_splits)
qed

lemma tracked_propose:
  assumes "tracked W wl r" and "room r"
    and "rec_ok \<lparr>e_term = rf_term r, e_index = last_index (rf_log r) + 1, e_kind = Normal data\<rparr>"
  shows "tracked W wl (snd (propose r data))"
  using assms tracked_quiet [OF tracked_own_append [OF assms(1,2)] quiet_broadcast] by (simp add: propose_def Let_def)

lemma tracked_propose_config:
  assumes "tracked W wl r" and "room r"
    and "rec_ok \<lparr>e_term = rf_term r, e_index = last_index (rf_log r) + 1, e_kind = Config change\<rparr>"
  shows "tracked W wl (snd (propose_config r change))"
  using assms tracked_quiet [OF tracked_own_append [OF assms(1,2)] quiet_trans [OF quiet_reset quiet_broadcast]]
  by (simp add: propose_config_def Let_def)

lemma rec_ok_leave: "rec_ok \<lparr>e_term = t, e_index = i, e_kind = Config LeaveJoint\<rparr>"
  by (simp add: rec_ok_def entry_ok_def entry_to_bytes_eq MAX_RECORD_def change_encode_def encode_simps change_ok_def)

lemma tracked_finish: "tracked W wl r \<Longrightarrow> room r \<Longrightarrow> tracked W wl (snd (maybe_finish_config_change r))"
  using tracked_propose_config [of W wl r LeaveJoint] rec_ok_leave by (simp add: maybe_finish_config_change_def)

subsection \<open>The Ready cycle\<close>

lemma entries_from_eq:
  assumes "log_wf l"
  shows "entries_from l f = drop (unat f - unat (l_snapshot_index l) - 1) (l_entries l)"
proof -
  have c: "contiguous (l_snapshot_index l) (l_entries l)" "fits (l_snapshot_index l) (length (l_entries l))"
    using assms by (simp_all add: log_wf_def)
  have "unat (last_index l + 1) = unat (last_index l) + 1"
    using assms last_index_eq(2) [OF assms] unat_plus_nat [of "last_index l" 1] by (simp add: log_wf_def fits_def)
  then have "e_index e < last_index l + 1" if "e \<in> set (l_entries l)" for e
    using contiguous_indices(2) [OF c that] last_index_eq(2) [OF assms] by (simp add: word_less_nat_alt)
  then have "entries_from l f = filter (\<lambda>e. f \<le> e_index e) (l_entries l)"
    unfolding entries_from_def log_slice_filter [OF assms] by (simp cong: filter_cong)
  then show ?thesis using contiguous_filter_ge [OF c] by simp
qed

text \<open>What a \<open>Ready\<close> asks for and what it leaves behind.\<close>

lemma take_ready_tracked:
  assumes t: "tracked W wl r" and run: "take_ready r = (rd, r')"
  shows "rf_log r' = rf_log r" and "rf_dirty_from r' = rf_dirty_from r" and "rf_applied r' = rf_applied r"
    and "rf_commit r' = rf_commit r" and "rf_pending r' = ready_default"
    and "rdy_snapshot rd = rdy_snapshot (rf_pending r)"
    and "rdy_entries rd = (case rf_dirty_from r of None \<Rightarrow> [] | Some f \<Rightarrow> entries_from (rf_log r) f)"
    and "list_all (\<lambda>e. rf_applied r < e_index e \<and> e_index e \<le> rf_commit r) (rdy_committed rd)"
proof -
  have i: "indices_ok r" using t by (simp add: tracked_def)
  have f: "max f (first_index (rf_log r)) = f" if "rf_dirty_from r = Some f" for f
  proof -
    have "unat (first_index (rf_log r)) \<le> unat f"
      using i that unat_plus_nat [of "l_snapshot_index (rf_log r)" 1]
      by (simp add: indices_ok_def clean_to_def first_index_def log_wf_def fits_def)
    then show ?thesis by (intro max_absorb1) (simp add: word_le_nat_alt)
  qed
  have c: "min (rf_commit r) (last_index (rf_log r)) = rf_commit r" using i by (simp add: indices_ok_def)
  have wf: "log_wf (rf_log r)" using i by (simp add: indices_ok_def)
  have sl: "list_all (\<lambda>e. rf_applied r < e_index e \<and> e_index e \<le> rf_commit r) (log_slice (rf_log r) (rf_applied r + 1) (rf_commit r + 1))"
  proof -
    have le: "rf_applied r \<le> rf_commit r" "rf_commit r \<le> last_index (rf_log r)" using i by (simp_all add: indices_ok_def)
    have "unat (last_index (rf_log r)) + 1 < 2 ^ 64" using wf last_index_eq(2) [OF wf] by (simp add: log_wf_def fits_def)
    then have "unat (rf_applied r + 1) = unat (rf_applied r) + 1" "unat (rf_commit r + 1) = unat (rf_commit r) + 1"
      using le unat_plus_nat [of "rf_applied r" 1] unat_plus_nat [of "rf_commit r" 1] by (simp_all add: word_le_nat_alt)
    then show ?thesis unfolding log_slice_filter [OF wf] by (auto simp: list_all_iff word_le_nat_alt word_less_nat_alt)
  qed
  show "rf_log r' = rf_log r" "rf_dirty_from r' = rf_dirty_from r" "rf_applied r' = rf_applied r"
    "rf_commit r' = rf_commit r" "rf_pending r' = ready_default" "rdy_snapshot rd = rdy_snapshot (rf_pending r)"
    "rdy_entries rd = (case rf_dirty_from r of None \<Rightarrow> [] | Some f \<Rightarrow> entries_from (rf_log r) f)"
    "list_all (\<lambda>e. rf_applied r < e_index e \<and> e_index e \<le> rf_commit r) (rdy_committed rd)"
    using run c f i sl by (auto simp: take_ready_def Let_def indices_ok_def split: option.splits if_splits)
qed

text \<open>Once the disk holds the whole log, the watermark is cleared.\<close>

definition matches :: "(index \<Rightarrow> entry option) \<Rightarrow> index \<Rightarrow> raft \<Rightarrow> bool" where
  "matches W wl r \<longleftrightarrow> wl = last_index (rf_log r) \<and> (\<forall>i. l_snapshot_index (rf_log r) < i \<longrightarrow> W i = log_get (rf_log r) i)"

lemma advance_tracked:
  assumes i: "indices_ok r" and p: "rdy_snapshot (rf_pending r) = None" and m: "matches W wl r"
    and c: "list_all (\<lambda>e. rf_applied r < e_index e \<and> e_index e \<le> rf_commit r) (rdy_committed rd)"
  shows "tracked W wl (advance (set_persisted r n) rd)" and "rf_dirty_from (advance (set_persisted r n) rd) = None"
    and "rf_log (advance (set_persisted r n) rd) = rf_log r" and "rdy_snapshot (rf_pending (advance (set_persisted r n) rd)) = None"
proof -
  let ?r0 = "set_persisted r n"
  let ?r1 = "case rdy_hard_state rd of None \<Rightarrow> ?r0 | Some hs \<Rightarrow> ?r0\<lparr>rf_persisted_hard_state := hs\<rparr>"
  let ?r2 = "case rf_progress ?r1 (rf_id ?r1) of None \<Rightarrow> ?r1
    | Some p \<Rightarrow> ?r1\<lparr>rf_progress := (rf_progress ?r1)(rf_id ?r1 \<mapsto> p\<lparr>p_matched := rf_persisted ?r1, p_next := rf_persisted ?r1 + 1\<rparr>)\<rparr>"
  let ?r3 = "if rf_role ?r2 = Leader then maybe_advance_commit ?r2 else ?r2"
  have "quiet r ?r0" by (simp add: quiet_def set_persisted_def)
  also have "quiet ?r0 ?r1" by (simp add: quiet_def split: option.split)
  also have "quiet ?r1 ?r2" by (simp add: quiet_def split: option.split)
  also have "quiet ?r2 ?r3" by (intro quiet_If quiet_commit quiet_refl)
  finally have q: "quiet r ?r3" .
  let ?r4 = "(if rdy_committed rd = [] then ?r3 else ?r3\<lparr>rf_applied := e_index (last (rdy_committed rd))\<rparr>)\<lparr>rf_dirty_from := None\<rparr>"
  have adv: "advance ?r0 rd = ?r4" by (simp only: advance_def Let_def)
  have l: "rf_log ?r4 = rf_log r" "rf_pending ?r4 = rf_pending ?r3" "rf_commit ?r4 = rf_commit ?r3" "rf_dirty_from ?r4 = None"
    using quiet_log [OF q] by simp_all
  have wf: "log_wf (rf_log r)" using i by (simp add: indices_ok_def)
  have a: "l_snapshot_index (rf_log r) \<le> rf_applied ?r4 \<and> rf_applied ?r4 \<le> rf_commit ?r3"
  proof (cases "rdy_committed rd = []")
    case True
    then show ?thesis using i q by (auto simp: indices_ok_def quiet_def)
  next
    case False
    then have "last (rdy_committed rd) \<in> set (rdy_committed rd)" by simp
    then have "rf_applied r < e_index (last (rdy_committed rd))" "e_index (last (rdy_committed rd)) \<le> rf_commit r"
      using c by (auto simp: list_all_iff)
    then show ?thesis using i q False by (auto simp: indices_ok_def quiet_def)
  qed
  have clean: "clean_to ?r4 = unat (last_index (rf_log r)) + 1" by (simp only: clean_to_def l option.case)
  have pend: "rdy_snapshot (rf_pending ?r3) = None" "rdy_entries (rf_pending ?r3) = []" "rdy_committed (rf_pending ?r3) = []"
    "rf_commit ?r3 \<le> last_index (rf_log r)" using i p q by (auto simp: quiet_def indices_ok_def)
  have "indices_ok ?r4" using i a pend clean unat_last_ge [OF wf] unfolding indices_ok_def l by simp
  moreover have "in_sync W wl ?r4" using m pend clean unfolding in_sync_def matches_def l by simp
  ultimately show "tracked W wl (advance ?r0 rd)" unfolding adv tracked_def by (rule conjI)
  show "rf_dirty_from (advance ?r0 rd) = None" "rf_log (advance ?r0 rd) = rf_log r" "rdy_snapshot (rf_pending (advance ?r0 rd)) = None"
    unfolding adv l using pend by simp_all
qed

text \<open>Compaction at the applied index, no further than the durable log reaches.\<close>

lemma tracked_compact:
  assumes t: "tracked W wl r" and p: "rdy_snapshot (rf_pending r) = None" and c: "clean_to r = unat wl + 1"
    and s: "sn_last_index snap = rf_applied r" "l_snapshot_index (rf_log r) < sn_last_index snap" "sn_last_index snap \<le> wl"
  shows "tracked W wl (compact r snap)" and "clean_to (compact r snap) = unat wl + 1"
proof -
  let ?l = "rf_log r" and ?i = "sn_last_index snap"
  let ?c = "compact_through ?l ?i (sn_last_term snap) (sn_config snap)"
  have i: "indices_ok r" using t by (simp add: tracked_def)
  then have wf: "log_wf ?l" and le: "?i \<le> last_index ?l" using s(1) by (auto simp: indices_ok_def)
  have snap: "l_snapshot_index ?c = ?i" "set (l_entries ?c) \<subseteq> set (l_entries ?l)"
    using le by (auto simp: compact_through_entries [OF wf s(2)] min_def dest: in_set_dropD)
  have last: "last_index ?c = last_index ?l" by (rule compact_last_index [OF wf le])
  have clean: "clean_to (compact r snap) = clean_to r" using last by (simp add: compact_def clean_to_def split: option.split)
  show cl: "clean_to (compact r snap) = unat wl + 1" using clean c by simp
  have ok: "list_all rec_ok (l_entries ?c)" using i snap(2) by (auto simp: indices_ok_def list_all_iff)
  have "indices_ok (compact r snap)"
    using i s(1,3) cl c snap(1) last ok compact_through_wf [OF wf] unfolding indices_ok_def
    by (simp add: compact_def word_le_nat_alt)
  moreover have "in_sync W wl (compact r snap)"
    using t p c cl s(2) last snap(1) compact_get [OF wf le] unfolding tracked_def in_sync_def
    by (auto simp: compact_def intro: less_trans)
  ultimately show "tracked W wl (compact r snap)" by (simp add: tracked_def)
qed

end
