(* ===== verification/Node_Mirror.thy ===== *)
theory Node_Mirror
  imports Node_Driver Raft_Track Wal_Props
begin

section \<open>The durable log mirrors the log in memory\<close>

text \<open>
  The contract the driver states for itself: the write-ahead log mirrors the in-memory log. A
  cycle whose writes succeed leaves the two equal and every entry synced before anything is sent;
  reconciliation then has nothing to do. The contract holds again at the end of the cycle, so it
  holds after any number of cycles.
\<close>

subsection \<open>Files that are not segments\<close>

definition sparing :: "(wal_disk, 'a) io \<Rightarrow> bool" where
  "sparing m \<longleftrightarrow> (\<forall>w d. same_segments d (snd (snd (m (w, d)))) \<and>
     w_segments (fst (snd (m (w, d)))) = w_segments w \<and> w_opts (fst (snd (m (w, d)))) = w_opts w)"

lemma same_segments_refl [simp]: "same_segments d d"
  by (simp add: same_segments_def)

lemma sparing_bind:
  assumes "sparing m" and "\<And>x. sparing (f x)"
  shows "sparing (io_bind m f)"
  unfolding sparing_def
proof (intro allI)
  fix w d
  obtain x w' d' where m: "m (w, d) = (x, (w', d'))" by (metis prod_cases3)
  have 1: "same_segments d d'" "w_segments w' = w_segments w" "w_opts w' = w_opts w"
    using assms(1) m unfolding sparing_def by (metis fst_conv snd_conv)+
  show "same_segments d (snd (snd (io_bind m f (w, d)))) \<and> w_segments (fst (snd (io_bind m f (w, d)))) = w_segments w \<and>
      w_opts (fst (snd (io_bind m f (w, d)))) = w_opts w"
  proof (cases x)
    case (Inl e)
    then show ?thesis using m 1 by (simp add: io_bind_def)
  next
    case (Inr y)
    have "sparing (f y)" by (rule assms(2))
    then have "same_segments d' (snd (snd (f y (w', d'))))" "w_segments (fst (snd (f y (w', d')))) = w_segments w'"
      "w_opts (fst (snd (f y (w', d')))) = w_opts w'" unfolding sparing_def by blast+
    then show ?thesis using m 1 Inr same_segments_trans by (simp add: io_bind_def)
  qed
qed

lemma sparing_on_disk: "(\<And>d. same_segments d (snd (m d))) \<Longrightarrow> sparing (on_disk m)"
  by (simp add: sparing_def on_disk_def split: prod.split) (metis snd_conv)

lemma sparing_on_wal: "(\<And>w. w_segments (g w) = w_segments w \<and> w_opts (g w) = w_opts w) \<Longrightarrow> sparing (on_wal g)"
  by (simp add: sparing_def on_wal_def)

lemma sparing_bump: "sparing (bump_stats g)"
  unfolding bump_stats_def by (rule sparing_on_wal) simp

lemma sparing_split: "(\<And>w d. sparing (F w d)) \<Longrightarrow> sparing (\<lambda>(w, d). F w d (w, d))"
  by (simp add: sparing_def)

lemma same_segments_calls:
  assumes "index_from_name n = None"
  shows "same_segments d (snd (write_at quota n off x d))" and "same_segments d (snd (truncate_file n k d))"
    and "same_segments d (snd (fsync n d))"
proof -
  have n: "m \<noteq> n" if "index_from_name m \<noteq> None" for m using that assms by auto
  show "same_segments d (snd (write_at quota n off x d))"
    using write_at_files_ok [of d quota n off x] n by (auto simp: same_segments_def write_at_def Let_def put_file_def split: option.splits)
  show "same_segments d (snd (truncate_file n k d))"
    using truncate_file_files_ok [of d n k] n by (auto simp: same_segments_def truncate_file_def Let_def put_file_def split: option.splits)
  show "same_segments d (snd (fsync n d))"
    using fsync_files_ok [of d n] n
    by (auto simp: same_segments_def fsync_def io_bind_def fsync_begin_def fsync_end_def Let_def put_file_def split: option.splits)
qed

lemma same_segments_sync_dir: "same_segments d (snd (sync_dir d))"
  by (simp add: sync_dir_def same_segments_def io_return_def)

lemma sparing_save_hard_state: "sparing (save_hard_state quota hs)"
  unfolding save_hard_state_def Let_def
  by (intro sparing_bind sparing_on_wal sparing_split sparing_on_disk sparing_bump same_segments_calls)
    simp_all

lemma sparing_save_snapshot: "sparing (save_snapshot quota snap)"
  unfolding save_snapshot_def Let_def
  by (intro sparing_bind sparing_on_wal sparing_split sparing_on_disk sparing_bump same_segments_calls same_segments_open same_segments_sync_dir)
    simp_all

lemma wal_rep_same_segments:
  assumes "wal_rep w d cs" and "same_segments d d'" and "w_segments w' = w_segments w" and "w_opts w' = w_opts w"
  shows "wal_rep w' d' cs" and "wal_first_index w' = wal_first_index w" and "wal_last_index w' = wal_last_index w"
proof -
  have names: "{n \<in> dom (nd_files d). index_from_name n \<noteq> None} = sg_name ` set (w_segments w)"
    using assms(1) by (simp add: wal_rep_def)
  have same: "nd_files d' n = nd_files d n" if "index_from_name n \<noteq> None" for n using assms(2) that by (simp add: same_segments_def)
  have "list_all2 (seg_rep d') (w_segments w) cs"
  proof (rule list_all2_seg_frame)
    show "list_all2 (seg_rep d) (w_segments w) cs" using assms(1) by (simp add: wal_rep_def)
    show "nd_files d' (sg_name s) = nd_files d (sg_name s)" if "s \<in> set (w_segments w)" for s
      using that names same by blast
  qed
  moreover have "{n \<in> dom (nd_files d'). index_from_name n \<noteq> None} = {n \<in> dom (nd_files d). index_from_name n \<noteq> None}"
    using same by (auto simp: domIff)
  ultimately show "wal_rep w' d' cs" using assms names by (simp add: wal_rep_def same_segments_def)
  show "wal_first_index w' = wal_first_index w" "wal_last_index w' = wal_last_index w"
    using assms(3) by (simp_all add: wal_first_index_def wal_last_index_def)
qed

lemma wal_rep_sparing:
  assumes "wal_rep w d cs" and "sparing m" and "m (w, d) = (x, (w', d'))"
  shows "wal_rep w' d' cs" and "wal_first_index w' = wal_first_index w" and "wal_last_index w' = wal_last_index w"
proof -
  have "same_segments d d' \<and> w_segments w' = w_segments w \<and> w_opts w' = w_opts w"
    using assms(2,3) unfolding sparing_def by (metis fst_conv snd_conv)
  then show "wal_rep w' d' cs" "wal_first_index w' = wal_first_index w" "wal_last_index w' = wal_last_index w"
    using wal_rep_same_segments [OF assms(1)] by blast+
qed

subsection \<open>Running the driver's calls\<close>

lemma io_bind_Inr: "io_bind m f s = (Inr y, s'') \<longleftrightarrow> (\<exists>x s'. m s = (Inr x, s') \<and> f x s' = (Inr y, s''))"
  by (auto simp: io_bind_def split: prod.splits sum.splits)

lemma on_storage_run: "on_storage m dr = (x, dr') \<longleftrightarrow> (\<exists>s. m (dr_disk dr) = (x, s) \<and> dr' = dr\<lparr>dr_disk := s\<rparr>)"
  by (auto simp: on_storage_def split: prod.splits)

lemma on_driver_run [simp]: "on_driver f dr = (x, dr') \<longleftrightarrow> x = Inr () \<and> dr' = f dr"
  by (auto simp: on_driver_def)

lemma io_when_simps [simp]: "io_when None f = io_return ()" "io_when (Some x) f = f x"
  by (simp_all add: io_when_def)

lemma metric_simps [simp]:
  "dr_raft (metric f dr) = dr_raft dr" "dr_disk (metric f dr) = dr_disk dr" "dr_kv (metric f dr) = dr_kv dr"
  "dr_raft (count_batch es dr) = dr_raft dr" "dr_disk (count_batch es dr) = dr_disk dr"
  by (simp_all add: metric_def count_batch_def)

subsection \<open>Indices\<close>

lemma consecutive_contiguous: "contiguous b es \<longleftrightarrow> consecutive (b + 1) es"
  by (induction es arbitrary: b) simp_all

lemma log_at_cong:
  "wal_first_index w' = wal_first_index w \<Longrightarrow> log_at w' es i = log_at w es i"
  by (simp add: log_at_def Let_def)

text \<open>The point from which the tail of the log is to be written.\<close>

definition poised :: "wal \<Rightarrow> entry list \<Rightarrow> raft \<Rightarrow> bool" where
  "poised w es r \<longleftrightarrow> unat (wal_last_index w) + 1 = clean_to r \<and>
     (\<forall>i. l_snapshot_index (rf_log r) < i \<and> unat i < clean_to r \<longrightarrow> log_at w es i = log_get (rf_log r) i)"

definition tail_of :: "raft \<Rightarrow> entry list" where
  "tail_of r = drop (clean_to r - unat (l_snapshot_index (rf_log r)) - 1) (l_entries (rf_log r))"

lemma tail_appendable:
  assumes "wal_rep w d cs" and p: "poised w es r" and i: "indices_ok r"
  shows "appendable w (tail_of r)"
proof -
  let ?l = "rf_log r" and ?s = "l_snapshot_index (rf_log r)" and ?n = "clean_to r - unat (l_snapshot_index (rf_log r)) - 1"
  have wf: "log_wf ?l" and c: "unat ?s < clean_to r" "clean_to r \<le> unat (last_index ?l) + 1" using i by (simp_all add: indices_ok_def)
  note last = last_index_eq(2) [OF wf]
  have n: "?n \<le> length (l_entries ?l)" using c last by simp
  have "?n = unat (wal_last_index w) - unat ?s" using p c unfolding poised_def by linarith
  then have "?s + word_of_nat ?n = wal_last_index w"
    using word_add_offset [of ?s "unat (wal_last_index w)"] p c by (simp only: poised_def) simp
  then have "consecutive (wal_last_index w + 1) (tail_of r)"
    using contiguous_drop [of ?s "l_entries ?l" ?n] wf n unfolding tail_of_def log_wf_def consecutive_contiguous by simp
  moreover have "list_all rec_ok (tail_of r)" using i by (auto simp: indices_ok_def tail_of_def list_all_iff dest: in_set_dropD)
  moreover have "unat (wal_last_index w + 1) = unat (wal_last_index w) + 1"
    using p c last wf unat_plus_nat [of "wal_last_index w" 1] by (simp add: poised_def log_wf_def fits_def)
  then have "unat (wal_last_index w + 1) + length (tail_of r) < 2 ^ 64"
    using p c last wf n by (simp add: poised_def tail_of_def log_wf_def fits_def)
  ultimately show ?thesis by (simp add: appendable_def)
qed

lemma tail_complete:
  assumes rep: "wal_rep w d cs" and p: "poised w (log_entries cs) r" and i: "indices_ok r"
    and rep': "wal_rep w' d' cs'" and f: "wal_first_index w' = wal_first_index w" and e: "log_entries cs' = log_entries cs @ tail_of r"
  shows "matches (log_at w' (log_entries cs')) (wal_last_index w') r"
proof -
  let ?l = "rf_log r" and ?s = "unat (l_snapshot_index (rf_log r))" and ?a = "unat (wal_first_index w)"
  have wf: "log_wf ?l" and c: "?s < clean_to r" "clean_to r \<le> unat (last_index ?l) + 1" using i by (simp_all add: indices_ok_def)
  note last = last_index_eq(2) [OF wf]
  have a: "?a + length (log_entries cs) = clean_to r" using wal_last_unat [OF rep] p by (simp add: poised_def)
  have len: "length (tail_of r) = unat (last_index ?l) + 1 - clean_to r" using last c by (simp add: tail_of_def)
  have "unat (wal_last_index w') = unat (last_index ?l)" using wal_last_unat [OF rep'] f e a len c by simp
  moreover have "log_at w' (log_entries cs') j = log_get ?l j" if "l_snapshot_index ?l < j" for j
  proof (cases "unat j < clean_to r")
    case True
    then have "log_at w' (log_entries cs') j = log_at w (log_entries cs) j"
      using a f e by (simp add: log_at_def Let_def nth_append)
    then show ?thesis using p True that by (simp add: poised_def)
  next
    case False
    have "log_at w' (log_entries cs') j = (if unat j < clean_to r + length (tail_of r) then Some (tail_of r ! (unat j - clean_to r)) else None)"
      using False a f e by (auto simp: log_at_def Let_def nth_append)
    also have "\<dots> = log_get ?l j"
      using False c len last that log_get_eq [OF wf, of j] by (auto simp: tail_of_def word_less_nat_alt)
    finally show ?thesis .
  qed
  ultimately show ?thesis by (simp add: matches_def word_unat_eq_iff)
qed

subsection \<open>The writes of a cycle\<close>

definition synced :: "(entry list \<times> entry list) list \<Rightarrow> bool" where
  "synced cs \<longleftrightarrow> durable_entries cs = log_entries cs"

lemma cut_poised:
  assumes rep: "wal_rep w d cs" and sy: "synced cs" and i: "indices_ok r"
    and s: "in_sync (log_at w (log_entries cs)) (wal_last_index w) r"
    and run: "io_when (rf_dirty_from r) (\<lambda>from. on_storage (wal_truncate_from from)) dr = (x, dr')" and d: "dr_disk dr = (w, d)"
  obtains w' d' cs' where "x = Inr ()" "dr' = dr\<lparr>dr_disk := (w', d')\<rparr>" "wal_rep w' d' cs'" "synced cs'"
    "rdy_snapshot (rf_pending r) = None \<Longrightarrow> poised w' (log_entries cs') r"
proof (cases "rf_dirty_from r")
  case None
  then have "x = Inr ()" "dr' = dr" using run by (simp_all add: io_return_def)
  moreover have "poised w (log_entries cs) r" if "rdy_snapshot (rf_pending r) = None"
    using s None that by (simp add: in_sync_def poised_def clean_to_def)
  ultimately show ?thesis using that [of w d cs] rep sy d by (metis driver.surjective driver.update_convs(3))
next
  case (Some f)
  let ?n = "unat f - unat (wal_first_index w)"
  have f0: "f \<noteq> 0" and c: "clean_to r = unat f" using i Some by (auto simp: indices_ok_def clean_to_def)
  from truncate_from_run [OF rep f0] obtain w' d' cs' where t: "wal_truncate_from f (w, d) = (Inr (), (w', d'))" "wal_rep w' d' cs'"
    "log_entries cs' = take ?n (log_entries cs)" "prefix (take ?n (durable_entries cs)) (durable_entries cs')"
    "wal_first_index w' = (if f \<le> wal_last_index w \<and> f \<le> wal_first_index w then f else wal_first_index w)" by blast
  have x: "x = Inr ()" "dr' = dr\<lparr>dr_disk := (w', d')\<rparr>" using run Some t(1) d by (auto simp: on_storage_run)
  have "prefix (log_entries cs') (durable_entries cs')" using t(3,4) sy by (simp add: synced_def)
  then have sy': "synced cs'" using durable_prefix_log [of cs'] by (simp add: synced_def prefix_order.antisym)
  have "poised w' (log_entries cs') r" if "rdy_snapshot (rf_pending r) = None"
  proof -
    have le: "unat f \<le> unat (wal_last_index w) + 1"
      and agree: "\<And>j. l_snapshot_index (rf_log r) < j \<Longrightarrow> unat j < unat f \<Longrightarrow> log_at w (log_entries cs) j = log_get (rf_log r) j"
      using s that c by (auto simp: in_sync_def)
    note a = wal_last_unat [OF rep] and a' = wal_last_unat [OF t(2)]
    have "unat (wal_last_index w') + 1 = unat f"
      using a a' le t(3,5) by (auto simp: word_le_nat_alt not_le split: if_splits)
    moreover have "log_at w' (log_entries cs') j = log_at w (log_entries cs) j" if "unat j < unat f" for j
      using a le t(3,5) that by (auto simp: log_at_def Let_def word_le_nat_alt split: if_splits)
    ultimately show ?thesis using agree c by (simp add: poised_def)
  qed
  then show ?thesis by (intro that [OF x t(2) sy'])
qed

lemma snapshot_poised:
  assumes rep: "wal_rep w d cs" and i: "indices_ok r" and s: "in_sync W wl r" and sn: "rdy_snapshot (rf_pending r) = Some snap"
    and d: "dr_disk dr = (w, d)"
    and run: "io_bind (on_storage (save_snapshot quota snap)) (\<lambda>_.
         io_bind (on_driver (\<lambda>dr. case kv_restore (sn_data snap) of Inr kv \<Rightarrow> dr\<lparr>dr_kv := kv\<rparr> | Inl _ \<Rightarrow> dr)) (\<lambda>_.
         io_bind (on_storage (reset_to (sn_last_index snap))) (\<lambda>_.
         on_driver (metric (\<lambda>m. m\<lparr>nm_snapshots_installed := nm_snapshots_installed m + 1\<rparr>))))) dr = (Inr (), dr')"
  obtains w' d' where "dr_disk dr' = (w', d')" "dr_raft dr' = dr_raft dr" "wal_rep w' d' [([], [])]" "poised w' [] r"
proof -
  let ?k = "\<lambda>dr. case kv_restore (sn_data snap) of Inr kv \<Rightarrow> dr\<lparr>dr_kv := kv\<rparr> | Inl _ \<Rightarrow> (dr :: driver)"
  obtain w1 d1 where save: "save_snapshot quota snap (w, d) = (Inr (), (w1, d1))"
    and rest: "io_bind (on_storage (reset_to (sn_last_index snap))) (\<lambda>_.
         on_driver (metric (\<lambda>m. m\<lparr>nm_snapshots_installed := nm_snapshots_installed m + 1\<rparr>))) (?k (dr\<lparr>dr_disk := (w1, d1)\<rparr>)) = (Inr (), dr')"
    using run d by (auto simp: io_bind_Inr on_storage_run)
  have k: "dr_disk (?k (dr\<lparr>dr_disk := (w1, d1)\<rparr>)) = (w1, d1)" "dr_raft (?k (dr\<lparr>dr_disk := (w1, d1)\<rparr>)) = dr_raft dr"
    by (simp_all split: sum.split)
  have rep1: "wal_rep w1 d1 cs" by (rule wal_rep_sparing(1) [OF rep sparing_save_snapshot save])
  have snap: "sn_last_index snap = l_snapshot_index (rf_log r)" and clean: "clean_to r = unat (sn_last_index snap) + 1"
    using s sn by (simp_all add: in_sync_def)
  have "unat (sn_last_index snap) + 1 < 2 ^ 64" using i snap by (simp add: indices_ok_def log_wf_def fits_def)
  then have "unat (sn_last_index snap + 1) = unat (sn_last_index snap) + 1" using unat_plus_nat [of "sn_last_index snap" 1] by simp
  then have "sn_last_index snap + 1 \<noteq> 0" by auto
  from reset_to_run [OF rep1 this] obtain w' d' where
    reset: "reset_to (sn_last_index snap) (w1, d1) = (Inr (), (w', d'))" "wal_rep w' d' [([], [])]" "wal_last_index w' = sn_last_index snap"
    by blast
  have dr': "dr_disk dr' = (w', d')" "dr_raft dr' = dr_raft dr" using rest k reset(1) by (auto simp: io_bind_Inr on_storage_run)
  have "poised w' [] r" using reset(3) clean snap by (auto simp: poised_def word_less_nat_alt)
  then show ?thesis using that dr' reset(2) by blast
qed

lemma tail_of_ready:
  assumes t: "tracked W wl r" and run: "take_ready r = (rd, r')"
  shows "rdy_entries rd = tail_of r"
proof -
  have i: "indices_ok r" using t by (simp add: tracked_def)
  then have wf: "log_wf (rf_log r)" by (simp add: indices_ok_def)
  show ?thesis
  proof (cases "rf_dirty_from r")
    case None
    then show ?thesis using take_ready_tracked(7) [OF t run] last_index_eq(2) [OF wf] by (simp add: tail_of_def clean_to_def)
  next
    case (Some f)
    then show ?thesis using take_ready_tracked(7) [OF t run] by (simp add: tail_of_def clean_to_def entries_from_eq [OF wf])
  qed
qed

lemma tail_written:
  assumes rep: "wal_rep w d cs" and p: "poised w (log_entries cs) r" and i: "indices_ok r" and d: "dr_disk dr = (w, d)"
    and run: "io_bind (io_when hs (\<lambda>hs. on_storage (save_hard_state quota hs))) (\<lambda>_.
       io_bind (if tail_of r = [] then io_return ()
                else io_bind (on_storage (wal_append quota (tail_of r))) (\<lambda>_. on_driver (count_batch (tail_of r)))) (\<lambda>_.
       io_bind (on_storage wal_sync) (\<lambda>_.
       on_driver (metric (\<lambda>m. m\<lparr>nm_fsyncs := nm_fsyncs m + 1\<rparr>))))) dr = (Inr (), dr')"
  obtains w' d' cs' where "dr_disk dr' = (w', d')" "dr_raft dr' = dr_raft dr" "wal_rep w' d' cs'" "synced cs'"
    "matches (log_at w' (log_entries cs')) (wal_last_index w') r"
proof -
  obtain dr1 where hs: "io_when hs (\<lambda>hs. on_storage (save_hard_state quota hs)) dr = (Inr (), dr1)"
    and rest: "io_bind (if tail_of r = [] then io_return ()
                else io_bind (on_storage (wal_append quota (tail_of r))) (\<lambda>_. on_driver (count_batch (tail_of r)))) (\<lambda>_.
       io_bind (on_storage wal_sync) (\<lambda>_. on_driver (metric (\<lambda>m. m\<lparr>nm_fsyncs := nm_fsyncs m + 1\<rparr>)))) dr1 = (Inr (), dr')"
    using run by (auto simp: io_bind_Inr)
  obtain w1 d1 where one: "dr_disk dr1 = (w1, d1)" "dr_raft dr1 = dr_raft dr" "wal_rep w1 d1 cs"
    "wal_first_index w1 = wal_first_index w" "wal_last_index w1 = wal_last_index w"
  proof (cases hs)
    case None
    then show thesis using hs d rep that by (simp add: io_return_def)
  next
    case (Some h)
    then obtain w1 d1 where "save_hard_state quota h (w, d) = (Inr (), (w1, d1))" "dr1 = dr\<lparr>dr_disk := (w1, d1)\<rparr>"
      using hs d by (auto simp: on_storage_run)
    then show thesis using wal_rep_sparing [OF rep sparing_save_hard_state] that by simp
  qed
  have p1: "poised w1 (log_entries cs) r" using p one(4,5) log_at_cong [OF one(4)] by (simp add: poised_def)
  obtain dr2 w2 d2 cs2 where two: "dr_disk dr2 = (w2, d2)" "dr_raft dr2 = dr_raft dr" "wal_rep w2 d2 cs2"
    "wal_first_index w2 = wal_first_index w1" "log_entries cs2 = log_entries cs @ tail_of r"
    and last: "io_bind (on_storage wal_sync) (\<lambda>_. on_driver (metric (\<lambda>m. m\<lparr>nm_fsyncs := nm_fsyncs m + 1\<rparr>))) dr2 = (Inr (), dr')"
  proof (cases "tail_of r = []")
    case True
    then show thesis using rest one by (intro that [of dr1 w1 d1 cs]) (simp_all add: io_return_def io_bind_def)
  next
    case False
    then obtain w2 d2 dr2 where app: "wal_append quota (tail_of r) (w1, d1) = (Inr (), (w2, d2))"
      and dr2: "dr2 = count_batch (tail_of r) (dr1\<lparr>dr_disk := (w2, d2)\<rparr>)"
      and last: "io_bind (on_storage wal_sync) (\<lambda>_. on_driver (metric (\<lambda>m. m\<lparr>nm_fsyncs := nm_fsyncs m + 1\<rparr>))) dr2 = (Inr (), dr')"
      using rest one(1) by (auto simp: io_bind_Inr on_storage_run)
    from wal_append_run [OF one(3) tail_appendable [OF one(3) p1 i], of quota] app obtain cs2 where
      "wal_rep w2 d2 cs2" "wal_first_index w2 = wal_first_index w1" "log_step cs (tail_of r) cs2" by auto
    then show thesis using that [of dr2 w2 d2 cs2] dr2 one last by (simp add: log_step_def)
  qed
  from wal_sync_run [OF two(3)] obtain w3 d3 cs3 where three: "wal_sync (w2, d2) = (Inr (), (w3, d3))" "wal_rep w3 d3 cs3"
    "durable_entries cs3 = log_entries cs2" "log_entries cs3 = log_entries cs2" "wal_first_index w3 = wal_first_index w2" by blast
  have "dr_disk dr' = (w3, d3)" "dr_raft dr' = dr_raft dr" using last two(1,2) three(1) by (auto simp: io_bind_Inr on_storage_run)
  moreover have "matches (log_at w3 (log_entries cs3)) (wal_last_index w3) r"
    using tail_complete [OF one(3) p1 i three(2)] two three by simp
  ultimately show ?thesis using that three by (simp add: synced_def)
qed

lemma no_tail:
  assumes rep: "wal_rep w d cs" and p: "poised w (log_entries cs) r" and i: "indices_ok r" and e: "tail_of r = []"
  shows "matches (log_at w (log_entries cs)) (wal_last_index w) r"
  using tail_complete [OF rep p i rep] e by simp

lemma persist_mirror:
  assumes rep: "wal_rep w d cs" and sy: "synced cs" and d: "dr_disk dr = (w, d)"
    and t: "tracked (log_at w (log_entries cs)) (wal_last_index w) r" and ready: "take_ready r = (rd, r')"
    and run: "persist quota rd (truncate_to r) dr = (Inr (), dr')"
  obtains w' d' cs' where "dr_disk dr' = (w', d')" "dr_raft dr' = dr_raft dr" "wal_rep w' d' cs'" "synced cs'"
    "matches (log_at w' (log_entries cs')) (wal_last_index w') r"
proof -
  have i: "indices_ok r" and s: "in_sync (log_at w (log_entries cs)) (wal_last_index w) r" using t by (simp_all add: tracked_def)
  note e = tail_of_ready [OF t ready] and sn = take_ready_tracked(6) [OF t ready]
  let ?cut = "io_when (rf_dirty_from r) (\<lambda>from. on_storage (wal_truncate_from from))"
  obtain x dr1 where cut: "?cut dr = (x, dr1)" by (cases "?cut dr")
  obtain w1 d1 cs1 where one: "x = Inr ()" "dr1 = dr\<lparr>dr_disk := (w1, d1)\<rparr>" "wal_rep w1 d1 cs1" "synced cs1"
    "rdy_snapshot (rf_pending r) = None \<Longrightarrow> poised w1 (log_entries cs1) r" using cut_poised [OF rep sy i s cut d] by blast
  have d1: "dr_disk dr1 = (w1, d1)" "dr_raft dr1 = dr_raft dr" using one(2) by simp_all
  show ?thesis
  proof (cases "needs_durability rd")
    case False
    then have none: "tail_of r = []" "rdy_snapshot (rf_pending r) = None" using e sn by (simp_all add: needs_durability_def)
    have "dr' = dr1" using run cut one(1) False by (simp add: persist_def truncate_to_def io_bind_def io_return_def)
    then show ?thesis using that [of w1 d1 cs1] d1 one(3-5) no_tail [OF one(3) one(5) i none(1)] none(2) by simp
  next
    case True
    obtain dr2 where snap: "io_when (rdy_snapshot rd) (\<lambda>snap.
         io_bind (on_storage (save_snapshot quota snap)) (\<lambda>_.
         io_bind (on_driver (\<lambda>dr. case kv_restore (sn_data snap) of Inr kv \<Rightarrow> dr\<lparr>dr_kv := kv\<rparr> | Inl _ \<Rightarrow> dr)) (\<lambda>_.
         io_bind (on_storage (reset_to (sn_last_index snap))) (\<lambda>_.
         on_driver (metric (\<lambda>m. m\<lparr>nm_snapshots_installed := nm_snapshots_installed m + 1\<rparr>)))))) dr1 = (Inr (), dr2)"
      and tail: "io_bind (io_when (rdy_hard_state rd) (\<lambda>hs. on_storage (save_hard_state quota hs))) (\<lambda>_.
       io_bind (if tail_of r = [] then io_return ()
                else io_bind (on_storage (wal_append quota (tail_of r))) (\<lambda>_. on_driver (count_batch (tail_of r)))) (\<lambda>_.
       io_bind (on_storage wal_sync) (\<lambda>_.
       on_driver (metric (\<lambda>m. m\<lparr>nm_fsyncs := nm_fsyncs m + 1\<rparr>))))) dr2 = (Inr (), dr')"
      using run cut one(1) True unfolding persist_def truncate_to_def e by (simp add: io_bind_Inr) blast
    obtain w2 d2 cs2 where two: "dr_disk dr2 = (w2, d2)" "dr_raft dr2 = dr_raft dr" "wal_rep w2 d2 cs2" "poised w2 (log_entries cs2) r"
    proof (cases "rdy_snapshot (rf_pending r)")
      case None
      then show thesis using snap sn one that [of w1 d1 cs1] d1 by (simp add: io_return_def)
    next
      case (Some sp)
      from snap have inst: "io_bind (on_storage (save_snapshot quota sp)) (\<lambda>_.
         io_bind (on_driver (\<lambda>dr. case kv_restore (sn_data sp) of Inr kv \<Rightarrow> dr\<lparr>dr_kv := kv\<rparr> | Inl _ \<Rightarrow> dr)) (\<lambda>_.
         io_bind (on_storage (reset_to (sn_last_index sp))) (\<lambda>_.
         on_driver (metric (\<lambda>m. m\<lparr>nm_snapshots_installed := nm_snapshots_installed m + 1\<rparr>))))) dr1 = (Inr (), dr2)"
        unfolding sn Some by simp
      show thesis
        by (rule snapshot_poised [OF one(3) i s Some d1(1) inst], rule that [of _ _ "[([], [])]"]) (simp_all add: d1(2))
    qed
    show ?thesis by (rule tail_written [OF two(3,4) i two(1) tail], rule that) (simp_all add: two(2))
  qed
qed

end
