(* ===== verification/Node_Cycle.thy ===== *)
theory Node_Cycle
  imports Node_Mirror
begin

text \<open>
  A whole turn of the driver loop: a batch of events, then a Ready cycle. The invariant is
  that the disk holds a well-formed, fully synced log which agrees with the Raft log up to the
  first entry the core still has to hand over. Every event keeps it, a cycle whose writes
  succeed re-establishes it before anything is sent, and so does a cycle that fails for want of
  space, as long as it had no snapshot to install.
\<close>

subsection \<open>What leaves the core and the disk alone\<close>

lemma foldl_keeps: "(\<And>s x. g (f s x) = g s) \<Longrightarrow> g (foldl f s xs) = g s"
  by (induction xs arbitrary: s) simp_all

lemma net_send_simps [simp]:
  "dr_raft (net_send to w dr) = dr_raft dr" "dr_disk (net_send to w dr) = dr_disk dr"
  "dr_raft (reply to rq out dr) = dr_raft dr" "dr_disk (reply to rq out dr) = dr_disk dr"
  by (simp_all add: net_send_def reply_def)

lemma send_ready_simps [simp]: "dr_raft (send_ready rd dr) = dr_raft dr" "dr_disk (send_ready rd dr) = dr_disk dr"
  unfolding send_ready_def by (rule foldl_keeps, simp split: prod.split)+

lemma apply_entry_simps [simp]: "dr_raft (apply_entry dr e) = dr_raft dr" "dr_disk (apply_entry dr e) = dr_disk dr"
  by (simp_all add: apply_entry_def Let_def split: entry_kind.split sum.split prod.split option.split)

lemma apply_committed_simps [simp]:
  "dr_raft (apply_committed rd dr) = dr_raft dr" "dr_disk (apply_committed rd dr) = dr_disk dr"
  unfolding apply_committed_def by (rule foldl_keeps, simp)+

lemma serve_confirmed_simps [simp]:
  "dr_raft (serve_confirmed dr x) = dr_raft dr" "dr_disk (serve_confirmed dr x) = dr_disk dr"
proof -
  let ?f = "\<lambda>dr (client, rq). reply client rq (serve_read (dr_kv dr) rq) dr"
  have "dr_raft (foldl ?f s ws) = dr_raft s" "dr_disk (foldl ?f s ws) = dr_disk s" for s ws
    by (rule foldl_keeps, simp split: prod.split)+
  then show "dr_raft (serve_confirmed dr x) = dr_raft dr" "dr_disk (serve_confirmed dr x) = dr_disk dr"
    by (simp_all add: serve_confirmed_def split: option.split)
qed

lemma leadership_change_simps [simp]:
  "dr_raft (leadership_change dr) = dr_raft dr" "dr_disk (leadership_change dr) = dr_disk dr"
proof -
  let ?f = "\<lambda>out dr (client, rq). reply client rq out dr"
  have "dr_raft (foldl (?f out) s ws) = dr_raft s" "dr_disk (foldl (?f out) s ws) = dr_disk s" for out s ws
    by (rule foldl_keeps, simp split: prod.split)+
  then show "dr_raft (leadership_change dr) = dr_raft dr" "dr_disk (leadership_change dr) = dr_disk dr"
    by (simp_all add: leadership_change_def Let_def)
qed

lemma publish_simps [simp]: "dr_raft (publish b dr) = dr_raft dr" "dr_disk (publish b dr) = dr_disk dr" "dr_sent (publish b dr) = dr_sent dr"
  by (simp_all add: publish_def Let_def)

subsection \<open>Events\<close>

text \<open>
  What an event may ask of the log: indices stay within 64 bits, an entry fits a record, and a
  leader's request does not contradict what is already committed.
\<close>

definition event_ok :: "driver \<Rightarrow> driver_event \<Rightarrow> bool" where
  "event_ok dr ev \<longleftrightarrow> room (dr_raft dr) \<and>
     (let fits_record = (\<lambda>k. rec_ok \<lparr>e_term = rf_term (dr_raft dr), e_index = last_index (rf_log (dr_raft dr)) + 1, e_kind = k\<rparr>)
      in case ev of
           EvTick _ \<Rightarrow> True
         | EvWire _ m \<Rightarrow> message_ok (dr_raft dr) m
         | EvClient _ rq \<Rightarrow> fits_record (Normal (request_encode rq))
         | EvAdmin _ change \<Rightarrow> fits_record (Config change))"

fun batch_ok :: "driver \<Rightarrow> driver_event list \<Rightarrow> bool" where
  "batch_ok dr [] \<longleftrightarrow> room (dr_raft dr)"
| "batch_ok dr (ev # evs) \<longleftrightarrow> event_ok dr ev \<and> batch_ok (handle_event dr ev) evs"

lemma client_effect:
  "dr_disk (handle_client src rq dr) = dr_disk dr \<and>
   (dr_raft (handle_client src rq dr) = dr_raft dr \<or> dr_raft (handle_client src rq dr) = snd (read_index (dr_raft dr)) \<or>
    dr_raft (handle_client src rq dr) = snd (propose (dr_raft dr) (request_encode rq)))"
  by (cases "read_index (dr_raft dr)"; cases "propose (dr_raft dr) (request_encode rq)")
    (auto simp: handle_client_def Let_def split: op.split read_mode.split option.split)

lemma admin_effect:
  "dr_disk (handle_admin src ch dr) = dr_disk dr \<and>
   (dr_raft (handle_admin src ch dr) = dr_raft dr \<or> dr_raft (handle_admin src ch dr) = snd (propose_config (dr_raft dr) ch))"
  by (cases "propose_config (dr_raft dr) ch") (auto simp: handle_admin_def Let_def split: option.split)

lemma handle_event_disk [simp]: "dr_disk (handle_event dr ev) = dr_disk dr"
  using client_effect admin_effect by (cases ev) (auto simp: handle_event_def Let_def)

lemma handle_event_tracked:
  assumes t: "tracked W wl (dr_raft dr)" and ok: "event_ok dr ev"
  shows "tracked W wl (dr_raft (handle_event dr ev))"
proof -
  have m: "room (dr_raft dr)" using ok by (simp add: event_ok_def)
  show ?thesis
  proof (cases ev)
    case (EvTick x)
    then show ?thesis using tracked_tick [OF t m] by (simp add: handle_event_def Let_def)
  next
    case (EvWire src msg)
    then show ?thesis using tracked_step [OF t m] ok by (simp add: handle_event_def event_ok_def Let_def)
  next
    case (EvClient src rq)
    then show ?thesis
      using client_effect [of src rq "metric (\<lambda>m. m\<lparr>nm_client_requests := nm_client_requests m + 1\<rparr>) dr"] t
        tracked_quiet [OF t quiet_read_index] tracked_propose [OF t m, of "request_encode rq"] ok
      by (auto simp: handle_event_def event_ok_def Let_def)
  next
    case (EvAdmin src ch)
    then show ?thesis using admin_effect [of src ch dr] t tracked_propose_config [OF t m, of ch] ok
      by (auto simp: handle_event_def event_ok_def Let_def)
  qed
qed

lemma batch_tracked:
  "tracked W wl (dr_raft dr) \<Longrightarrow> batch_ok dr evs \<Longrightarrow>
     tracked W wl (dr_raft (foldl handle_event dr evs)) \<and> room (dr_raft (foldl handle_event dr evs)) \<and>
     dr_disk (foldl handle_event dr evs) = dr_disk dr"
  by (induction evs arbitrary: dr) (simp_all add: handle_event_tracked)

subsection \<open>The invariant\<close>

definition mirrored :: "driver \<Rightarrow> bool" where
  "mirrored dr \<longleftrightarrow> (\<exists>w d cs. dr_disk dr = (w, d) \<and> wal_rep w d cs \<and> synced cs \<and>
     tracked (log_at w (log_entries cs)) (wal_last_index w) (dr_raft dr))"

text \<open>
  Between the writes and the next batch the core has no snapshot to hand over and the disk ends
  where its tail begins, at index \<open>n\<close>; up to there the log is still the one the cycle began with.
\<close>

definition level :: "raft_log \<Rightarrow> index \<Rightarrow> driver \<Rightarrow> bool" where
  "level b n dr \<longleftrightarrow> mirrored dr \<and> rdy_snapshot (rf_pending (dr_raft dr)) = None \<and>
     wal_last_index (fst (dr_disk dr)) = n \<and> clean_to (dr_raft dr) = unat n + 1 \<and>
     (\<forall>i. l_snapshot_index (rf_log (dr_raft dr)) < i \<and> i \<le> n \<longrightarrow> log_get (rf_log (dr_raft dr)) i = log_get b i)"

lemma mirrored_batch:
  assumes "mirrored dr" and "batch_ok dr evs"
  shows "mirrored (leadership_change (foldl handle_event dr evs))" and "room (dr_raft (leadership_change (foldl handle_event dr evs)))"
  using assms batch_tracked unfolding mirrored_def by fastforce+

lemma quiet_clean:
  "quiet r r' \<Longrightarrow> clean_to r' = clean_to r" "quiet r r' \<Longrightarrow> rdy_snapshot (rf_pending r') = rdy_snapshot (rf_pending r)"
  by (auto simp: quiet_def clean_to_def split: option.split)

lemma level_quiet:
  assumes "level b n dr" and q: "quiet (dr_raft dr) (dr_raft dr')" and d: "dr_disk dr' = dr_disk dr"
  shows "level b n dr'"
proof -
  have "mirrored dr'" using assms(1) tracked_quiet [OF _ q] unfolding level_def mirrored_def d by blast
  then show ?thesis using assms(1) d quiet_clean [OF q] quiet_log [OF q] by (simp add: level_def)
qed

lemma poised_level:
  assumes "wal_rep w d cs" and "synced cs" and p: "poised w (log_entries cs) (dr_raft dr)" and i: "indices_ok (dr_raft dr)"
    and "rdy_snapshot (rf_pending (dr_raft dr)) = None" and "dr_disk dr = (w, d)"
  shows "level (rf_log (dr_raft dr)) (wal_last_index w) dr"
proof -
  have "wal_last_index w = last_index (rf_log (dr_raft dr))" if "rf_dirty_from (dr_raft dr) = None"
    using p that by (simp add: poised_def clean_to_def word_unat_eq_iff)
  then show ?thesis using assms by (auto simp: level_def mirrored_def tracked_def in_sync_def poised_def)
qed

subsection \<open>Compaction\<close>

lemma synced_all: "synced cs \<longleftrightarrow> list_all (\<lambda>c. snd c = []) cs"
  using durable_all_synced durable_length [of cs] by (fastforce simp: synced_def)

lemma tracked_agree:
  "tracked W wl r \<Longrightarrow> (\<And>i. l_snapshot_index (rf_log r) < i \<Longrightarrow> W' i = W i) \<Longrightarrow> tracked W' wl r"
  by (auto simp: tracked_def in_sync_def split: option.splits)

lemma compact_log_at:
  assumes rep: "wal_rep w d cs" and run: "wal_compact_through through (w, d) = (x, (w', d'))"
  obtains cs' where "x = Inr ()" "wal_rep w' d' cs'" "synced cs \<Longrightarrow> synced cs'" "wal_last_index w' = wal_last_index w"
    "\<And>j. through < j \<Longrightarrow> log_at w' (log_entries cs') j = log_at w (log_entries cs) j"
proof -
  from wal_compact_run [OF rep, of through] run obtain k where x: "x = Inr ()" and rep': "wal_rep w' d' (drop k cs)"
    and below: "\<And>e. e \<in> set (log_entries (take k cs)) \<Longrightarrow> e_index e < through" and last: "wal_last_index w' = wal_last_index w" by auto
  let ?g = "log_entries (take k cs)" and ?es = "log_entries (drop k cs)"
  have es: "log_entries cs = ?g @ ?es" using log_entries_simps(3) [of "take k cs" "drop k cs"] by simp
  have first: "unat (wal_first_index w') = unat (wal_first_index w) + length ?g"
    using wal_last_unat [OF rep] wal_last_unat [OF rep'] last es by simp
  have "log_at w' ?es j = log_at w (log_entries cs) j" if j: "through < j" for j
  proof (cases "?g = []")
    case True
    then show ?thesis using first es by (simp add: log_at_def)
  next
    case False
    let ?n = "length ?g"
    have "consecutive (wal_first_index w) ?g" using wal_rep_index(1) [OF rep] es by (simp add: consecutive_append)
    then have idx: "e_index (last ?g) = wal_first_index w + word_of_nat (?n - 1)"
      using consecutive_last [of "wal_first_index w" ?g] False by (simp add: of_nat_diff Suc_leI)
    have "unat (wal_first_index w') < 2 ^ LENGTH(64)" by (rule unsigned_less)
    then have "unat (wal_first_index w) + (?n - 1) < 2 ^ LENGTH(64)" using first by linarith
    then have "unat (e_index (last ?g)) = unat (wal_first_index w) + (?n - 1)" unfolding idx by (rule unat_plus_nat)
    moreover have "unat (e_index (last ?g)) < unat j" using below [of "last ?g"] False j by (simp add: word_less_nat_alt)
    moreover have "0 < ?n" using False by simp
    ultimately have "unat (wal_first_index w') \<le> unat j" using first by linarith
    moreover have "?es ! (unat j - unat (wal_first_index w')) = (?g @ ?es) ! (unat j - unat (wal_first_index w))"
      if "unat (wal_first_index w') \<le> unat j" using that first by (simp add: nth_append)
    ultimately show ?thesis unfolding log_at_def Let_def es using first by simp
  qed
  moreover have "synced cs \<Longrightarrow> synced (drop k cs)" by (auto simp: synced_all list_all_iff dest: in_set_dropD)
  ultimately show ?thesis by (intro that [OF x rep' _ last])
qed

lemma compact_at_level:
  assumes l: "level b n dr" and snap: "sn_last_index snap = rf_applied (dr_raft dr)"
    and safe: "safe_to_compact snap (dr_raft dr) (fst (dr_disk dr))"
  shows "level b n (compact_at quota snap dr)"
proof -
  obtain w d cs where d: "dr_disk dr = (w, d)" and rep: "wal_rep w d cs" and sy: "synced cs"
    and t: "tracked (log_at w (log_entries cs)) (wal_last_index w) (dr_raft dr)"
    using l unfolding level_def mirrored_def by blast
  have p: "rdy_snapshot (rf_pending (dr_raft dr)) = None" and c: "clean_to (dr_raft dr) = unat (wal_last_index w) + 1"
    and n: "wal_last_index w = n" using l d by (simp_all add: level_def)
  obtain x w1 d1 where save: "save_snapshot quota snap (w, d) = (x, (w1, d1))" by (metis surj_pair)
  note keep = wal_rep_sparing [OF rep sparing_save_snapshot save]
  have at: "log_at w1 = log_at w" by (intro ext log_at_cong [OF keep(2)])
  show ?thesis
  proof (cases x)
    case (Inl e)
    then have comp: "compact_at quota snap dr = dr\<lparr>dr_disk := (w1, d1)\<rparr>" using save d by (simp add: compact_at_def on_storage_def)
    have "tracked (log_at w1 (log_entries cs)) (wal_last_index w1) (dr_raft dr)" using t by (simp add: at keep(3))
    then have "mirrored (compact_at quota snap dr)" using keep(1) sy unfolding mirrored_def comp by auto
    then show ?thesis using l comp d keep(3) by (simp add: level_def)
  next
    case (Inr u)
    obtain y w2 d2 where comp: "wal_compact_through (sn_last_index snap) (w1, d1) = (y, (w2, d2))" by (metis surj_pair)
    from compact_log_at [OF keep(1) comp] sy obtain cs' where y: "y = Inr ()" and rep2: "wal_rep w2 d2 cs'" and sy2: "synced cs'"
      and last: "wal_last_index w2 = wal_last_index w1"
      and same: "\<And>j. sn_last_index snap < j \<Longrightarrow> log_at w2 (log_entries cs') j = log_at w1 (log_entries cs) j" by blast
    let ?r = "compact (dr_raft dr) snap"
    have ra: "dr_raft (compact_at quota snap dr) = ?r" and da: "dr_disk (compact_at quota snap dr) = (w2, d2)"
      using save d Inr comp y by (simp_all add: compact_at_def on_storage_def Let_def)
    have s: "l_snapshot_index (rf_log (dr_raft dr)) < sn_last_index snap" "sn_last_index snap \<le> wal_last_index w"
      using safe d by (simp_all add: safe_to_compact_def)
    have wf: "log_wf (rf_log (dr_raft dr))" "sn_last_index snap \<le> last_index (rf_log (dr_raft dr))"
      using t snap by (auto simp: tracked_def indices_ok_def)
    have sn: "l_snapshot_index (rf_log ?r) = sn_last_index snap"
      using wf s(1) by (simp add: compact_def compact_through_entries)
    then have "tracked (log_at w2 (log_entries cs')) (wal_last_index w) ?r"
      using tracked_agree [OF tracked_compact(1) [OF t p c snap s]] same by (simp add: at)
    moreover have "rdy_snapshot (rf_pending ?r) = None" using p by (simp add: compact_def)
    moreover have "log_get (rf_log ?r) i = log_get b i" if "sn_last_index snap < i" "i \<le> n" for i
      using compact_get [OF wf that(1)] that(2) less_trans [OF s(1) that(1)] l by (simp add: compact_def level_def)
    moreover have "mirrored (compact_at quota snap dr)"
      using calculation(1) rep2 sy2 last keep(3) unfolding mirrored_def ra da by auto
    ultimately show ?thesis
      using last keep(3) sn n tracked_compact(2) [OF t p c snap s] unfolding level_def ra da by simp
  qed
qed

lemma snapshot_at_index: "snapshot_at_applied r data = Some snap \<Longrightarrow> sn_last_index snap = rf_applied r"
  by (auto simp: snapshot_at_applied_def)

lemma free_space_level: "level b n dr \<Longrightarrow> level b n (free_space quota dr)"
  using compact_at_level snapshot_at_index by (auto simp: free_space_def split: option.split)

lemma quiet_step_down: "quiet r (step_down r)"
  by (simp add: step_down_def quiet_follower)

lemma disk_full_level: "level b n dr \<Longrightarrow> level b n (disk_full quota dr)"
  unfolding disk_full_def Let_def by (rule free_space_level, erule level_quiet) (simp_all add: quiet_step_down)

subsection \<open>Housekeeping\<close>

lemma clean_own_append:
  assumes "indices_ok r" and "room r" and "e_index e = last_index (rf_log r) + 1"
  shows "clean_to (append_to_own_log r [e]) = clean_to r"
proof -
  have "unat (last_index (rf_log r) + 1) = unat (last_index (rf_log r)) + 1"
    using assms(2) unat_plus_nat [of "last_index (rf_log r)" 1] by (simp add: room_def)
  then show ?thesis
    using assms(1,3) by (auto simp: append_to_own_log_def mark_dirty_def indices_ok_def clean_to_def min_def word_le_nat_alt split: option.splits)
qed

lemma clean_finish:
  assumes "indices_ok r" and "room r"
  shows "clean_to (snd (maybe_finish_config_change r)) = clean_to r"
    and "rdy_snapshot (rf_pending (snd (maybe_finish_config_change r))) = rdy_snapshot (rf_pending r)"
    and "l_snapshot_index (rf_log (snd (maybe_finish_config_change r))) = l_snapshot_index (rf_log r)"
    and "i \<le> last_index (rf_log r) \<Longrightarrow> log_get (rf_log (snd (maybe_finish_config_change r))) i = log_get (rf_log r) i"
proof -
  let ?e = "\<lparr>e_term = rf_term r, e_index = last_index (rf_log r) + 1, e_kind = Config LeaveJoint\<rparr>"
  let ?r = "append_to_own_log r [?e]"
  have q: "quiet ?r (broadcast_append (reset_progress_for_config ?r))" by (rule quiet_trans [OF quiet_reset quiet_broadcast])
  have c: "clean_to (broadcast_append (reset_progress_for_config ?r)) = clean_to r"
    using quiet_clean(1) [OF q] clean_own_append [OF assms, of ?e] by simp
  have p: "rdy_snapshot (rf_pending (broadcast_append (reset_progress_for_config ?r))) = rdy_snapshot (rf_pending r)"
    using quiet_clean(2) [OF q] by (simp add: append_to_own_log_def mark_dirty_def split: option.split)
  have l: "rf_log (broadcast_append (reset_progress_for_config ?r)) = log_append (rf_log r) [?e]"
    using quiet_log [OF q] by (simp add: append_to_own_log_def mark_dirty_def split: option.split)
  have wf: "log_wf (rf_log r)" using assms(1) by (simp add: indices_ok_def)
  have wf': "log_wf (log_append (rf_log r) [?e])"
    using wf assms(2) by (intro log_append_wf) (simp_all add: fits_def room_def)
  have g: "log_get (log_append (rf_log r) [?e]) i = log_get (rf_log r) i" if "i \<le> last_index (rf_log r)"
    using that log_get_eq [OF wf, of i] log_get_eq [OF wf', of i] last_index_eq(2) [OF wf]
    by (auto simp: log_append_def nth_append word_le_nat_alt)
  show "clean_to (snd (maybe_finish_config_change r)) = clean_to r"
    "rdy_snapshot (rf_pending (snd (maybe_finish_config_change r))) = rdy_snapshot (rf_pending r)"
    "l_snapshot_index (rf_log (snd (maybe_finish_config_change r))) = l_snapshot_index (rf_log r)"
    "i \<le> last_index (rf_log r) \<Longrightarrow> log_get (rf_log (snd (maybe_finish_config_change r))) i = log_get (rf_log r) i"
    using c p l g by (simp_all add: maybe_finish_config_change_def propose_config_def Let_def log_append_def)
qed

lemma finish_level:
  assumes l: "level b n dr" and m: "room (dr_raft dr)"
  shows "level b n (dr\<lparr>dr_raft := snd (maybe_finish_config_change (dr_raft dr))\<rparr>)"
proof -
  obtain w d cs where d: "dr_disk dr = (w, d)" "wal_rep w d cs" "synced cs"
    and t: "tracked (log_at w (log_entries cs)) (wal_last_index w) (dr_raft dr)" using l unfolding level_def mirrored_def by blast
  have i: "indices_ok (dr_raft dr)" using t by (simp add: tracked_def)
  have "n \<le> last_index (rf_log (dr_raft dr))" using l i by (simp add: level_def indices_ok_def word_le_nat_alt)
  then have "log_get (rf_log (snd (maybe_finish_config_change (dr_raft dr)))) j = log_get b j"
    if "l_snapshot_index (rf_log (dr_raft dr)) < j" "j \<le> n" for j
    using l that clean_finish(4) [OF i m, of j] by (auto simp: level_def)
  moreover have "mirrored (dr\<lparr>dr_raft := snd (maybe_finish_config_change (dr_raft dr))\<rparr>)"
    using d tracked_finish [OF t m] by (auto simp: mirrored_def)
  ultimately show ?thesis using l clean_finish(1-3) [OF i m] by (simp add: level_def)
qed

lemma quiet_send_snapshots: "quiet r (foldl (\<lambda>r peer. send_snapshot r peer snap) r ps)"
  by (rule quiet_foldl) (rule quiet_send_snapshot)

lemma maybe_compact_level:
  "level b n dr \<Longrightarrow> level b n (if should_snapshot (dr_raft dr) then
           (case snapshot_at_applied (dr_raft dr) (kv_snapshot (dr_kv dr)) of
              None \<Rightarrow> dr
            | Some snap \<Rightarrow> if safe_to_compact snap (dr_raft dr) (fst (dr_disk dr)) then compact_at quota snap dr else dr)
         else dr)"
  using compact_at_level snapshot_at_index by (auto split: option.split)

lemma housekeeping_level:
  assumes l: "level b n dr" and m: "room (dr_raft dr)"
  shows "level b n (housekeeping quota dr)"
proof -
  let ?f = "dr\<lparr>dr_raft := snd (maybe_finish_config_change (dr_raft dr))\<rparr>"
  let ?s = "\<lambda>dr. case snapshot_at_applied (dr_raft dr) (kv_snapshot (dr_kv dr)) of
      None \<Rightarrow> dr
    | Some snap \<Rightarrow> dr\<lparr>dr_raft := foldl (\<lambda>r peer. send_snapshot r peer snap) (dr_raft dr) (followers_needing_snapshot (dr_raft dr))\<rparr>"
  let ?d = "if rf_role (dr_raft dr) = Leader
    then (if followers_needing_snapshot (dr_raft ?f) = [] then ?f else ?s ?f) else dr"
  have "level b n ?f" by (rule finish_level [OF l m])
  moreover from this have "level b n (?s ?f)"
    by (split option.split, intro conjI allI impI, assumption, elim level_quiet) (simp_all add: quiet_send_snapshots)
  ultimately have "level b n ?d" using l by simp
  moreover have "housekeeping quota dr = (if should_snapshot (dr_raft ?d) then
           (case snapshot_at_applied (dr_raft ?d) (kv_snapshot (dr_kv ?d)) of
              None \<Rightarrow> ?d
            | Some snap \<Rightarrow> if safe_to_compact snap (dr_raft ?d) (fst (dr_disk ?d)) then compact_at quota snap ?d else ?d)
         else ?d)" by (simp only: housekeeping_def Let_def)
  ultimately show ?thesis by (simp only: maybe_compact_level)
qed

subsection \<open>A Ready cycle\<close>

lemma taken_indices_ok:
  assumes t: "tracked W wl r" and ready: "take_ready r = (rd, r')"
  shows "indices_ok r'" and "rdy_snapshot (rf_pending r') = None" and "clean_to r' = clean_to r"
proof -
  note k = take_ready_tracked [OF t ready]
  show c: "clean_to r' = clean_to r" using k by (simp add: clean_to_def split: option.split)
  show "indices_ok r'" using t c k by (simp add: tracked_def indices_ok_def ready_default_def)
  show "rdy_snapshot (rf_pending r') = None" using k by (simp add: ready_default_def)
qed

lemma reconcile_noop:
  assumes i: "indices_ok (dr_raft dr)" and m: "matches W (wal_last_index (fst (dr_disk dr))) (dr_raft dr)"
  shows "reconcile quota dr = (Inr (), dr)"
proof -
  let ?l = "rf_log (dr_raft dr)"
  have wf: "log_wf ?l" using i by (simp add: indices_ok_def)
  have "unat (last_index ?l) + 1 < 2 ^ 64" using wf last_index_eq(2) [OF wf] by (simp add: log_wf_def fits_def)
  then have "first_index ?l \<le> last_index ?l + 1"
    using unat_last_ge [OF wf] unat_plus_nat [of "last_index ?l" 1] unat_plus_nat [of "l_snapshot_index ?l" 1]
    by (simp add: first_index_def word_le_nat_alt)
  then show ?thesis using m by (simp add: reconcile_def Let_def matches_def)
qed

lemma after_writes_level:
  assumes d: "dr_disk dr = (w, d)" and rep: "wal_rep w d cs" and sy: "synced cs"
    and i: "indices_ok (dr_raft dr)" and p: "rdy_snapshot (rf_pending (dr_raft dr)) = None"
    and m: "matches (log_at w (log_entries cs)) (wal_last_index w) (dr_raft dr)"
    and c: "list_all (\<lambda>e. rf_applied (dr_raft dr) < e_index e \<and> e_index e \<le> rf_commit (dr_raft dr)) (rdy_committed rd)"
    and room: "room (dr_raft dr)"
  shows "level (rf_log (dr_raft dr)) (wal_last_index w) (after_writes quota rd dr)"
proof -
  let ?p = "dr\<lparr>dr_raft := set_persisted (dr_raft dr) (wal_last_index (fst (dr_disk dr)))\<rparr>"
  let ?s = "foldl serve_confirmed (apply_committed rd (send_ready rd ?p)) (rdy_reads rd)"
  let ?a = "?s\<lparr>dr_raft := advance (dr_raft ?s) rd\<rparr>"
  have s: "dr_raft ?s = set_persisted (dr_raft dr) (wal_last_index w)" "dr_disk ?s = (w, d)"
    using d foldl_keeps [of dr_raft serve_confirmed] foldl_keeps [of dr_disk serve_confirmed] by simp_all
  note adv = advance_tracked [OF i p m c, of "wal_last_index w"]
  have a: "dr_raft ?a = advance (set_persisted (dr_raft dr) (wal_last_index w)) rd" "dr_disk ?a = (w, d)" using s by simp_all
  have "mirrored ?a" unfolding mirrored_def a using adv(1) rep sy by blast
  moreover have "clean_to (dr_raft ?a) = unat (wal_last_index w) + 1" using adv(2,3) m unfolding a clean_to_def by (simp add: matches_def)
  ultimately have l: "level (rf_log (dr_raft dr)) (wal_last_index w) ?a" using adv(3,4) unfolding level_def a by simp
  have "room (dr_raft ?a)" using room adv(3) unfolding a by (simp add: room_def)
  from housekeeping_level [OF l this] show ?thesis by (simp add: after_writes_def Let_def)
qed

lemma io_bind_Inl:
  "io_bind m f s = (Inl e, s'') \<longleftrightarrow> m s = (Inl e, s'') \<or> (\<exists>x s'. m s = (Inr x, s') \<and> f x s' = (Inl e, s''))"
  by (auto simp: io_bind_def split: prod.splits sum.splits)

lemma hard_state_kept:
  assumes rep: "wal_rep w d cs" and d: "dr_disk dr = (w, d)"
    and run: "io_when hs (\<lambda>hs. on_storage (save_hard_state quota hs)) dr = (y, dr')"
  obtains w' d' where "dr' = dr\<lparr>dr_disk := (w', d')\<rparr>" "wal_rep w' d' cs"
    "wal_first_index w' = wal_first_index w" "wal_last_index w' = wal_last_index w"
proof (cases hs)
  case None
  then have "dr' = dr\<lparr>dr_disk := (w, d)\<rparr>" using run d by (simp add: io_return_def)
  then show ?thesis using that rep by blast
next
  case (Some h)
  then obtain w' d' where "save_hard_state quota h (w, d) = (y, (w', d'))" "dr' = dr\<lparr>dr_disk := (w', d')\<rparr>"
    using run d by (auto simp: on_storage_run)
  then show ?thesis using wal_rep_sparing [OF rep sparing_save_hard_state] that by blast
qed

text \<open>A cycle that fails without a snapshot to install leaves what it could not write still to be handed over.\<close>

lemma persist_fails:
  assumes rep: "wal_rep w d cs" and sy: "synced cs" and d: "dr_disk dr = (w, d)"
    and t: "tracked (log_at w (log_entries cs)) (wal_last_index w) r" and ready: "take_ready r = (rd, r')"
    and sn: "rdy_snapshot (rf_pending r) = None" and r: "dr_raft dr = r'"
    and run: "persist quota rd (truncate_to r) dr = (Inl e, dr')"
  shows "\<exists>n. level (rf_log r) n dr'"
proof -
  have i: "indices_ok r" and s: "in_sync (log_at w (log_entries cs)) (wal_last_index w) r" using t by (simp_all add: tracked_def)
  note i' = taken_indices_ok [OF t ready]
  let ?cut = "io_when (rf_dirty_from r) (\<lambda>from. on_storage (wal_truncate_from from))"
  obtain x dr1 where cut: "?cut dr = (x, dr1)" by (cases "?cut dr")
  obtain w1 d1 cs1 where one: "x = Inr ()" "dr1 = dr\<lparr>dr_disk := (w1, d1)\<rparr>" "wal_rep w1 d1 cs1" "synced cs1"
    "poised w1 (log_entries cs1) r" using cut_poised [OF rep sy i s cut d] sn by blast
  have p1: "poised w1 (log_entries cs1) r'"
    using one(5) i'(3) take_ready_tracked(1) [OF t ready] by (simp add: poised_def)
  have lvl: "\<exists>n. level (rf_log r) n dr'" if "wal_rep w' d' cs'" "synced cs'" "log_entries cs' = log_entries cs1" "wal_first_index w' = wal_first_index w1"
    "dr_disk dr' = (w', d')" "dr_raft dr' = r'" for dr' w' d' cs'
  proof -
    have "wal_last_index w' = wal_last_index w1"
      using wal_last_unat [OF one(3)] wal_last_unat [OF that(1)] that(3,4) by (simp add: word_unat_eq_iff)
    then have "poised w' (log_entries cs') (dr_raft dr')" using p1 that log_at_cong [OF that(4)] by (simp add: poised_def)
    from poised_level [OF that(1,2) this] show ?thesis using that i' take_ready_tracked(1) [OF t ready] by auto
  qed
  note e = tail_of_ready [OF t ready] and sn' = take_ready_tracked(6) [OF t ready]
  let ?app = "if tail_of r = [] then io_return ()
    else io_bind (on_storage (wal_append quota (tail_of r))) (\<lambda>_. on_driver (count_batch (tail_of r)))"
  have fail: "io_bind (io_when (rdy_hard_state rd) (\<lambda>hs. on_storage (save_hard_state quota hs))) (\<lambda>_. io_bind ?app (\<lambda>_.
       io_bind (on_storage wal_sync) (\<lambda>_. on_driver (metric (\<lambda>m. m\<lparr>nm_fsyncs := nm_fsyncs m + 1\<rparr>))))) dr1 = (Inl e, dr')"
    using run cut one(1) sn sn' unfolding persist_def truncate_to_def e
    by (cases "needs_durability rd") (simp_all add: io_bind_Inl io_return_def)
  obtain y dr2 where hs: "io_when (rdy_hard_state rd) (\<lambda>hs. on_storage (save_hard_state quota hs)) dr1 = (y, dr2)" by (metis surj_pair)
  have "dr_disk dr1 = (w1, d1)" using one(2) by simp
  from hard_state_kept [OF one(3) this hs] obtain w2 d2 where two: "dr2 = dr1\<lparr>dr_disk := (w2, d2)\<rparr>" "wal_rep w2 d2 cs1"
    "wal_first_index w2 = wal_first_index w1" "wal_last_index w2 = wal_last_index w1" by blast
  have p2: "poised w2 (log_entries cs1) r" using one(5) two(3,4) log_at_cong [OF two(3)] by (simp add: poised_def)
  have sync: "\<not> io_bind (on_storage wal_sync) (\<lambda>_. on_driver f) dr3 = (Inl e, dr')" if "dr_disk dr3 = (w', d')" "wal_rep w' d' cs'" for dr3 w' d' cs' f
    using wal_sync_run [OF that(2)] that(1) by (auto simp: io_bind_Inl on_storage_run)
  obtain z w3 d3 where app: "wal_append quota (tail_of r) (w2, d2) = (z, (w3, d3))" by (metis surj_pair)
  from wal_append_run [OF two(2) tail_appendable [OF two(2) p2 i], of quota] app obtain cs3 where rep3: "wal_rep w3 d3 cs3"
    "wal_first_index w3 = wal_first_index w2" "z = Inr () \<or> z = Inl DiskFull \<and> log_entries cs3 = log_entries cs1 \<and>
      prefix (durable_entries cs1) (durable_entries cs3)" by auto
  from fail consider "dr' = dr2" | "?app dr2 = (Inl e, dr')"
    | dr3 where "?app dr2 = (Inr (), dr3)" "io_bind (on_storage wal_sync) (\<lambda>_. on_driver (metric (\<lambda>m. m\<lparr>nm_fsyncs := nm_fsyncs m + 1\<rparr>))) dr3 = (Inl e, dr')"
    unfolding io_bind_Inl [of "io_when _ _"] io_bind_Inl [of ?app] hs by auto
  then show ?thesis
  proof cases
    case 1
    then show ?thesis using lvl [OF two(2) one(4) refl two(3)] two(1) one(2) r by simp
  next
    case 2
    then have "z = Inl e \<and> dr' = dr2\<lparr>dr_disk := (w3, d3)\<rparr>" using app two(1)
      by (auto simp: io_bind_Inl on_storage_run io_return_def split: if_splits)
    moreover from this have "synced cs3" "log_entries cs3 = log_entries cs1"
      using rep3(3) one(4) durable_prefix_log [of cs3] by (auto simp: synced_def dest: prefix_order.antisym)
    ultimately show ?thesis using lvl [OF rep3(1)] rep3(2) two one(2) r by simp
  next
    case 3
    have "\<exists>w' d' cs'. dr_disk dr3 = (w', d') \<and> wal_rep w' d' cs'"
      using 3(1) app two(1,2) rep3(1) by (auto simp: io_bind_Inr on_storage_run io_return_def split: if_splits)
    then show ?thesis using sync 3(2) by blast
  qed
qed

text \<open>Whether the writes of the coming cycle go through.\<close>

definition writes_succeed :: "nat option \<Rightarrow> driver \<Rightarrow> bool" where
  "writes_succeed quota dr = (case take_ready (dr_raft dr) of (rd, r) \<Rightarrow>
     \<not> isl (fst (persist quota rd (truncate_to (dr_raft dr)) (dr\<lparr>dr_raft := r\<rparr>))))"

text \<open>Storage calls send nothing.\<close>

definition silent :: "(driver, 'a) io \<Rightarrow> bool" where
  "silent m \<longleftrightarrow> (\<forall>dr. dr_sent (snd (m dr)) = dr_sent dr)"

lemma silent_bind: "silent m \<Longrightarrow> (\<And>x. silent (f x)) \<Longrightarrow> silent (io_bind m f)"
  unfolding silent_def io_bind_def by (auto split: prod.split sum.split) (metis snd_conv)+

lemma silent_intros:
  "silent (io_return x)" "silent (on_storage q)"
  "(\<And>dr. dr_sent (h dr) = dr_sent dr) \<Longrightarrow> silent (on_driver h)" "(\<And>y. silent (k y)) \<Longrightarrow> silent (io_when oy k)"
  "silent m \<Longrightarrow> silent m' \<Longrightarrow> silent (if c then m else m')"
  by (auto simp: silent_def io_bind_def io_return_def on_storage_def on_driver_def io_when_def split: prod.split sum.split option.split)

lemma metric_sent [simp]: "dr_sent (metric f dr) = dr_sent dr" "dr_sent (count_batch es dr) = dr_sent dr"
  by (simp_all add: metric_def count_batch_def)

lemma persist_silent: "silent (persist quota rd t)"
  unfolding persist_def by (intro silent_bind silent_intros) (simp_all split: sum.split)

lemma disk_full_sent [simp]: "dr_sent (disk_full quota dr) = dr_sent dr"
  by (auto simp: disk_full_def free_space_def compact_at_def on_storage_def Let_def split: option.split prod.split sum.split)

lemma foldl_mono: "(\<And>s x. g s \<le> (g (f s x) :: nat)) \<Longrightarrow> g s \<le> g (foldl f s xs)"
  by (induction xs arbitrary: s) (auto intro: order_trans)

lemma sent_grows:
  "length (dr_sent dr) \<le> length (dr_sent (reply to rq out dr))" "length (dr_sent dr) \<le> length (dr_sent (apply_entry dr e))"
  "length (dr_sent dr) \<le> length (dr_sent (serve_confirmed dr x))"
proof -
  show rep: "length (dr_sent dr) \<le> length (dr_sent (reply to rq out dr))" for to rq out dr by (simp add: reply_def net_send_def)
  show "length (dr_sent dr) \<le> length (dr_sent (apply_entry dr e))"
    by (auto simp: apply_entry_def Let_def reply_def net_send_def split: entry_kind.split sum.split prod.split option.split)
  let ?f = "\<lambda>dr (client, rq). reply client rq (serve_read (dr_kv dr) rq) dr"
  have "length (dr_sent s) \<le> length (dr_sent (foldl ?f s ws))" for s ws
    by (rule foldl_mono [of "\<lambda>s. length (dr_sent s)"]) (simp add: rep split: prod.split)
  from this [of "dr\<lparr>dr_reads := (dr_reads dr)(rd_ctx x := None)\<rparr>"]
  show "length (dr_sent dr) \<le> length (dr_sent (serve_confirmed dr x))" by (simp add: serve_confirmed_def split: option.split)
qed

lemma after_writes_sent: "length (dr_sent dr) + length (rdy_messages rd) \<le> length (dr_sent (after_writes quota rd dr))"
proof -
  have send: "length (dr_sent (send_ready rd dr)) = length (dr_sent dr) + length (rdy_messages rd)" for dr
  proof -
    have "length (dr_sent (foldl (\<lambda>dr (to, m). net_send to (Raft m) dr) s ms)) = length (dr_sent s) + length ms" for s ms
      by (induction ms arbitrary: s) (auto simp: net_send_def)
    then show ?thesis by (simp add: send_ready_def)
  qed
  have comp: "dr_sent (compact_at quota snap dr) = dr_sent dr" for snap dr
    by (simp add: compact_at_def on_storage_def Let_def split: prod.split sum.split)
  have house: "dr_sent (housekeeping quota dr) = dr_sent dr" for dr
    by (simp add: housekeeping_def comp Let_def split: option.split)
  have grow: "length (dr_sent s) \<le> length (dr_sent (foldl serve_confirmed (apply_committed rd s) (rdy_reads rd)))" for s
    unfolding apply_committed_def
    by (rule order_trans [OF foldl_mono [of "\<lambda>s. length (dr_sent s)"] foldl_mono [of "\<lambda>s. length (dr_sent s)"]]) (rule sent_grows)+
  let ?p = "dr\<lparr>dr_raft := set_persisted (dr_raft dr) (wal_last_index (fst (dr_disk dr)))\<rparr>"
  have "length (dr_sent dr) + length (rdy_messages rd) = length (dr_sent (send_ready rd ?p))" by (simp add: send)
  also note grow [of "send_ready rd ?p"]
  finally show ?thesis by (simp add: after_writes_def Let_def house)
qed


lemma persisted_matches:
  assumes m: "mirrored dr" and ready: "take_ready (dr_raft dr) = (rd, r)"
    and run: "persist quota rd (truncate_to (dr_raft dr)) (dr\<lparr>dr_raft := r\<rparr>) = (Inr (), dr1)"
  obtains w1 d1 cs1 where "dr_disk dr1 = (w1, d1)" "dr_raft dr1 = r" "wal_rep w1 d1 cs1" "synced cs1"
    "matches (log_at w1 (log_entries cs1)) (wal_last_index w1) (dr_raft dr)"
    "reconcile quota dr1 = (Inr (), dr1)" "dr_sent dr1 = dr_sent dr"
proof -
  obtain w d cs where d: "dr_disk dr = (w, d)" and rep: "wal_rep w d cs" and sy: "synced cs"
    and t: "tracked (log_at w (log_entries cs)) (wal_last_index w) (dr_raft dr)" using m unfolding mirrored_def by blast
  note k = take_ready_tracked [OF t ready] and i = taken_indices_ok [OF t ready]
  have "dr_disk (dr\<lparr>dr_raft := r\<rparr>) = (w, d)" using d by simp
  from persist_mirror [OF rep sy this t ready run] obtain w1 d1 cs1 where one: "dr_disk dr1 = (w1, d1)"
    "dr_raft dr1 = dr_raft (dr\<lparr>dr_raft := r\<rparr>)" "wal_rep w1 d1 cs1" "synced cs1"
    "matches (log_at w1 (log_entries cs1)) (wal_last_index w1) (dr_raft dr)" by blast
  have raft: "dr_raft dr1 = r" using one(2) by simp
  have "matches (log_at w1 (log_entries cs1)) (wal_last_index w1) (dr_raft dr1)" using raft one(5) k(1) by (simp add: matches_def)
  then have rec: "reconcile quota dr1 = (Inr (), dr1)" using reconcile_noop [of dr1] i(1) raft one(1) by simp
  have "dr_sent (snd (persist quota rd (truncate_to (dr_raft dr)) (dr\<lparr>dr_raft := r\<rparr>))) = dr_sent (dr\<lparr>dr_raft := r\<rparr>)"
    using persist_silent unfolding silent_def by blast
  then have "dr_sent dr1 = dr_sent dr" using run by simp
  then show ?thesis using that one(1) raft one(3,4,5) rec by blast
qed

lemma written_cycle:
  assumes m: "mirrored dr" and room: "room (dr_raft dr)" and ok: "writes_succeed quota dr"
  obtains dr' where "ready_cycle quota inspect dr = (Inr (), dr')"
    "level (rf_log (dr_raft dr)) (last_index (rf_log (dr_raft dr))) dr'"
    "length (dr_sent dr) + length (rdy_messages (fst (take_ready (dr_raft dr)))) \<le> length (dr_sent dr')"
proof -
  obtain w d cs where t: "tracked (log_at w (log_entries cs)) (wal_last_index w) (dr_raft dr)" using m unfolding mirrored_def by blast
  obtain rd r where ready: "take_ready (dr_raft dr) = (rd, r)" by (metis surj_pair)
  note k = take_ready_tracked [OF t ready] and i = taken_indices_ok [OF t ready]
  obtain x dr1 where px: "persist quota rd (truncate_to (dr_raft dr)) (dr\<lparr>dr_raft := r\<rparr>) = (x, dr1)" by (metis surj_pair)
  then have run: "persist quota rd (truncate_to (dr_raft dr)) (dr\<lparr>dr_raft := r\<rparr>) = (Inr (), dr1)"
    using ok ready by (cases x) (simp_all add: writes_succeed_def)
  obtain w1 d1 cs1 where one: "dr_disk dr1 = (w1, d1)" and raft: "dr_raft dr1 = r" and rep: "wal_rep w1 d1 cs1" and sy: "synced cs1"
    and m1: "matches (log_at w1 (log_entries cs1)) (wal_last_index w1) (dr_raft dr)"
    and rec: "reconcile quota dr1 = (Inr (), dr1)" and sent: "dr_sent dr1 = dr_sent dr" by (rule persisted_matches [OF m ready run])
  have mt: "matches (log_at w1 (log_entries cs1)) (wal_last_index w1) (dr_raft dr1)" using raft m1 k(1) by (simp add: matches_def)
  have "ready_cycle quota inspect dr = (Inr (), publish inspect (after_writes quota rd dr1))"
    using ready run rec by (simp add: ready_cycle_def Let_def)
  moreover have "level (rf_log (dr_raft dr1)) (wal_last_index w1) (after_writes quota rd dr1)"
    by (rule after_writes_level [OF one rep sy _ _ mt]) (use i k room raft in \<open>simp_all add: room_def\<close>)
  then have "level (rf_log (dr_raft dr)) (last_index (rf_log (dr_raft dr))) (publish inspect (after_writes quota rd dr1))"
    using k(1) raft m1 level_quiet [of _ _ "after_writes quota rd dr1" "publish inspect (after_writes quota rd dr1)"]
    by (simp add: matches_def)
  moreover have "length (dr_sent dr) + length (rdy_messages rd) \<le> length (dr_sent (publish inspect (after_writes quota rd dr1)))"
    using after_writes_sent [of dr1 rd quota] sent by simp
  ultimately show ?thesis using that ready by simp
qed

lemma unwritten_cycle:
  assumes m: "mirrored dr" and ok: "\<not> writes_succeed quota dr" and run: "ready_cycle quota inspect dr = (Inr (), dr')"
  shows "dr_sent dr' = dr_sent dr"
    and "rdy_snapshot (rf_pending (dr_raft dr)) = None \<Longrightarrow> \<exists>n. level (rf_log (dr_raft dr)) n dr'"
proof -
  obtain w d cs where d: "dr_disk dr = (w, d)" and rep: "wal_rep w d cs" and sy: "synced cs"
    and t: "tracked (log_at w (log_entries cs)) (wal_last_index w) (dr_raft dr)" using m unfolding mirrored_def by blast
  obtain rd r where ready: "take_ready (dr_raft dr) = (rd, r)" by (metis surj_pair)
  let ?dr = "dr\<lparr>dr_raft := r\<rparr>"
  obtain x dr1 where px: "persist quota rd (truncate_to (dr_raft dr)) ?dr = (x, dr1)" by (metis surj_pair)
  then obtain e where fail: "persist quota rd (truncate_to (dr_raft dr)) ?dr = (Inl e, dr1)"
    using ok ready by (cases x) (simp_all add: writes_succeed_def)
  have dr': "dr' = disk_full quota dr1" using run ready fail by (simp add: ready_cycle_def Let_def split: if_splits)
  have "dr_sent (snd (persist quota rd (truncate_to (dr_raft dr)) ?dr)) = dr_sent ?dr" using persist_silent unfolding silent_def by blast
  then have "dr_sent dr1 = dr_sent dr" using fail by simp
  then show "dr_sent dr' = dr_sent dr" using dr' by simp
  show "\<exists>n. level (rf_log (dr_raft dr)) n dr'" if "rdy_snapshot (rf_pending (dr_raft dr)) = None"
  proof -
    have "dr_disk ?dr = (w, d)" "dr_raft ?dr = r" using d by simp_all
    from persist_fails [OF rep sy this(1) t ready that this(2) fail] show ?thesis unfolding dr' using disk_full_level by blast
  qed
qed

subsection \<open>Crash and restart\<close>

lemma find_consecutive:
  "consecutive a es \<Longrightarrow> unat a + length es < 2 ^ 64 \<Longrightarrow>
     find (\<lambda>e. e_index e = i) es =
       (if unat a \<le> unat i \<and> unat i < unat a + length es then Some (es ! (unat i - unat a)) else None)"
proof (induction es arbitrary: a)
  case (Cons e es)
  have a: "unat (a + 1) = unat a + 1" using Cons.prems(2) unat_plus_nat [of a 1] by simp
  have "consecutive (a + 1) es" "unat (a + 1) + length es < 2 ^ 64" using Cons.prems a by simp_all
  note IH = Cons.IH [OF this]
  show ?case
  proof (cases "i = a")
    case False
    then have "unat i \<noteq> unat a" by (simp add: word_unat_eq_iff)
    then show ?thesis using IH a False Cons.prems(1) by (auto simp: nth_Cons' Suc_le_eq)
  qed (use Cons.prems in auto)
qed simp

lemma find_log_at: "wal_rep w d cs \<Longrightarrow> find (\<lambda>e. e_index e = i) (log_entries cs) = log_at w (log_entries cs) i"
  using find_consecutive [OF wal_rep_index(1)] wal_rep_index(2) order_less_le_trans [OF unsigned_less [of "wal_last_index w + 1"], of "2 ^ 64 :: nat"]
  by (simp add: log_at_def Let_def)


lemma wal_contiguous:
  assumes rep: "wal_rep w d cs"
  shows "contiguous (wal_first_index w - 1) (log_entries cs)" and "fits (wal_first_index w - 1) (length (log_entries cs))"
    and "unat (wal_first_index w - 1) + 1 = unat (wal_first_index w)"
proof -
  show one: "unat (wal_first_index w - 1) + 1 = unat (wal_first_index w)"
  proof -
    have "wal_first_index w \<noteq> 0" using wal_rep_index(4) [OF rep] by auto
    then show ?thesis using unat_minus_one [of "wal_first_index w"] wal_rep_index(4) [OF rep] by (simp add: word_less_nat_alt)
  qed
  show "contiguous (wal_first_index w - 1) (log_entries cs)"
    using wal_rep_index(1) [OF rep] by (simp add: consecutive_contiguous)
  have "unat (wal_last_index w + 1) < 2 ^ 64" by (rule order_less_le_trans [OF unsigned_less]) simp
  then show "fits (wal_first_index w - 1) (length (log_entries cs))"
    using wal_rep_index(2) [OF rep] one by (simp add: fits_def)
qed

lemma synced_recovery:
  assumes rep: "wal_rep w d cs" and sy: "synced cs" and crash: "crash_disk pol d g = Some (d', g')" and opts: "0 < wo_segment_bytes opts"
  obtains rc d'' where "wal_open opts (boot_disk d') = (Inr rc, d'')" "wal_rep (rc_wal rc) d'' cs"
    "rc_entries rc = filter (\<lambda>e. snap_of rc < e_index e) (log_entries cs)"
proof -
  have ne: "w_segments w \<noteq> []" using rep by (simp add: wal_rep_def)
  have "list_all (\<lambda>c. snd c = []) cs" using sy by (simp add: synced_all)
  from wal_open_synced [OF crash_found [OF rep crash] ne this opts] obtain rc d'' where
    rc: "wal_open opts (boot_disk d') = (Inr rc, d'')" "wal_rep (rc_wal rc) d'' cs"
    "rc_entries rc = (if snap_of rc = 0 then log_entries cs else filter (\<lambda>e. snap_of rc < e_index e) (log_entries cs))" by blast
  have "0 < e_index e" if "e \<in> set (log_entries cs)" for e
    using that wal_contiguous(1,2) [OF rep] contiguous_indices(1) by (fastforce simp: word_less_nat_alt)
  then have "filter (\<lambda>e. 0 < e_index e) (log_entries cs) = log_entries cs" by (simp add: filter_id_conv)
  then show ?thesis using that rc by simp
qed




text \<open>
  C7: The contract of the driver. The disk always holds a well-formed, fully synced log that agrees
  with the log of the core below its watermark: a turn of the driver keeps that, for every batch of
  ticks, messages and requests that leave room for 64-bit indices, fit a record and do not
  contradict what is committed, and whether or not the disk was full, except that a snapshot to
  install must have been written.
\<close>

theorem cycle_keeps_mirror:
  assumes "mirrored dr" and "batch_ok dr batch" and "driver_cycle quota inspect batch dr = (Inr (), dr')"
    and "rdy_snapshot (rf_pending (dr_raft (foldl handle_event dr batch))) = None \<or>
      writes_succeed quota (leadership_change (foldl handle_event dr batch))"
  shows "mirrored dr'"
proof -
  let ?s = "leadership_change (foldl handle_event dr batch)"
  note s = mirrored_batch [OF assms(1,2)]
  have run: "ready_cycle quota inspect ?s = (Inr (), dr')" using assms(3) by (simp add: driver_cycle_def)
  show ?thesis
  proof (cases "writes_succeed quota ?s")
    case True
    have "level (rf_log (dr_raft ?s)) (last_index (rf_log (dr_raft ?s))) dr'" using written_cycle [OF s True, of inspect] run by simp
    then show ?thesis by (simp add: level_def)
  next
    case False
    then show ?thesis using unwritten_cycle(2) [OF s(1) False run] assms(4) unfolding level_def by auto
  qed
qed

lemma restored_tracked:
  assumes rep: "wal_rep w d cs" and es: "es = filter (\<lambda>e. s < e_index e) (log_entries cs)"
    and s: "s = (case snap of None \<Rightarrow> 0 | Some sn \<Rightarrow> sn_last_index sn)"
    and first: "unat (wal_first_index w) \<le> unat s + 1" and last: "s \<le> wal_last_index w"
    and cfg: "snap = None \<or> voters (log_config (log_restore snap es)) \<noteq> {}"
  shows "tracked (log_at w (log_entries cs)) (wal_last_index w) (raft_restore i opts hs snap es boot)"
proof -
  let ?a = "wal_first_index w - 1" and ?r = "raft_restore i opts hs snap es boot"
  let ?n = "unat s + 1 - unat (wal_first_index w)" and ?l = "rf_log ?r"
  note c = wal_contiguous [OF rep] and ln = wal_last_unat [OF rep]
  have small: "unat s + 1 < 2 ^ 64" using c(2,3) ln last by (simp add: fits_def word_le_nat_alt)
  then have s1: "unat (s + 1) = unat s + 1" using unat_plus_nat [of s 1] by simp
  have "s < x \<longleftrightarrow> s + 1 \<le> x" for x :: index using s1 by (simp add: word_less_nat_alt word_le_nat_alt Suc_le_eq)
  then have "es = drop (unat s - unat ?a) (log_entries cs)"
    unfolding es using contiguous_filter_ge [OF c(1,2), of "s + 1"] s1 by simp
  moreover have neq: "?n = unat s - unat ?a" using c(3) by linarith
  ultimately have drop: "es = drop ?n (log_entries cs)" by (simp only:)
  have n: "?n \<le> length (log_entries cs)" using ln last by (simp add: word_le_nat_alt)
  have "?a + word_of_nat ?n = s" unfolding neq using word_add_offset [of ?a "unat s"] c(3) first by simp
  then have cont: "contiguous s es" using contiguous_drop [OF c(1) n] drop by simp
  have len: "unat s + length es = unat (wal_last_index w)" using drop n ln first by simp
  have fit: "fits s (length es)" using len c(2,3) ln by (simp add: fits_def)
  have wf0: "log_wf (log_restore snap es)" and l0: "l_snapshot_index (log_restore snap es) = s" "l_entries (log_restore snap es) = es"
    using cont fit s by (simp_all add: log_wf_def log_restore_def log_new_def split: option.splits)
  have "entries_from (log_restore snap es) 1 = es" if "snap = None" using entries_from_eq [OF wf0, of 1] l0 s that by simp
  then have l: "l_snapshot_index ?l = s" "l_entries ?l = es"
    using l0 cfg s by (auto simp: raft_restore_def Let_def log_append_def log_bootstrap_def)
  have wf: "log_wf ?l" using cont fit by (simp add: log_wf_def l)
  have li: "last_index ?l = wal_last_index w" using last_index_eq(2) [OF wf] l len by (simp add: word_unat_eq_iff)
  have r: "rf_dirty_from ?r = None" "rf_pending ?r = ready_default" "rf_applied ?r = s"
    "rf_commit ?r = max (min (hs_commit hs) (last_index ?l)) s"
    using l(1) by (simp_all add: raft_restore_def Let_def raft_new_def)
  have "list_all rec_ok es" using wal_rep_index(3) [OF rep] es by (simp add: list_all_iff)
  moreover have "s \<le> rf_commit ?r" "rf_commit ?r \<le> last_index ?l" using last li r(4) by simp_all
  moreover have clean: "clean_to ?r = unat (wal_last_index w) + 1" by (simp only: clean_to_def r li option.case)
  ultimately have "indices_ok ?r" using wf r l li last by (simp add: indices_ok_def ready_default_def word_le_nat_alt)
  moreover have "log_at w (log_entries cs) j = log_get ?l j" if "s < j" for j
  proof -
    have j: "unat s < unat j" using that by (simp add: word_less_nat_alt)
    then have "?n + (unat j - unat s - 1) = unat j - unat (wal_first_index w)" using first by linarith
    then have "es ! (unat j - unat s - 1) = log_entries cs ! (unat j - unat (wal_first_index w))"
      using n by (simp only: drop nth_drop)
    moreover have "log_get ?l j = (if unat j \<le> unat (wal_last_index w) then Some (es ! (unat j - unat s - 1)) else None)"
      using log_get_eq [OF wf, of j] j len by (simp only: l) simp
    ultimately show ?thesis using j first ln by (simp add: log_at_def Let_def)
  qed
  ultimately show ?thesis using clean r li l by (simp add: tracked_def in_sync_def ready_default_def)
qed

text \<open>The snapshot found on disk lies inside the log found on disk.\<close>

definition overlapping :: "recovered \<Rightarrow> bool" where
  "overlapping rc \<longleftrightarrow> unat (wal_first_index (rc_wal rc)) \<le> unat (snap_of rc) + 1 \<and> snap_of rc \<le> wal_last_index (rc_wal rc) \<and>
     (rc_snapshot rc = None \<or> voters (log_config (log_restore (rc_snapshot rc) (rc_entries rc))) \<noteq> {})"

text \<open>
  C14: Crash and restart close the circle. Whenever the disk mirrors the core, then after any power
  cut, if the snapshot that is recovered lies inside the recovered log and leaves a configuration
  with voters, the node starts again and the restarted driver mirrors its disk.
\<close>

theorem restart_mirrored:
  assumes "mirrored dr" and "crash_disk pol (snd (dr_disk dr)) g = Some (d, g')" and "0 < wo_segment_bytes (no_wal opts)"
    and "wal_open (no_wal opts) (boot_disk d) = (Inr rc, d')" and "overlapping rc"
  shows "\<exists>dr'. driver_start node opts (boot_disk d) = (Inr dr', d') \<and> mirrored dr'"
proof -
  obtain w d0 cs where dd: "dr_disk dr = (w, d0)" and rep: "wal_rep w d0 cs" and sy: "synced cs"
    using assms(1) unfolding mirrored_def by blast
  have crash: "crash_disk pol d0 g = Some (d, g')" using assms(2) dd by simp
  have rc: "wal_rep (rc_wal rc) d' cs" "rc_entries rc = filter (\<lambda>e. snap_of rc < e_index e) (log_entries cs)"
    using synced_recovery [OF rep sy crash assms(3)] assms(4) by auto
  obtain dr' where start: "driver_start node opts (boot_disk d) = (Inr dr', d')"
    and fields: "dr_disk dr' = (rc_wal rc, d')"
    "dr_raft dr' = raft_restore node (no_raft opts) (rc_hard_state rc) (rc_snapshot rc) (rc_entries rc) (no_bootstrap opts)"
    using assms(4) by (simp add: driver_start_def Let_def)
  have "mirrored dr'"
    unfolding mirrored_def fields
    using restored_tracked [OF rc snap_of_def] assms(5) rc(1) sy by (auto simp: overlapping_def)
  then show ?thesis using start by blast
qed

subsection \<open>A follower that answers a heartbeat\<close>

definition beat :: driver_event where
  "beat = EvWire 2 (message_new 0 (HeartbeatReq 0 7))"

definition one_driver :: "wal_disk \<Rightarrow> driver" where
  "one_driver s = \<lparr>dr_raft = raft_restore 1 default_options default_hard_state None [one_entry] (simple_config [1, 2]),
     dr_kv = kv_new, dr_disk = s, dr_writes = Map.empty, dr_reads = Map.empty, dr_was_leader = False, dr_digest = [],
     dr_metrics = metrics_zero, dr_public = public_default, dr_sent = []\<rparr>"

lemma beat_step:
  assumes "rf_term r = 0" "rf_role r = Follower" "rf_pending r = ready_default"
  shows "step r 2 (message_new 0 (HeartbeatReq 0 7)) = r\<lparr>rf_leader := Some 2, rf_election_elapsed := 0,
    rf_pending := ready_default\<lparr>rdy_messages := [(2, message_new 0 (HeartbeatResp 7))]\<rparr>\<rparr>"
  using assms by (simp add: step_def step_body_def message_new_def handle_heartbeat_def defer_to_def send_def push_message_def
      Let_def ready_default_def is_pre_vote_def)

lemma one_driver_raft:
  "rf_term (dr_raft (one_driver s)) = 0" "rf_role (dr_raft (one_driver s)) = Follower" "rf_pending (dr_raft (one_driver s)) = ready_default"
  "rf_dirty_from (dr_raft (one_driver s)) = None" "rf_hard_state_dirty (dr_raft (one_driver s)) = False"
  "dr_was_leader (one_driver s) = False" "dr_disk (one_driver s) = s" "dr_reads (one_driver s) = Map.empty" "dr_sent (one_driver s) = []"
  by (simp_all add: one_driver_def raft_restore_def Let_def raft_new_def default_hard_state_def)

definition one_safe :: node_disk where
  "one_safe = put_file one_disk (name_for 1) (one_file\<lparr>fs_durable := recs [one_entry], fs_pending := []\<rparr>)"

lemma one_safe_rep:
  obtains w cs where "wal_rep w one_safe cs" "synced cs" "log_entries cs = [one_entry]" "wal_first_index w = 1" "wal_last_index w = 1"
proof -
  from one_synced obtain w where run: "wal_sync (one_wal, one_disk) = (Inr (), (w, one_safe))" unfolding one_safe_def by blast
  with wal_sync_run [OF one_wal_rep] obtain cs where rep: "wal_rep w one_safe cs" and dur: "durable_entries cs = [one_entry]"
    and log: "log_entries cs = [one_entry]" and first: "wal_first_index w = 1" by (auto simp: one_wal_indices)
  have "unat (wal_last_index w) = 1" using wal_last_unat [OF rep] log first by simp
  then have "wal_last_index w = 1" by (simp add: word_unat_eq_iff)
  then show ?thesis using that [OF rep] dur log first by (simp add: synced_def)
qed

lemma one_driver_log: "l_snapshot_index (rf_log (dr_raft (one_driver s))) = 0"
  by (simp add: one_driver_def raft_restore_def Let_def log_restore_def log_new_def log_append_def log_bootstrap_def)

lemma one_driver_mirrored:
  "\<exists>w. mirrored (one_driver (w, one_safe)) \<and> last_index (rf_log (dr_raft (one_driver (w, one_safe)))) = 1 \<and>
     log_get (rf_log (dr_raft (one_driver (w, one_safe)))) 1 = Some one_entry"
proof -
  obtain w cs where rep: "wal_rep w one_safe cs" and sy: "synced cs" and log: "log_entries cs = [one_entry]"
    and first: "wal_first_index w = 1" and last: "wal_last_index w = 1" by (rule one_safe_rep)
  have t: "tracked (log_at w (log_entries cs)) (wal_last_index w) (dr_raft (one_driver (w, one_safe)))"
    unfolding one_driver_def driver.simps
    by (rule restored_tracked [OF rep, of _ 0]) (simp_all add: log first one_entry_ok(2))
  then have m: "mirrored (one_driver (w, one_safe))" unfolding mirrored_def one_driver_raft
    by (intro exI [of _ w] exI [of _ one_safe] exI [of _ cs]) (simp add: rep sy)
  have li: "last_index (rf_log (dr_raft (one_driver (w, one_safe)))) = 1"
    using t last one_driver_raft(3,4) by (simp add: tracked_def in_sync_def ready_default_def)
  have "log_at w (log_entries cs) 1 = Some one_entry" using find_log_at [OF rep, of 1] log one_entry_ok(2) by simp
  then have "log_get (rf_log (dr_raft (one_driver (w, one_safe)))) 1 = Some one_entry"
    using t li one_driver_raft(3,4) one_driver_log [of "(w, one_safe)"] by (simp add: tracked_def in_sync_def ready_default_def clean_to_def)
  with m li show ?thesis by blast
qed

lemma beat_turn:
  assumes m: "mirrored (one_driver s)" and last: "last_index (rf_log (dr_raft (one_driver s))) = 1"
  shows "batch_ok (one_driver s) [beat]"
    and "rdy_snapshot (rf_pending (dr_raft (foldl handle_event (one_driver s) [beat]))) = None"
    and "writes_succeed None (leadership_change (foldl handle_event (one_driver s) [beat]))"
    and "\<exists>dr'. driver_cycle None False [beat] (one_driver s) = (Inr (), dr') \<and>
      dr_sent dr' \<noteq> dr_sent (leadership_change (foldl handle_event (one_driver s) [beat]))"
proof -
  let ?dr = "handle_event (one_driver s) beat" and ?s = "leadership_change (foldl handle_event (one_driver s) [beat])"
  have raft: "dr_raft ?dr = (dr_raft (one_driver s))\<lparr>rf_leader := Some 2, rf_election_elapsed := 0,
      rf_pending := ready_default\<lparr>rdy_messages := [(2, message_new 0 (HeartbeatResp 7))]\<rparr>\<rparr>"
    using beat_step [OF one_driver_raft(1-3)] by (simp add: handle_event_def beat_def)
  show ok: "batch_ok (one_driver s) [beat]"
    using last raft by (simp add: event_ok_def room_def beat_def message_ok_def message_new_def)
  show "rdy_snapshot (rf_pending (dr_raft (foldl handle_event (one_driver s) [beat]))) = None"
    using raft by (simp add: ready_default_def)
  have rd: "\<not> needs_durability (fst (take_ready (dr_raft ?s)))" "length (rdy_messages (fst (take_ready (dr_raft ?s)))) = 1"
    using raft one_driver_raft(4,5) by (simp_all add: take_ready_def needs_durability_def ready_default_def Let_def)
  have quick: "persist quota x None dr = (Inr (), dr)" if "\<not> needs_durability x" for quota x dr
    using that by (simp add: persist_def io_bind_def io_return_def)
  have "truncate_to (dr_raft ?s) = None" using raft one_driver_raft(4) by (simp add: truncate_to_def)
  then show w: "writes_succeed None ?s" using rd(1) by (auto simp: writes_succeed_def quick split: prod.split)
  note b = mirrored_batch [OF m ok]
  show "\<exists>dr'. driver_cycle None False [beat] (one_driver s) = (Inr (), dr') \<and> dr_sent dr' \<noteq> dr_sent ?s"
  proof (rule written_cycle [OF b w, of False])
    fix dr' assume a: "ready_cycle None False ?s = (Inr (), dr')"
      "length (dr_sent ?s) + length (rdy_messages (fst (take_ready (dr_raft ?s)))) \<le> length (dr_sent dr')"
    then have "dr_sent dr' \<noteq> dr_sent ?s" using rd(2) by auto
    then show ?thesis using a(1) by (simp add: driver_cycle_def)
  qed
qed

theorem cycle_keeps_mirror_witness:
  "\<exists>s dr'. mirrored (one_driver s) \<and> driver_cycle None False [beat] (one_driver s) = (Inr (), dr') \<and> mirrored dr'"
proof -
  obtain w where m: "mirrored (one_driver (w, one_safe))" and last: "last_index (rf_log (dr_raft (one_driver (w, one_safe)))) = 1"
    using one_driver_mirrored by blast
  let ?s = "(w, one_safe)"
  note t = beat_turn [OF m last]
  obtain dr' where run: "driver_cycle None False [beat] (one_driver ?s) = (Inr (), dr')" using t(4) by blast
  from cycle_keeps_mirror [OF m t(1) run] t(2) have "mirrored dr'" by blast
  then show ?thesis using m run by blast
qed


lemma file_len_open [simp]: "file_len (snd (open_file n d)) m = file_len d m"
  by (simp add: file_len_def open_file_def put_file_def file_new_def split: option.split)

lemma assemble_snapshot: "wal_assemble opts hs sq snap ssq k ry d = (Inr rc, d') \<Longrightarrow> rc_snapshot rc = snap"
  unfolding wal_assemble_def Let_def by (split prod.split_asm, split prod.split_asm, split sum.split_asm) auto

lemma no_snapshot:
  assumes "file_len d (snapshot_name 0) = 0" and "file_len d (snapshot_name 1) = 0" and run: "wal_open opts d = (Inr rc, d')"
  shows "rc_snapshot rc = None"
proof -
  define d0 where "d0 = snd (open_file ''state'' d)"
  have "\<exists>d2. recover_snapshot d0 = (Inr (None, 0, 0), d2)"
    using assms(1,2) unfolding recover_snapshot_def d0_def
    by (simp add: bind_open Let_def read_snapshot_def HEADER_def better_snapshot_def)
  then obtain d2 where snap: "recover_snapshot d0 = (Inr (None, 0, 0), d2)" by blast
  obtain hs seq where hs: "read_hard_state d0 = (hs, seq)" by (cases "read_hard_state d0")
  have "wal_open opts d = io_bind list_files (\<lambda>names. io_bind (recover_segments (segment_names names)
      \<lparr>ry_segments = [], ry_entries = [], ry_tail = Clean, ry_truncated = 0\<rparr>) (wal_assemble opts hs seq None 0 0)) d2"
    unfolding wal_open_def by (simp add: bind_open d0_def [symmetric] hs) (simp add: io_bind_def snap)
  then have "io_bind list_files (\<lambda>names. io_bind (recover_segments (segment_names names)
      \<lparr>ry_segments = [], ry_entries = [], ry_tail = Clean, ry_truncated = 0\<rparr>) (wal_assemble opts hs seq None 0 0)) d2 = (Inr rc, d')"
    using run by simp
  then show ?thesis unfolding io_bind_Inr using assemble_snapshot by blast
qed

lemma one_safe_crash: "crash_disk default_disk one_safe (from_seed 1) = Some (one_safe\<lparr>nd_up := False\<rparr>, from_seed 1)"
  by (simp add: crash_disk_def power_loss_def one_safe_def one_disk_def put_file_def power_loss_file_def settle_def one_file_def
      rand_bind_def rand_return_def)

lemma one_safe_no_snapshot: "file_len (boot_disk (one_safe\<lparr>nd_up := False\<rparr>)) (snapshot_name k) = 0"
proof -
  have "snapshot_name k \<noteq> name_for 1" using other_names(2) [of k] by (metis index_from_name_for option.discI)
  then show ?thesis by (simp add: file_len_def boot_disk_def one_safe_def one_disk_def put_file_def)
qed


theorem restart_mirrored_witness:
  "\<exists>s d dr'. mirrored (one_driver s) \<and> crash_disk default_disk (snd s) (from_seed 1) = Some (d, from_seed 1) \<and>
     driver_start 1 \<lparr>no_raft = default_options, no_wal = default_wal_options, no_bootstrap = simple_config [1, 2], no_inspect = False\<rparr>
       (boot_disk d) = (Inr dr', snd (dr_disk dr')) \<and> mirrored dr'"
proof -
  let ?o = "\<lparr>no_raft = default_options, no_wal = default_wal_options, no_bootstrap = simple_config [1, 2], no_inspect = False\<rparr>"
  let ?d = "one_safe\<lparr>nd_up := False\<rparr>"
  obtain w where m: "mirrored (one_driver (w, one_safe))" using one_driver_mirrored by blast
  note crash = one_safe_crash
  have pos: "0 < wo_segment_bytes (no_wal ?o)" by (simp add: default_wal_options_def)
  obtain w0 cs where rep: "wal_rep w0 one_safe cs" and sy: "synced cs" and log: "log_entries cs = [one_entry]" by (rule one_safe_rep)
  from synced_recovery [OF rep sy crash pos] obtain rc d' where rc: "wal_open (no_wal ?o) (boot_disk ?d) = (Inr rc, d')"
    "wal_rep (rc_wal rc) d' cs" by blast
  have none: "rc_snapshot rc = None" by (rule no_snapshot [OF one_safe_no_snapshot one_safe_no_snapshot rc(1)])
  have "wal_first_index (rc_wal rc) = 1" using wal_rep_index(1) [OF rc(2)] log one_entry_ok(2) by simp
  then have "overlapping rc" using none by (simp add: overlapping_def snap_of_def)
  from restart_mirrored [OF m _ pos rc(1) this, of default_disk "from_seed 1" "from_seed 1" 1] crash
  obtain dr' where start: "driver_start 1 ?o (boot_disk ?d) = (Inr dr', d')" "mirrored dr'" by (auto simp: one_driver_raft)
  have "d' = snd (dr_disk dr')" using start(1) rc(1) by (auto simp: driver_start_def Let_def)
  then show ?thesis using m crash start by (intro exI [of _ "(w, one_safe)"] exI [of _ ?d] exI [of _ dr']) simp
qed

subsection \<open>What a failed cycle forgets\<close>

text \<open>
  The comment on a full disk says that the same Ready is generated again in the next cycle. The
  entries are, because the watermark stays; the hard state and the snapshot are not. A term and a
  vote that could not be saved are not asked for again until the state next changes, although they
  still differ from what is on disk, and a snapshot that could not be saved is never offered to the
  driver again, although the core has already moved its log and applied index past it.
\<close>

lemma quiet_ready:
  assumes "rf_pending r = ready_default" and "\<not> rf_hard_state_dirty r"
  shows "rdy_hard_state (fst (take_ready r)) = None" and "rdy_snapshot (fst (take_ready r)) = None"
  using assms by (cases "rf_dirty_from r"; simp add: take_ready_def Let_def ready_default_def)+

lemma failed_cycle_forgets:
  "rdy_hard_state (fst (take_ready (snd (take_ready r)))) = None" "rdy_snapshot (fst (take_ready (snd (take_ready r)))) = None"
  "rf_term (snd (take_ready r)) = rf_term r" "rf_persisted_hard_state (snd (take_ready r)) = rf_persisted_hard_state r"
  "rf_applied (snd (take_ready r)) = rf_applied r" "rf_log (snd (take_ready r)) = rf_log r"
proof -
  have "rf_pending (snd (take_ready r)) = ready_default" "\<not> rf_hard_state_dirty (snd (take_ready r))"
    by (cases "rf_dirty_from r"; cases "rf_hard_state_dirty r"; simp add: take_ready_def Let_def)+
  then show "rdy_hard_state (fst (take_ready (snd (take_ready r)))) = None" "rdy_snapshot (fst (take_ready (snd (take_ready r)))) = None"
    by (rule quiet_ready)+
  show "rf_term (snd (take_ready r)) = rf_term r" "rf_persisted_hard_state (snd (take_ready r)) = rf_persisted_hard_state r"
    "rf_applied (snd (take_ready r)) = rf_applied r" "rf_log (snd (take_ready r)) = rf_log r"
    by (cases "rf_dirty_from r"; cases "rf_hard_state_dirty r"; simp add: take_ready_def Let_def)+
qed

end
