(* ===== verification/Oracle_Inv.thy ===== *)
theory Oracle_Inv
  imports Node_Driver
begin

section \<open>Raft's invariants, checked from outside (chrono-oracle/src/invariants.rs)\<close>

text \<open>
  The oracle that watches the published state of every node. A view is a map from nodes to what
  they published, read in ascending order of node. The oracle keeps what it saw, because several
  properties are about the sequence of views. A violation is recorded once per property; its text
  is not modelled, only the property it names. The theorems say what an alarm means: election
  safety and leader completeness alarms are raised exactly when two observations, possibly far
  apart in time, contradict each other, and log matching exactly when two published logs do.
\<close>

subsection \<open>Views\<close>

type_synonym cluster_view = "node_id \<rightharpoonup> public_state"

definition view_nodes :: "cluster_view \<Rightarrow> (node_id \<times> public_state) list" where
  "view_nodes v = map (\<lambda>i. (i, the (v i))) (sorted_list_of_set (dom v))"

definition members :: "cluster_view \<Rightarrow> node_id set" where
  "members v =
     (case find (\<lambda>(_, s). ps_up s \<and> ps_role s = ''leader'' \<and> ps_voters s \<noteq> []) (view_nodes v) of
        Some (_, s) \<Rightarrow> set (ps_voters s)
      | None \<Rightarrow> set (concat (map (\<lambda>(_, s). ps_voters s) (view_nodes v))))"

definition leaders :: "cluster_view \<Rightarrow> (node_id \<times> raft_term) list" where
  "leaders v = map (\<lambda>(i, s). (i, ps_term s)) (filter (\<lambda>(_, s). ps_role s = ''leader'') (view_nodes v))"

subsection \<open>The oracle\<close>

record invariants =
  iv_leaders_by_term :: "raft_term \<rightharpoonup> node_id"
  iv_high_commit :: "node_id \<times> u64 \<rightharpoonup> index"
  iv_high_applied :: "node_id \<times> u64 \<rightharpoonup> index"
  iv_committed_terms :: "index \<rightharpoonup> raft_term"
  iv_persisted :: "node_id \<times> u64 \<rightharpoonup> index"
  iv_violations :: "string list"
  iv_checks :: u64

definition invariants_new :: invariants where
  "invariants_new = \<lparr>iv_leaders_by_term = Map.empty, iv_high_commit = Map.empty, iv_high_applied = Map.empty,
     iv_committed_terms = Map.empty, iv_persisted = Map.empty, iv_violations = [], iv_checks = 0\<rparr>"

definition invariants_ok :: "invariants \<Rightarrow> bool" where
  "invariants_ok iv \<longleftrightarrow> iv_violations iv = []"

definition fail :: "string \<Rightarrow> invariants \<Rightarrow> invariants" where
  "fail p iv = (if p \<in> set (iv_violations iv) then iv else iv\<lparr>iv_violations := iv_violations iv @ [p]\<rparr>)"

definition driver_alive :: "cluster_view \<Rightarrow> invariants \<Rightarrow> invariants" where
  "driver_alive v iv = foldl (\<lambda>iv (_, s).
     case ps_driver_error s of None \<Rightarrow> iv | Some _ \<Rightarrow> fail ''DRIVER STOPPED'' iv) iv (view_nodes v)"

definition durability_node :: "invariants \<Rightarrow> node_id \<times> public_state \<Rightarrow> invariants" where
  "durability_node iv x = (case x of (i, s) \<Rightarrow>
     if \<not> ps_recovered s then iv
     else
       let iv = (if ps_generation s > 0
                  then (case iv_persisted iv (i, ps_generation s - 1) of
                          None \<Rightarrow> iv
                        | Some was \<Rightarrow> if ps_last_index s < was \<and> ps_snapshot_index s < was then fail ''DURABILITY'' iv else iv)
                  else iv);
           key = (i, ps_generation s);
           high = (case iv_persisted iv key of None \<Rightarrow> 0 | Some h \<Rightarrow> h);
           safe = min (ps_persisted_index s) (ps_commit_index s)
       in iv\<lparr>iv_persisted := (iv_persisted iv)(key \<mapsto> max high safe)\<rparr>)"

definition durability :: "cluster_view \<Rightarrow> invariants \<Rightarrow> invariants" where
  "durability v iv = foldl durability_node iv (view_nodes v)"

definition saw_leader :: "invariants \<Rightarrow> node_id \<times> raft_term \<Rightarrow> invariants" where
  "saw_leader iv x = (case x of (i, t) \<Rightarrow>
     (case iv_leaders_by_term iv t of
        Some prev \<Rightarrow> if prev \<noteq> i then fail ''ELECTION SAFETY'' iv
                     else iv\<lparr>iv_leaders_by_term := (iv_leaders_by_term iv)(t \<mapsto> i)\<rparr>
      | None \<Rightarrow> iv\<lparr>iv_leaders_by_term := (iv_leaders_by_term iv)(t \<mapsto> i)\<rparr>))"

definition one_leader :: "cluster_view \<Rightarrow> invariants \<Rightarrow> invariants" where
  "one_leader v iv = foldl saw_leader iv (leaders v)"

definition monotone_node :: "invariants \<Rightarrow> node_id \<times> public_state \<Rightarrow> invariants" where
  "monotone_node iv x = (case x of (i, s) \<Rightarrow>
     let key = (i, ps_generation s);
         prev_c = (case iv_high_commit iv key of None \<Rightarrow> 0 | Some h \<Rightarrow> h);
         iv = (if ps_commit_index s < prev_c then fail ''COMMIT MONOTONICITY'' iv else iv);
         iv = iv\<lparr>iv_high_commit := (iv_high_commit iv)(key \<mapsto> max prev_c (ps_commit_index s))\<rparr>;
         prev_a = (case iv_high_applied iv key of None \<Rightarrow> 0 | Some h \<Rightarrow> h);
         iv = (if ps_applied_index s < prev_a then fail ''APPLY MONOTONICITY'' iv else iv)
     in iv\<lparr>iv_high_applied := (iv_high_applied iv)(key \<mapsto> max prev_a (ps_applied_index s))\<rparr>)"

definition monotonicity :: "cluster_view \<Rightarrow> invariants \<Rightarrow> invariants" where
  "monotonicity v iv = foldl monotone_node iv (view_nodes v)"

text \<open>All pairs of a list in the order of two nested index loops.\<close>

fun pairs :: "'a list \<Rightarrow> ('a \<times> 'a) list" where
  "pairs [] = []"
| "pairs (x # xs) = map (Pair x) xs @ pairs xs"

text \<open>Collecting an association list into a map lets a later pair of a key win.\<close>

definition collect_map :: "('k \<times> 'v) list \<Rightarrow> 'k \<rightharpoonup> 'v" where
  "collect_map xs = map_of (rev xs)"

definition log_clash :: "(index \<times> raft_term) list \<Rightarrow> (index \<times> raft_term) list \<Rightarrow> bool" where
  "log_clash a b =
     (let am = collect_map a in
      case find (\<lambda>(i, t). am i = Some t) (rev b) of
        None \<Rightarrow> False
      | Some (m, _) \<Rightarrow> list_ex (\<lambda>(i, t). i \<le> m \<and> (case am i of None \<Rightarrow> False | Some t' \<Rightarrow> t' \<noteq> t)) b)"

definition log_matching :: "cluster_view \<Rightarrow> invariants \<Rightarrow> invariants" where
  "log_matching v iv =
     (let nodes = filter (\<lambda>(_, s). ps_log_terms s \<noteq> []) (view_nodes v) in
      if list_ex (\<lambda>((_, a), (_, b)). log_clash (ps_log_terms a) (ps_log_terms b)) (pairs nodes)
      then fail ''LOG MATCHING'' iv else iv)"

definition apply_clash :: "(index \<times> u64) list \<Rightarrow> (index \<times> u64) list \<Rightarrow> bool" where
  "apply_clash a b =
     (let am = collect_map a in
      list_ex (\<lambda>(i, h). case am i of None \<Rightarrow> False | Some h' \<Rightarrow> h' \<noteq> h) b)"

definition state_machine_safety :: "cluster_view \<Rightarrow> invariants \<Rightarrow> invariants" where
  "state_machine_safety v iv =
     (let nodes = filter (\<lambda>(_, s). ps_apply_checkpoints s \<noteq> []) (view_nodes v) in
      if list_ex (\<lambda>((_, a), (_, b)). apply_clash (ps_apply_checkpoints a) (ps_apply_checkpoints b)) (pairs nodes)
      then fail ''STATE MACHINE SAFETY'' iv else iv)"

text \<open>The loop over one node's log stops at its commit index; a contradiction ends the whole check.\<close>

fun note_committed :: "index \<Rightarrow> (index \<times> raft_term) list \<Rightarrow> invariants \<Rightarrow> bool \<times> invariants" where
  "note_committed c [] iv = (False, iv)"
| "note_committed c ((i, t) # rest) iv =
     (if i > c then (False, iv)
      else case iv_committed_terms iv i of
          Some known \<Rightarrow> if known \<noteq> t then (True, fail ''LEADER COMPLETENESS'' iv)
                        else note_committed c rest (iv\<lparr>iv_committed_terms := (iv_committed_terms iv)(i \<mapsto> t)\<rparr>)
        | None \<Rightarrow> note_committed c rest (iv\<lparr>iv_committed_terms := (iv_committed_terms iv)(i \<mapsto> t)\<rparr>))"

fun complete_nodes :: "(node_id \<times> public_state) list \<Rightarrow> invariants \<Rightarrow> invariants" where
  "complete_nodes [] iv = iv"
| "complete_nodes ((_, s) # rest) iv =
     (case note_committed (ps_commit_index s) (ps_log_terms s) iv of
        (True, iv) \<Rightarrow> iv
      | (False, iv) \<Rightarrow> complete_nodes rest iv)"

definition leader_completeness :: "cluster_view \<Rightarrow> invariants \<Rightarrow> invariants" where
  "leader_completeness v iv = complete_nodes (view_nodes v) iv"

definition backed_node :: "invariants \<Rightarrow> node_id \<times> public_state \<Rightarrow> invariants" where
  "backed_node iv x = (case x of (_, s) \<Rightarrow>
     let iv = (if ps_commit_index s > ps_last_index s then fail ''COMMIT BEYOND LOG'' iv else iv)
     in if ps_applied_index s > ps_commit_index s then fail ''APPLIED BEYOND COMMIT'' iv else iv)"

definition commit_is_backed_by_a_log :: "cluster_view \<Rightarrow> invariants \<Rightarrow> invariants" where
  "commit_is_backed_by_a_log v iv = foldl backed_node iv (view_nodes v)"

definition invariants_check :: "invariants \<Rightarrow> cluster_view \<Rightarrow> invariants" where
  "invariants_check iv v =
     commit_is_backed_by_a_log v (leader_completeness v (state_machine_safety v (log_matching v
       (monotonicity v (one_leader v (durability v (driver_alive v
         (iv\<lparr>iv_checks := iv_checks iv + 1\<rparr>))))))))"

subsection \<open>What each check touches\<close>

lemma fail_simps [simp]:
  "q \<in> set (iv_violations (fail p iv)) \<longleftrightarrow> q = p \<or> q \<in> set (iv_violations iv)"
  "iv_leaders_by_term (fail p iv) = iv_leaders_by_term iv" "iv_committed_terms (fail p iv) = iv_committed_terms iv"
  by (auto simp: fail_def)

lemma foldl_frame: "(\<And>s x. g (f s x) = g s) \<Longrightarrow> g (foldl f s xs) = g s"
  by (induction xs arbitrary: s) simp_all

abbreviation raised :: "string \<Rightarrow> invariants \<Rightarrow> bool" where
  "raised p iv \<equiv> p \<in> set (iv_violations iv)"

text \<open>The checks before and after one check leave its memory and its alarm alone.\<close>

lemma alive_frame [simp]:
  "iv_leaders_by_term (driver_alive v iv) = iv_leaders_by_term iv" "iv_committed_terms (driver_alive v iv) = iv_committed_terms iv"
  "p \<noteq> ''DRIVER STOPPED'' \<Longrightarrow> raised p (driver_alive v iv) = raised p iv"
  unfolding driver_alive_def by (rule foldl_frame, simp split: prod.split option.split)+

lemma durability_frame [simp]:
  "iv_leaders_by_term (durability v iv) = iv_leaders_by_term iv" "iv_committed_terms (durability v iv) = iv_committed_terms iv"
  "p \<noteq> ''DURABILITY'' \<Longrightarrow> raised p (durability v iv) = raised p iv"
  unfolding durability_def by (rule foldl_frame, simp add: durability_node_def Let_def split: prod.split option.split)+

lemma one_leader_frame [simp]:
  "iv_committed_terms (one_leader v iv) = iv_committed_terms iv"
  "p \<noteq> ''ELECTION SAFETY'' \<Longrightarrow> raised p (one_leader v iv) = raised p iv"
  unfolding one_leader_def by (rule foldl_frame, simp add: saw_leader_def split: prod.split option.split)+

lemma monotonicity_frame [simp]:
  "iv_leaders_by_term (monotonicity v iv) = iv_leaders_by_term iv" "iv_committed_terms (monotonicity v iv) = iv_committed_terms iv"
  "p \<noteq> ''COMMIT MONOTONICITY'' \<Longrightarrow> p \<noteq> ''APPLY MONOTONICITY'' \<Longrightarrow> raised p (monotonicity v iv) = raised p iv"
  unfolding monotonicity_def by (rule foldl_frame, simp add: monotone_node_def Let_def split: prod.split)+

lemma matching_frame [simp]:
  "iv_leaders_by_term (log_matching v iv) = iv_leaders_by_term iv" "iv_committed_terms (log_matching v iv) = iv_committed_terms iv"
  "p \<noteq> ''LOG MATCHING'' \<Longrightarrow> raised p (log_matching v iv) = raised p iv"
  "iv_leaders_by_term (state_machine_safety v iv) = iv_leaders_by_term iv"
  "iv_committed_terms (state_machine_safety v iv) = iv_committed_terms iv"
  "p \<noteq> ''STATE MACHINE SAFETY'' \<Longrightarrow> raised p (state_machine_safety v iv) = raised p iv"
  by (simp_all add: log_matching_def state_machine_safety_def Let_def)

lemma note_frame:
  "note_committed c xs iv = (b, iv') \<Longrightarrow> iv_leaders_by_term iv' = iv_leaders_by_term iv \<and>
     (p \<noteq> ''LEADER COMPLETENESS'' \<longrightarrow> raised p iv' = raised p iv)"
  by (induction c xs iv rule: note_committed.induct) (auto split: if_splits option.splits)

lemma complete_frame:
  "iv_leaders_by_term (complete_nodes xs iv) = iv_leaders_by_term iv \<and>
     (p \<noteq> ''LEADER COMPLETENESS'' \<longrightarrow> raised p (complete_nodes xs iv) = raised p iv)"
  by (induction xs iv rule: complete_nodes.induct) (auto split: prod.split bool.split dest: note_frame)

lemma completeness_frame [simp]:
  "iv_leaders_by_term (leader_completeness v iv) = iv_leaders_by_term iv"
  "p \<noteq> ''LEADER COMPLETENESS'' \<Longrightarrow> raised p (leader_completeness v iv) = raised p iv"
  using complete_frame by (simp_all add: leader_completeness_def)

lemma backed_frame [simp]:
  "iv_leaders_by_term (commit_is_backed_by_a_log v iv) = iv_leaders_by_term iv"
  "iv_committed_terms (commit_is_backed_by_a_log v iv) = iv_committed_terms iv"
  "p \<noteq> ''COMMIT BEYOND LOG'' \<Longrightarrow> p \<noteq> ''APPLIED BEYOND COMMIT'' \<Longrightarrow> raised p (commit_is_backed_by_a_log v iv) = raised p iv"
  unfolding commit_is_backed_by_a_log_def by (rule foldl_frame, simp add: backed_node_def Let_def split: prod.split)+

subsection \<open>A table of first observations\<close>

text \<open>
  Two of the checks keep a table of what was first observed under a key and raise an alarm when a
  later observation differs. The alarm is exact: it is raised if and only if the observations so
  far contradict each other.
\<close>

definition contradictory :: "('k \<times> 'v) list \<Rightarrow> bool" where
  "contradictory ps \<longleftrightarrow> (\<exists>k v v'. (k, v) \<in> set ps \<and> (k, v') \<in> set ps \<and> v \<noteq> v')"

definition table_of :: "bool \<Rightarrow> ('k \<rightharpoonup> 'v) \<Rightarrow> ('k \<times> 'v) list \<Rightarrow> bool" where
  "table_of alarm m ps \<longleftrightarrow> (if alarm then contradictory ps else (\<forall>k v. m k = Some v \<longleftrightarrow> (k, v) \<in> set ps))"

lemma table_exact: "table_of alarm m ps \<Longrightarrow> alarm \<longleftrightarrow> contradictory ps"
  by (auto simp: table_of_def contradictory_def split: if_splits) (metis option.inject)

lemma contradictory_more: "contradictory ps \<Longrightarrow> set ps \<subseteq> set qs \<Longrightarrow> contradictory qs"
  by (auto simp: contradictory_def)

lemma table_agree:
  assumes "table_of alarm m ps" and "m k = None \<or> m k = Some v"
  shows "table_of alarm (m(k \<mapsto> v)) (ps @ [(k, v)])"
proof (cases alarm)
  case True
  then show ?thesis using assms(1) contradictory_more [of ps "ps @ [(k, v)]"] by (simp add: table_of_def subset_insertI)
next
  case False
  then have m: "\<And>k v. m k = Some v \<longleftrightarrow> (k, v) \<in> set ps" using assms(1) by (simp add: table_of_def)
  have "(m(k \<mapsto> v)) k' = Some v' \<longleftrightarrow> (k', v') \<in> set (ps @ [(k, v)])" for k' v'
    using m [of k v] m [of k v'] m [of k' v'] assms(2) by (cases "k' = k") auto
  then show ?thesis using False by (simp add: table_of_def)
qed

lemma table_differ:
  assumes "table_of alarm m ps" and "m k = Some v'" and "v' \<noteq> v"
  shows "table_of True m (ps @ [(k, v)])"
proof (cases alarm)
  case True
  then show ?thesis using assms(1) contradictory_more [of ps "ps @ [(k, v)]"] by (simp add: table_of_def subset_insertI)
next
  case False
  then have "(k, v') \<in> set ps" using assms by (simp add: table_of_def)
  then have "contradictory (ps @ [(k, v)])" using assms(3) unfolding contradictory_def by (metis in_set_conv_decomp in_set_conv_decomp_first Un_iff set_append)
  then show ?thesis by (simp add: table_of_def)
qed

subsection \<open>Election safety\<close>

lemma leader_table:
  "table_of (raised ''ELECTION SAFETY'' iv) (iv_leaders_by_term iv) ps \<Longrightarrow>
   table_of (raised ''ELECTION SAFETY'' (foldl saw_leader iv ls)) (iv_leaders_by_term (foldl saw_leader iv ls))
     (ps @ map (\<lambda>(i, t). (t, i)) ls)"
proof (induction ls arbitrary: iv ps)
  case (Cons x ls)
  obtain i t where x: "x = (i, t)" by (cases x)
  have "table_of (raised ''ELECTION SAFETY'' (saw_leader iv x)) (iv_leaders_by_term (saw_leader iv x)) (ps @ [(t, i)])"
    using Cons.prems table_agree [OF Cons.prems, of t i] table_differ [OF Cons.prems, of t _ i]
    by (cases "iv_leaders_by_term iv t") (auto simp: saw_leader_def x)
  from Cons.IH [OF this] show ?case by (simp add: x)
qed simp

lemma leaders_checked:
  "table_of (raised ''ELECTION SAFETY'' iv) (iv_leaders_by_term iv) ps \<Longrightarrow>
   table_of (raised ''ELECTION SAFETY'' (foldl invariants_check iv vs)) (iv_leaders_by_term (foldl invariants_check iv vs))
     (ps @ map (\<lambda>(i, t). (t, i)) (concat (map leaders vs)))"
proof (induction vs arbitrary: iv ps)
  case (Cons v vs)
  let ?iv = "durability v (driver_alive v (iv\<lparr>iv_checks := iv_checks iv + 1\<rparr>))"
  have "table_of (raised ''ELECTION SAFETY'' ?iv) (iv_leaders_by_term ?iv) ps" using Cons.prems by simp
  from leader_table [OF this, of "leaders v"] have
    "table_of (raised ''ELECTION SAFETY'' (invariants_check iv v)) (iv_leaders_by_term (invariants_check iv v))
       (ps @ map (\<lambda>(i, t). (t, i)) (leaders v))" by (simp add: invariants_check_def one_leader_def)
  from Cons.IH [OF this] show ?case by simp
qed simp

lemma election_alarm_iff:
  "raised ''ELECTION SAFETY'' (foldl invariants_check invariants_new vs) \<longleftrightarrow>
   (\<exists>v \<in> set vs. \<exists>v' \<in> set vs. \<exists>i j t. (i, t) \<in> set (leaders v) \<and> (j, t) \<in> set (leaders v') \<and> i \<noteq> j)"
proof -
  have "table_of (raised ''ELECTION SAFETY'' invariants_new) (iv_leaders_by_term invariants_new) []"
    by (simp add: table_of_def invariants_new_def)
  note exact = table_exact [OF leaders_checked [OF this, of vs]]
  have "(t, i) \<in> set ([] @ map (\<lambda>(i, t). (t, i)) (concat (map leaders vs))) \<longleftrightarrow> (\<exists>v \<in> set vs. (i, t) \<in> set (leaders v))" for i t
    by force
  then show ?thesis unfolding exact contradictory_def by blast
qed

text \<open>
  C21: The election alarm is exact. After any sequence of views it has been raised if and only if
  two nodes were seen leading the same term, in one view or in two views at any distance in time.
\<close>

theorem election_alarm_exact:
  "raised ''ELECTION SAFETY'' (foldl invariants_check invariants_new vs) \<longleftrightarrow>
   (\<exists>v \<in> set vs. \<exists>v' \<in> set vs. \<exists>i j t. (i, t) \<in> set (leaders v) \<and> (j, t) \<in> set (leaders v') \<and> i \<noteq> j)"
  by (rule election_alarm_iff)

subsection \<open>Leader completeness\<close>

text \<open>What a view claims to be committed, node by node.\<close>

definition claims :: "cluster_view \<Rightarrow> (index \<times> raft_term) list" where
  "claims v = concat (map (\<lambda>(_, s). takeWhile (\<lambda>(i, _). i \<le> ps_commit_index s) (ps_log_terms s)) (view_nodes v))"

lemma note_table:
  "table_of (raised ''LEADER COMPLETENESS'' iv) (iv_committed_terms iv) ps \<Longrightarrow> note_committed c xs iv = (b, iv') \<Longrightarrow>
   table_of (raised ''LEADER COMPLETENESS'' iv') (iv_committed_terms iv') (ps @ takeWhile (\<lambda>(i, _). i \<le> c) xs) \<and>
   (b \<longrightarrow> raised ''LEADER COMPLETENESS'' iv')"
proof (induction c xs iv arbitrary: ps rule: note_committed.induct)
  case (2 c i t rest iv)
  let ?iv = "iv\<lparr>iv_committed_terms := (iv_committed_terms iv)(i \<mapsto> t)\<rparr>"
  show ?case
  proof (cases "i > c")
    case False
    then consider (new) "iv_committed_terms iv i = None \<or> iv_committed_terms iv i = Some t"
      | (old) k where "iv_committed_terms iv i = Some k" "k \<noteq> t" by (cases "iv_committed_terms iv i") auto
    then show ?thesis
    proof cases
      case new
      have tab: "table_of (raised ''LEADER COMPLETENESS'' ?iv) (iv_committed_terms ?iv) (ps @ [(i, t)])"
        using table_agree [OF 2(3) new] by simp
      have go: "note_committed c rest ?iv = (b, iv')" using 2(4) new False by auto
      have "table_of (raised ''LEADER COMPLETENESS'' iv') (iv_committed_terms iv') ((ps @ [(i, t)]) @ takeWhile (\<lambda>(i, _). i \<le> c) rest) \<and>
          (b \<longrightarrow> raised ''LEADER COMPLETENESS'' iv')"
      proof (cases "iv_committed_terms iv i")
        case None
        show ?thesis using "2.IH"(1) [OF _ None tab go] False by blast
      next
        case (Some k)
        then have "\<not> k \<noteq> t" using new by auto
        then show ?thesis using "2.IH"(2) [OF _ Some _ tab go] False by blast
      qed
      then show ?thesis using False by (simp add: not_less)
    next
      case old
      then have iv': "b" "iv' = fail ''LEADER COMPLETENESS'' iv" using 2(4) False by auto
      have "table_of True (iv_committed_terms iv) (ps @ [(i, t)])" using table_differ [OF 2(3) old] .
      then have "contradictory (ps @ [(i, t)])" by (simp add: table_of_def)
      then have "contradictory (ps @ takeWhile (\<lambda>(i, _). i \<le> c) ((i, t) # rest))"
        by (rule contradictory_more) (use False in auto)
      then show ?thesis using iv' by (simp add: table_of_def)
    qed
  qed (use 2 in auto)
qed auto

lemma nodes_table:
  "table_of (raised ''LEADER COMPLETENESS'' iv) (iv_committed_terms iv) ps \<Longrightarrow>
   table_of (raised ''LEADER COMPLETENESS'' (complete_nodes xs iv)) (iv_committed_terms (complete_nodes xs iv))
     (ps @ concat (map (\<lambda>(_, s). takeWhile (\<lambda>(i, _). i \<le> ps_commit_index s) (ps_log_terms s)) xs))"
proof (induction xs iv arbitrary: ps rule: complete_nodes.induct)
  case (2 n s rest iv)
  obtain b iv' where run: "note_committed (ps_commit_index s) (ps_log_terms s) iv = (b, iv')" by (metis surj_pair)
  note t = note_table [OF 2(2) run]
  show ?case
  proof (cases b)
    case True
    then have "contradictory (ps @ takeWhile (\<lambda>(i, _). i \<le> ps_commit_index s) (ps_log_terms s))" using t by (simp add: table_of_def)
    then have "contradictory (ps @ concat (map (\<lambda>(_, s). takeWhile (\<lambda>(i, _). i \<le> ps_commit_index s) (ps_log_terms s)) ((n, s) # rest)))"
      by (rule contradictory_more) auto
    then show ?thesis using True run t by (simp add: table_of_def)
  next
    case False
    then have "complete_nodes ((n, s) # rest) iv = complete_nodes rest iv'" using run by simp
    moreover have "table_of (raised ''LEADER COMPLETENESS'' (complete_nodes rest iv')) (iv_committed_terms (complete_nodes rest iv'))
        ((ps @ takeWhile (\<lambda>(i, _). i \<le> ps_commit_index s) (ps_log_terms s)) @
          concat (map (\<lambda>(_, s). takeWhile (\<lambda>(i, _). i \<le> ps_commit_index s) (ps_log_terms s)) rest))"
      using 2(1) [OF run [symmetric]] False t by blast
    ultimately show ?thesis by simp
  qed
qed simp

lemma claims_checked:
  "table_of (raised ''LEADER COMPLETENESS'' iv) (iv_committed_terms iv) ps \<Longrightarrow>
   table_of (raised ''LEADER COMPLETENESS'' (foldl invariants_check iv vs)) (iv_committed_terms (foldl invariants_check iv vs))
     (ps @ concat (map claims vs))"
proof (induction vs arbitrary: iv ps)
  case (Cons v vs)
  let ?iv = "state_machine_safety v (log_matching v (monotonicity v (one_leader v (durability v (driver_alive v
         (iv\<lparr>iv_checks := iv_checks iv + 1\<rparr>))))))"
  have "table_of (raised ''LEADER COMPLETENESS'' ?iv) (iv_committed_terms ?iv) ps" using Cons.prems by simp
  from nodes_table [OF this, of "view_nodes v"] have
    "table_of (raised ''LEADER COMPLETENESS'' (invariants_check iv v)) (iv_committed_terms (invariants_check iv v)) (ps @ claims v)"
    by (simp add: invariants_check_def leader_completeness_def claims_def)
  from Cons.IH [OF this] show ?case by simp
qed simp

text \<open>
  The leader completeness alarm is exact. After any sequence of views it has been raised if and
  only if two claims of committed entries, by any nodes in any views, give one index two terms.
\<close>

lemma completeness_alarm_exact:
  "raised ''LEADER COMPLETENESS'' (foldl invariants_check invariants_new vs) \<longleftrightarrow>
   (\<exists>v \<in> set vs. \<exists>v' \<in> set vs. \<exists>i t t'. (i, t) \<in> set (claims v) \<and> (i, t') \<in> set (claims v') \<and> t \<noteq> t')"
proof -
  have "table_of (raised ''LEADER COMPLETENESS'' invariants_new) (iv_committed_terms invariants_new) []"
    by (simp add: table_of_def invariants_new_def)
  note exact = table_exact [OF claims_checked [OF this, of vs]]
  have "x \<in> set ([] @ concat (map claims vs)) \<longleftrightarrow> (\<exists>v \<in> set vs. x \<in> set (claims v))" for x by simp
  then show ?thesis unfolding exact contradictory_def by blast
qed

subsection \<open>Log matching\<close>

text \<open>The property itself: two logs share an entry but differ at or below it.\<close>

definition conflicting :: "(index \<times> raft_term) list \<Rightarrow> (index \<times> raft_term) list \<Rightarrow> bool" where
  "conflicting a b \<longleftrightarrow> (\<exists>m t k ta tb. (m, t) \<in> set a \<and> (m, t) \<in> set b \<and> k \<le> m \<and> (k, ta) \<in> set a \<and> (k, tb) \<in> set b \<and> ta \<noteq> tb)"

lemma conflicting_sym: "conflicting a b \<longleftrightarrow> conflicting b a"
  unfolding conflicting_def by blast

lemma conflicting_ne: "conflicting a b \<Longrightarrow> a \<noteq> [] \<and> b \<noteq> []"
  by (auto simp: conflicting_def)

lemma sorted_not_conflicting: "sorted_wrt (<) (map fst a) \<Longrightarrow> \<not> conflicting a a"
  unfolding conflicting_def strict_sorted_iff using eq_key_imp_eq_value by fast

lemma collect_map_iff: "sorted_wrt (<) (map fst (xs :: ('k :: linorder \<times> 'v) list)) \<Longrightarrow> collect_map xs k = Some v \<longleftrightarrow> (k, v) \<in> set xs"
  by (simp add: collect_map_def strict_sorted_iff rev_map [symmetric])

lemma find_rev_max:
  "sorted_wrt (<) (map fst xs) \<Longrightarrow> find P (rev xs) = Some (m, t) \<Longrightarrow> (k, v) \<in> set xs \<Longrightarrow> P (k, v) \<Longrightarrow> k \<le> (m :: 'k :: linorder)"
proof (induction xs rule: rev_induct)
  case (snoc x xs)
  then show ?case by (cases "P x") (auto simp: sorted_wrt_append intro: less_imp_le)
qed simp

lemma log_clash_iff:
  assumes a: "sorted_wrt (<) (map fst a)" and b: "sorted_wrt (<) (map fst b)"
  shows "log_clash a b \<longleftrightarrow> conflicting a b"
proof
  assume "log_clash a b"
  then show "conflicting a b"
    by (auto simp: log_clash_def conflicting_def Let_def list_ex_iff collect_map_iff [OF a] find_Some_iff split: option.splits)
      (metis nth_mem length_rev set_rev)+
next
  assume "conflicting a b"
  then obtain m t k ta tb where c: "(m, t) \<in> set a" "(m, t) \<in> set b" "k \<le> m" "(k, ta) \<in> set a" "(k, tb) \<in> set b" "ta \<noteq> tb"
    unfolding conflicting_def by blast
  let ?P = "\<lambda>(i, t). collect_map a i = Some t"
  have p: "?P (m, t)" using c(1) by (simp add: collect_map_iff [OF a])
  then have "find ?P (rev b) \<noteq> None" using c(2) by (auto simp: find_None_iff)
  then obtain m' t' where f: "find ?P (rev b) = Some (m', t')" by auto
  have "k \<le> m'" using find_rev_max [OF b f c(2) p] c(3) by simp
  moreover have "collect_map a k = Some ta" using c(4) by (simp add: collect_map_iff [OF a])
  ultimately show "log_clash a b" using f c(5,6) by (auto simp: log_clash_def Let_def list_ex_iff)
qed

lemma pairs_cover: "x \<in> set xs \<Longrightarrow> y \<in> set xs \<Longrightarrow> x \<noteq> y \<Longrightarrow> (x, y) \<in> set (pairs xs) \<or> (y, x) \<in> set (pairs xs)"
  by (induction xs) auto

lemma pairs_sub: "(x, y) \<in> set (pairs xs) \<Longrightarrow> x \<in> set xs \<and> y \<in> set xs"
  by (induction xs) auto

lemma view_nodes_iff: "finite (dom v) \<Longrightarrow> (i, s) \<in> set (view_nodes v) \<longleftrightarrow> v i = Some s"
  by (auto simp: view_nodes_def)

text \<open>
  C22: The log matching alarm is exact. When the logs published in a view of finitely many nodes list
  their indices in order and the alarm has not been raised yet, a check raises it if and only if two
  logs in the view hold a common entry and differ at or below it.
\<close>

theorem matching_alarm_exact:
  assumes "finite (dom v)" and "\<And>i s. v i = Some s \<Longrightarrow> sorted_wrt (<) (map fst (ps_log_terms s))" and "\<not> raised ''LOG MATCHING'' iv"
  shows "raised ''LOG MATCHING'' (invariants_check iv v) \<longleftrightarrow>
    (\<exists>i j s s'. v i = Some s \<and> v j = Some s' \<and> conflicting (ps_log_terms s) (ps_log_terms s'))"
proof -
  let ?ns = "filter (\<lambda>(_, s). ps_log_terms s \<noteq> []) (view_nodes v)"
  have mem: "(i, s) \<in> set ?ns \<longleftrightarrow> v i = Some s \<and> ps_log_terms s \<noteq> []" for i s using view_nodes_iff [OF assms(1)] by simp
  have clash: "log_clash (ps_log_terms s) (ps_log_terms s') \<longleftrightarrow> conflicting (ps_log_terms s) (ps_log_terms s')"
    if "v i = Some s" "v j = Some s'" for i j s s' using log_clash_iff [OF assms(2) assms(2)] that by blast
  have self: "\<not> conflicting (ps_log_terms s) (ps_log_terms s)" if "v i = Some s" for i s
    using sorted_not_conflicting [OF assms(2) [OF that]] .
  have "raised ''LOG MATCHING'' (invariants_check iv v) \<longleftrightarrow>
      (\<exists>i s j s'. ((i, s), (j, s')) \<in> set (pairs ?ns) \<and> log_clash (ps_log_terms s) (ps_log_terms s'))"
  proof -
    have "raised ''LOG MATCHING'' (invariants_check iv v) \<longleftrightarrow>
      list_ex (\<lambda>((_, a), (_, b)). log_clash (ps_log_terms a) (ps_log_terms b)) (pairs ?ns)"
      using assms(3) by (simp add: invariants_check_def log_matching_def Let_def)
    then show ?thesis unfolding list_ex_iff Bex_def split_paired_Ex by simp
  qed
  also have "\<dots> \<longleftrightarrow> (\<exists>i j s s'. v i = Some s \<and> v j = Some s' \<and> conflicting (ps_log_terms s) (ps_log_terms s'))"
  proof
    assume "\<exists>i s j s'. ((i, s), (j, s')) \<in> set (pairs ?ns) \<and> log_clash (ps_log_terms s) (ps_log_terms s')"
    then obtain i j s s' where p: "((i, s), (j, s')) \<in> set (pairs ?ns)" "log_clash (ps_log_terms s) (ps_log_terms s')" by blast
    have "v i = Some s" "v j = Some s'" using pairs_sub [OF p(1)] mem by blast+
    then show "\<exists>i j s s'. v i = Some s \<and> v j = Some s' \<and> conflicting (ps_log_terms s) (ps_log_terms s')"
      using clash p(2) by blast
  next
    assume "\<exists>i j s s'. v i = Some s \<and> v j = Some s' \<and> conflicting (ps_log_terms s) (ps_log_terms s')"
    then obtain i j s s' where c: "v i = Some s" "v j = Some s'" "conflicting (ps_log_terms s) (ps_log_terms s')" by blast
    have n: "(i, s) \<in> set ?ns" "(j, s') \<in> set ?ns" using c(1,2) conflicting_ne [OF c(3)] mem by blast+
    have "(i, s) \<noteq> (j, s')" using self [OF c(1)] c(3) by blast
    from pairs_cover [OF n this] consider "((i, s), (j, s')) \<in> set (pairs ?ns)" | "((j, s'), (i, s)) \<in> set (pairs ?ns)" by blast
    then show "\<exists>i s j s'. ((i, s), (j, s')) \<in> set (pairs ?ns) \<and> log_clash (ps_log_terms s) (ps_log_terms s')"
    proof cases
      case 1
      then show ?thesis using clash [OF c(1,2)] c(3) by blast
    next
      case 2
      then show ?thesis using clash [OF c(2,1)] c(3) conflicting_sym by blast
    qed
  qed
  finally show ?thesis .
qed

definition torn_view :: cluster_view where
  "torn_view = [1 \<mapsto> public_default\<lparr>ps_log_terms := [(1, 1), (2, 2)]\<rparr>, 2 \<mapsto> public_default\<lparr>ps_log_terms := [(1, 3), (2, 2)]\<rparr>]"

theorem matching_alarm_exact_witness: "raised ''LOG MATCHING'' (invariants_check invariants_new torn_view)"
proof -
  have logs: "torn_view 1 = Some (public_default\<lparr>ps_log_terms := [(1, 1), (2, 2)]\<rparr>)"
    "torn_view 2 = Some (public_default\<lparr>ps_log_terms := [(1, 3), (2, 2)]\<rparr>)" by (simp_all add: torn_view_def)
  have "conflicting [(1, 1), (2, 2)] [(1, 3), (2, 2)]"
    unfolding conflicting_def by (rule exI [of _ 2], rule exI [of _ 2], rule exI [of _ 1], rule exI [of _ 1], rule exI [of _ 3]) simp
  then have "\<exists>i j s s'. torn_view i = Some s \<and> torn_view j = Some s' \<and> conflicting (ps_log_terms s) (ps_log_terms s')"
    using logs by (intro exI [of _ 1] exI [of _ 2] exI) auto
  moreover have "sorted_wrt (<) (map fst (ps_log_terms s))" if "torn_view i = Some s" for i s
    using that by (auto simp: torn_view_def split: if_splits)
  moreover have "finite (dom torn_view)" by (simp add: torn_view_def)
  ultimately show ?thesis using matching_alarm_exact [of torn_view invariants_new] by (simp add: invariants_new_def)
qed

end
