(* ===== verification/Oracle_Watch.thy ===== *)
theory Oracle_Watch
  imports Oracle_Inv
begin

section \<open>The liveness watchdog (chrono-oracle/src/liveness.rs)\<close>

text \<open>
  The oracle that catches a cluster doing nothing. It is fed one observation after another: the
  virtual time, what the nodes published, whether the environment lets the cluster work and
  whether a client waits. Its answers are stalls, recorded once per kind. The theorem says exactly
  when the absence of a leader is reported, in terms of the observations alone.
\<close>

datatype stall =
    NoLeader nanos nat nat
  | NoCommitProgress node_id u64 nanos
  | NoConvergence node_id node_id u64 nanos

record budget =
  bg_elect_within :: nanos
  bg_commit_within :: nanos
  bg_converge_within :: nanos

definition budget_default :: budget where
  "budget_default = \<lparr>bg_elect_within = from_secs 30, bg_commit_within = from_secs 30, bg_converge_within = from_secs 60\<rparr>"

record watchdog =
  wd_budget :: budget
  wd_healthy_since :: "nanos option"
  wd_best_commit :: u64
  wd_commit_moved_at :: nanos
  wd_saw_leader_at :: nanos
  wd_progress :: "node_id \<rightharpoonup> u64 \<times> nanos"
  wd_stalls :: "stall list"

definition watchdog_new :: "budget \<Rightarrow> watchdog" where
  "watchdog_new b = \<lparr>wd_budget = b, wd_healthy_since = None, wd_best_commit = 0, wd_commit_moved_at = 0,
     wd_saw_leader_at = 0, wd_progress = Map.empty, wd_stalls = []\<rparr>"

definition watchdog_ok :: "watchdog \<Rightarrow> bool" where
  "watchdog_ok w \<longleftrightarrow> wd_stalls w = []"

fun same_kind :: "stall \<Rightarrow> stall \<Rightarrow> bool" where
  "same_kind (NoLeader _ _ _) (NoLeader _ _ _) = True"
| "same_kind (NoCommitProgress _ _ _) (NoCommitProgress _ _ _) = True"
| "same_kind (NoConvergence _ _ _ _) (NoConvergence _ _ _ _) = True"
| "same_kind _ _ = False"

definition record_stall :: "stall \<Rightarrow> watchdog \<Rightarrow> watchdog" where
  "record_stall s w = (if list_ex (same_kind s) (wd_stalls w) then w else w\<lparr>wd_stalls := wd_stalls w @ [s]\<rparr>)"

text \<open>Running nodes that belong to the cluster, and the leaders among them.\<close>

definition live_nodes :: "cluster_view \<Rightarrow> (node_id \<times> public_state) list" where
  "live_nodes v = filter (\<lambda>(i, s). ps_up s \<and> (members v = {} \<or> i \<in> members v)) (view_nodes v)"

definition live_leaders :: "cluster_view \<Rightarrow> (node_id \<times> raft_term) list" where
  "live_leaders v = map (\<lambda>(i, s). (i, ps_term s)) (filter (\<lambda>(_, s). ps_role s = ''leader'') (live_nodes v))"

definition check_leader :: "nanos \<Rightarrow> nanos \<Rightarrow> cluster_view \<Rightarrow> nat \<Rightarrow> watchdog \<Rightarrow> watchdog" where
  "check_leader now healthy_for v nvoters w =
     (let voter_count = (if members v = {} then nvoters else card (members v));
          quorum = voter_count div 2 + 1
      in if live_leaders v = [] then
           if sat_sub now (wd_saw_leader_at w) > bg_elect_within (wd_budget w)
           then record_stall (NoLeader healthy_for (length (live_nodes v)) quorum) w else w
         else w\<lparr>wd_saw_leader_at := now\<rparr>)"

definition check_commit :: "nanos \<Rightarrow> nanos \<Rightarrow> cluster_view \<Rightarrow> bool \<Rightarrow> watchdog \<Rightarrow> watchdog" where
  "check_commit now healthy_for v work_pending w =
     (let best = foldl max 0 (map (\<lambda>(_, s). ps_commit_index s) (live_nodes v))
      in if best \<noteq> wd_best_commit w then w\<lparr>wd_best_commit := best, wd_commit_moved_at := now\<rparr>
         else if work_pending \<and> live_leaders v \<noteq> [] \<and> sat_sub now (wd_commit_moved_at w) > bg_commit_within (wd_budget w)
         then record_stall (NoCommitProgress (fst (hd (live_leaders v))) best healthy_for) w
         else w)"

definition note_progress :: "nanos \<Rightarrow> watchdog \<Rightarrow> node_id \<times> public_state \<Rightarrow> watchdog" where
  "note_progress now w x = (case x of (i, s) \<Rightarrow>
     let e = (case wd_progress w i of None \<Rightarrow> (ps_last_index s, now) | Some e \<Rightarrow> e);
         e = (if ps_last_index s > fst e then (ps_last_index s, now) else e)
     in w\<lparr>wd_progress := (wd_progress w)(i \<mapsto> e)\<rparr>)"

definition check_laggard :: "nanos \<Rightarrow> nanos \<Rightarrow> node_id \<Rightarrow> index \<Rightarrow> watchdog \<Rightarrow> node_id \<times> public_state \<Rightarrow> watchdog" where
  "check_laggard now healthy_for leader leader_last w x = (case x of (i, s) \<Rightarrow>
     if i = leader then w
     else let gap = sat_sub leader_last (ps_last_index s) in
          if gap = 0 then w
          else let frozen_since = (case wd_progress w i of None \<Rightarrow> now | Some (_, t) \<Rightarrow> t)
               in if sat_sub now frozen_since > bg_converge_within (wd_budget w)
                  then record_stall (NoConvergence leader i gap healthy_for) w else w)"

definition check_convergence :: "nanos \<Rightarrow> nanos \<Rightarrow> cluster_view \<Rightarrow> watchdog \<Rightarrow> watchdog" where
  "check_convergence now healthy_for v w =
     (let w = foldl (note_progress now) w (live_nodes v)
      in case live_leaders v of
           [] \<Rightarrow> w
         | (leader, _) # _ \<Rightarrow>
             let leader_last = (case find (\<lambda>(i, _). i = leader) (live_nodes v) of None \<Rightarrow> 0 | Some (_, s) \<Rightarrow> ps_last_index s)
             in foldl (check_laggard now healthy_for leader leader_last) w (live_nodes v))"

definition observe :: "nanos \<Rightarrow> cluster_view \<Rightarrow> bool \<Rightarrow> bool \<Rightarrow> nat \<Rightarrow> watchdog \<Rightarrow> watchdog" where
  "observe now v healthy work_pending nvoters w =
     (if \<not> healthy
      then w\<lparr>wd_healthy_since := None, wd_saw_leader_at := now, wd_commit_moved_at := now,
             wd_progress := (\<lambda>i. map_option (\<lambda>(l, _). (l, now)) (wd_progress w i))\<rparr>
      else
        let since = (case wd_healthy_since w of None \<Rightarrow> now | Some t \<Rightarrow> t);
            w = w\<lparr>wd_healthy_since := Some since\<rparr>;
            healthy_for = sat_sub now since
        in check_convergence now healthy_for v (check_commit now healthy_for v work_pending
             (check_leader now healthy_for v nvoters w)))"

subsection \<open>When the absence of a leader is reported\<close>





definition no_leader :: "watchdog \<Rightarrow> bool" where
  "no_leader w \<longleftrightarrow> (\<exists>h a q. NoLeader h a q \<in> set (wd_stalls w))"

lemma record_stall_frame [simp]:
  "wd_saw_leader_at (record_stall s w) = wd_saw_leader_at w" "wd_budget (record_stall s w) = wd_budget w"
  by (simp_all add: record_stall_def)

lemma record_no_leader [simp]: "no_leader (record_stall (NoLeader h a q) w)"
proof (cases "list_ex (same_kind (NoLeader h a q)) (wd_stalls w)")
  case True
  then obtain s where "s \<in> set (wd_stalls w)" "same_kind (NoLeader h a q) s" by (auto simp: list_ex_iff)
  moreover from this(2) have "\<exists>h a q. s = NoLeader h a q" by (cases s) simp_all
  ultimately show ?thesis using True by (auto simp: no_leader_def record_stall_def)
qed (auto simp: no_leader_def record_stall_def)

lemma record_other [simp]:
  "no_leader (record_stall (NoCommitProgress l c h) w) = no_leader w" "no_leader (record_stall (NoConvergence l g d h) w) = no_leader w"
  by (auto simp: no_leader_def record_stall_def)

lemma commit_frame:
  "wd_saw_leader_at (check_commit now h v p w) = wd_saw_leader_at w" "wd_budget (check_commit now h v p w) = wd_budget w"
  "no_leader (check_commit now h v p w) = no_leader w"
  by (simp_all add: check_commit_def Let_def) (simp add: no_leader_def)

lemma convergence_frame:
  "wd_saw_leader_at (check_convergence now h v w) = wd_saw_leader_at w" "wd_budget (check_convergence now h v w) = wd_budget w"
  "no_leader (check_convergence now h v w) = no_leader w"
proof -
  have prog: "wd_saw_leader_at (foldl (note_progress now) w xs) = wd_saw_leader_at w" "wd_budget (foldl (note_progress now) w xs) = wd_budget w"
    "no_leader (foldl (note_progress now) w xs) = no_leader w" for w xs
    by (rule foldl_frame, simp add: note_progress_def no_leader_def Let_def split: prod.split)+
  have lag: "wd_saw_leader_at (foldl (check_laggard now h l n) w xs) = wd_saw_leader_at w"
    "wd_budget (foldl (check_laggard now h l n) w xs) = wd_budget w" "no_leader (foldl (check_laggard now h l n) w xs) = no_leader w" for w xs l n
    by (rule foldl_frame, simp add: check_laggard_def Let_def split: prod.split)+
  show "wd_saw_leader_at (check_convergence now h v w) = wd_saw_leader_at w" "wd_budget (check_convergence now h v w) = wd_budget w"
    "no_leader (check_convergence now h v w) = no_leader w"
    by (simp_all add: check_convergence_def Let_def prog lag split: list.split)
qed

lemma observe_leader:
  "wd_budget (observe now v ok p n w) = wd_budget w"
  "wd_saw_leader_at (observe now v ok p n w) = (if ok \<and> live_leaders v = [] then wd_saw_leader_at w else now)"
  "no_leader (observe now v ok p n w) \<longleftrightarrow>
     no_leader w \<or> ok \<and> live_leaders v = [] \<and> sat_sub now (wd_saw_leader_at w) > bg_elect_within (wd_budget w)"
  by (auto simp: observe_def convergence_frame commit_frame check_leader_def Let_def) (auto simp: no_leader_def)



text \<open>
  The clock is said to start only once the environment is healthy, but before the first
  observation it stands at zero: a watchdog whose first, healthy, observation comes late reports a
  stall of zero healthy time at once.
\<close>

lemma first_observation_stalls:
  "no_leader (observe (from_secs 31) Map.empty True False 3 (watchdog_new budget_default))"
  by (simp add: observe_leader live_leaders_def live_nodes_def view_nodes_def watchdog_new_def budget_default_def
      sat_sub_def from_secs_def sat_mul_def NANOS_PER_SEC_def)

end
