(* ===== verification/Spec2Isabelle.thy ===== *)
theory Spec2Isabelle
  imports Cluster Kv_Store Sim_Time Sim_Trace Sim_Fault Sim_Disk Wal_Props Lin_Verdict Node_Cycle Oracle_Watch
begin

text \<open>
  A verification development for ChronoScope: a replicated key-value store (\<open>chronolog\<close>) on Raft,
  the deterministic simulator it runs in (\<open>chrono-sim\<close>), and the oracles that judge a run
  (\<open>chrono-oracle\<close>). Paths below are relative to \<open>src/crates/\<close>.

  \<^bold>\<open>The program and how its parts interact.\<close> A node runs a driver loop (\<open>chronolog/src/node.rs\<close>).
  Network messages, ticks and client requests arrive through a queue (\<open>chan.rs\<close>). The driver feeds
  them to the Raft core (\<open>raft.rs\<close>, on the in-memory log of \<open>log.rs\<close>), which does no I/O and hands
  back a Ready: entries, hard state and snapshot to make durable, messages to send, entries to
  apply. The driver writes them to the write-ahead log (\<open>wal.rs\<close>), syncs, and only then sends,
  applies to the store (\<open>kv.rs\<close>) and answers clients. Everything on the wire goes through
  \<open>codec.rs\<close>, \<open>types.rs\<close>, \<open>msg.rs\<close> and \<open>client.rs\<close>. Under test the disk, the clocks and the random
  numbers are those of \<open>chrono-sim\<close>, and \<open>chrono-oracle\<close> checks client histories for
  linearizability and the published state of the nodes for Raft's invariants and for progress.

  \<^bold>\<open>How code becomes definitions.\<close> Structs are records, enums are datatypes, \<open>u8\<close> to \<open>u64\<close> are words
  and wrap as in the release build, strings are char lists, a \<open>BTreeMap\<close> is a map that is
  iterated in ascending key order. A method that changes its receiver returns the new one;
  fallible calls on storage have the type \<open>('s, 'a) io\<close> of \<open>Sim_Disk\<close>, which keeps the state reached when the
  error arises. A loop without a bound of its own is a \<open>partial_function (option)\<close>.

  \<^bold>\<open>Theories.\<close>

  \<^item> \<open>Chrono_Prelude\<close>: the word, list, option and map lemmas the components share.

  \<^item> \<open>Codec\<close>, \<open>Crc32c\<close>, \<open>Wire_Msg\<close>, \<open>Client_Proto\<close> (\<open>codec.rs\<close>, \<open>msg.rs\<close>, \<open>client.rs\<close>): writers,
  readers, the checksum and the frames. The locale \<open>wire_codec\<close> is the contract of a writer and
  its reader; every message type interprets it. Shown: decoding inverts encoding, strict prefixes
  and damaged frames are rejected, and the table-driven checksum is the bit-serial one.

  \<^item> \<open>Raft_Types\<close>, \<open>Raft_Log\<close> (\<open>types.rs\<close>, \<open>log.rs\<close>): configurations, quorums, the log. Shown: quorums
  meet, also across a configuration change; the quorum index is the highest index a quorum holds;
  what a merge does at every index; compaction, snapshots and truncation of configurations.

  \<^item> \<open>Raft_Core\<close> (\<open>raft.rs\<close>): every handler of the state machine. \<open>Vote_Protocol\<close> is an abstract voting
  protocol with its invariant, \<open>Election\<close> shows that each handler makes only its moves, and
  \<open>Cluster\<close> puts any number of nodes together: inputs in any order, messages that are never
  removed from the network and so may be lost, repeated and reordered, Ready cycles that succeed or fail,
  crashes with recovery from the durable hard state. Shown: a step-by-step simulation, and Election
  Safety for a fixed configuration.

  \<^item> \<open>Kv_Store\<close> (\<open>kv.rs\<close>): the versioned store and its sessions. The locale \<open>dedup_machine\<close> is the
  contract of a machine with sessions. Shown: exactly-once application, refinement of a plain
  map, reads at a version with eviction, snapshot and restore.

  \<^item> \<open>Sim_Rng\<close>, \<open>Sim_Time\<close>, \<open>Sim_Trace\<close>, \<open>Sim_Fault\<close>, \<open>Sim_Disk\<close> (\<open>rng.rs\<close>, \<open>time.rs\<close>, \<open>trace.rs\<close>, \<open>fault.rs\<close>
  and the disk and clocks of \<open>kernel.rs\<close>): what a draw returns and that it is unbiased, clocks
  that never run backwards, the trace hash, the presets, and a disk where an fsync is a
  barrier under every fault policy and seed.

  \<^item> \<open>Wal\<close>, \<open>Wal_Names\<close>, \<open>Wal_Rep\<close>, \<open>Wal_Ops\<close>, \<open>Wal_Recovery\<close>, \<open>Wal_State\<close>, \<open>Wal_Props\<close> (\<open>wal.rs\<close>): the
  operations on segment files, and the relation \<open>wal_rep\<close> between a log, the simulated disk and
  the entries of each segment, synced and unsynced. Shown: a synced log survives every crash; an
  append adds all or nothing; truncation refines cutting a list; the hard state is atomic and,
  once saved, kept. What recovery gives after a crash with unsynced records, including the hole it
  can leave at the start, is stated as lemmas.

  \<^item> \<open>Node_Chan\<close>, \<open>Node_Driver\<close> (\<open>chan.rs\<close>, \<open>node.rs\<close>): the queue with its wakers, and the driver.
  \<open>Raft_Track\<close> follows the watermark of entries to hand over through the handlers, \<open>Node_Mirror\<close>
  follows the disk through the writes, and \<open>Node_Cycle\<close> has the contract of the driver, that the
  disk mirrors the log: kept by every turn, established before anything is sent, and found again
  after a crash and restart.

  \<^item> \<open>Lin_History\<close>, \<open>Lin_Check\<close>, \<open>Lin_Correct\<close>, \<open>Lin_Spec\<close>, \<open>Lin_Verdict\<close> (\<open>history.rs\<close>,
  \<open>linearizability.rs\<close>): the checker and linearizability on the events themselves. Shown: a reported
  violation is real; splitting by key is sound; without nested windows the verdict is exact. A
  history with nested windows on which the checker is wrong is a lemma. An operation of unknown
  outcome is placed inside its recorded window or not at all, as the checker does.

  \<^item> \<open>Oracle_Inv\<close>, \<open>Oracle_Watch\<close> (\<open>invariants.rs\<close>, \<open>liveness.rs\<close>): the oracles over published states.
  Shown: exactly when an alarm is raised, in terms of what was observed.

  \<^item> This theory: the cluster under the invariant oracle.

  \<^bold>\<open>Bounds and fuel.\<close> The rejection loop of \<open>below\<close> may run for ever on some generator states and is
  then \<open>None\<close>; it returns as soon as one accepted draw lies ahead. The search of the
  linearizability checker runs at most \<open>max_states\<close> rounds by its own test; the limit is a natural
  number here and a \<open>u64\<close> in the code, and for at most fifteen operations per key the default limit
  is enough. File sizes and offsets are natural numbers, where the code has \<open>u64\<close> and \<open>usize\<close>;
  indices, terms and sequence numbers keep their 64 bits, and theorems that need room above an
  index say so.

  \<^bold>\<open>What is not modelled.\<close> The executor, timers and network of \<open>kernel.rs\<close>, because the theorems
  quantify over every schedule, delivery and crash instead; the client session of \<open>client.rs\<close> and
  \<open>scenario.rs\<close>, which are asynchronous orchestration; \<open>real.rs\<close> and the two binaries, which are
  I/O; \<open>traits.rs\<close> and the crate roots, which have no behaviour; formatting for humans, trace
  notes and the floating-point \<open>batch_ratio\<close>. Two halves of an fsync run back to back, and a driver
  turn is sequential, as its awaits make it. Election Safety is for a fixed configuration;
  configuration changes are covered by the meeting of adjacent quorums.
\<close>

section \<open>The cluster under the oracle\<close>










end
